(* ===== verification/Prelude.thy ===== *)
theory Prelude
  imports Main "HOL-Library.Word" "HOL-Library.Multiset"
begin

text \<open>
  What every component of the development shares: the machine types of the C++ code, the
  messages that travel between actors (include/cas/message_base.h), reachability of a step
  relation with its invariant rule, and the interface of a single-consumer delivery queue.

  \<^item> \<open>size_t\<close> and \<open>uint64_t\<close> are 64-bit words, so every counter of the code wraps where the
    code's counter wraps.
  \<^item> Pointers to actors and operating system threads are natural numbers; \<open>type_index\<close> has one
    constructor per family of C++ types the framework compares.
  \<^item> \<open>message_body\<close> has one constructor per dynamic type the framework distinguishes;
    \<open>cas_framework_kind\<close> is the virtual function of the same name.
  \<^item> The locales \<open>delivery_queue\<close>, \<open>fifo_queue\<close> and \<open>two_lane_queue\<close> state what a consumer may
    rely on; the mailbox and the ready queue interpret them in their own theories.
  \<^item> The locale \<open>inductive_invariant\<close> carries every safety proof over a step relation.
\<close>

named_theorems word_count \<open>facts on 64-bit counters that mirror a list length\<close>

section \<open>Machine types\<close>

type_synonym size_t = "64 word"
type_synonym uint64 = "64 word"
type_synonym actor_ptr = nat
type_synonym thread_id = nat
type_synonym time_point = int
type_synonym millis = int

section \<open>Messages\<close>

datatype framework_kind = FK_user | FK_shutdown | FK_call_request

datatype type_index =
    TI nat
  | TI_void
  | TI_system_shutdown
  | TI_termination_msg
  | TI_call_request type_index type_index type_index

record call_payload =
  op_type :: type_index
  ret_type :: type_index
  args_type :: type_index
  call_args :: nat
  promise_id :: nat

datatype message_body =
    User_body type_index nat
  | System_shutdown
  | Termination_msg string size_t string
  | Call_request call_payload

record message =
  m_addr :: nat
  sender :: "actor_ptr option"
  message_id :: uint64
  correlation_id :: uint64
  body :: message_body

definition cas_framework_kind :: "message \<Rightarrow> framework_kind" where
  "cas_framework_kind m =
     (case body m of
        System_shutdown \<Rightarrow> FK_shutdown
      | Call_request _ \<Rightarrow> FK_call_request
      | _ \<Rightarrow> FK_user)"

definition message_type_of :: "message \<Rightarrow> type_index" where
  "message_type_of m =
     (case body m of
        User_body t _ \<Rightarrow> t
      | System_shutdown \<Rightarrow> TI_system_shutdown
      | Termination_msg _ _ _ \<Rightarrow> TI_termination_msg
      | Call_request c \<Rightarrow> TI_call_request (ret_type c) (op_type c) (args_type c))"

section \<open>Counters that mirror a length\<close>

lemma of_nat_length_pos [word_count]:
  assumes "n < 2 ^ 64"
  shows "(0 < (of_nat n :: size_t)) = (0 < n)"
proof -
  have "unat (of_nat n :: size_t) = n"
    using assms by (simp add: unat_of_nat)
  then show ?thesis
    by (metis gr_zeroI less_irrefl unat_0 word_gt_0 word_less_nat_alt)
qed

lemma unat_of_nat_64 [word_count]: "n < 2 ^ 64 \<Longrightarrow> unat (of_nat n :: size_t) = n"
  by (simp add: unat_of_nat)

section \<open>Reachable states and invariants\<close>

inductive reachable :: "('s \<Rightarrow> bool) \<Rightarrow> ('s \<Rightarrow> 's \<Rightarrow> bool) \<Rightarrow> 's \<Rightarrow> bool"
  for init step where
  reachable_init: "init s \<Longrightarrow> reachable init step s"
| reachable_step: "reachable init step s \<Longrightarrow> step s t \<Longrightarrow> reachable init step t"

locale inductive_invariant =
  fixes init :: "'s \<Rightarrow> bool"
    and step :: "'s \<Rightarrow> 's \<Rightarrow> bool"
    and inv :: "'s \<Rightarrow> bool"
  assumes inv_init: "init s \<Longrightarrow> inv s"
    and inv_step: "inv s \<Longrightarrow> step s t \<Longrightarrow> inv t"
begin

lemma reachable_inv:
  assumes "reachable init step s"
  shows "inv s"
  using assms by (induction rule: reachable.induct) (blast intro: inv_init inv_step)+

end

section \<open>Delivery queues\<close>

text \<open>
  The drain loop \<open>while (x = q.pop()) ...\<close>: it collects what it pops, and returns only if the
  queue runs empty.
\<close>

partial_function (option) drain ::
  "('q \<Rightarrow> 'a option \<times> 'q) \<Rightarrow> 'q \<Rightarrow> ('a list \<times> 'q) option" where
  "drain pop q =
     (case pop q of
        (None, q') \<Rightarrow> Some ([], q')
      | (Some x, q') \<Rightarrow>
          Option.bind (drain pop q') (\<lambda>(xs, q''). Some (x # xs, q'')))"

locale delivery_queue =
  fixes pop :: "'q \<Rightarrow> 'a option \<times> 'q"
    and contents :: "'q \<Rightarrow> 'a list"
    and invar :: "'q \<Rightarrow> bool"
  assumes pop_Nil: "invar q \<Longrightarrow> contents q = [] \<Longrightarrow>
      fst (pop q) = None \<and> contents (snd (pop q)) = []"
    and pop_Cons: "invar q \<Longrightarrow> contents q = x # xs \<Longrightarrow>
      fst (pop q) = Some x \<and> contents (snd (pop q)) = xs"
    and pop_invar: "invar q \<Longrightarrow> invar (snd (pop q))"
begin

lemma pop_eq_None_iff: "invar q \<Longrightarrow> fst (pop q) = None \<longleftrightarrow> contents q = []"
  by (cases "contents q") (auto dest: pop_Nil pop_Cons)

lemma pop_contents: "invar q \<Longrightarrow> contents (snd (pop q)) = tl (contents q)"
  by (cases "contents q") (auto dest: pop_Nil pop_Cons)

lemma drain_returns:
  assumes "invar q"
  shows "\<exists>q'. drain pop q = Some (contents q, q') \<and> contents q' = [] \<and> invar q'"
  using assms
proof (induction "contents q" arbitrary: q)
  case Nil
  then have "fst (pop q) = None" "contents (snd (pop q)) = []" "invar (snd (pop q))"
    using pop_Nil pop_invar by auto
  with Nil.hyps show ?case
    by (subst drain.simps) (cases "pop q"; auto)
next
  case (Cons x xs)
  from Cons.hyps(2) have c: "contents q = x # xs" by simp
  with Cons.prems have p: "fst (pop q) = Some x" "contents (snd (pop q)) = xs"
    "invar (snd (pop q))"
    using pop_Cons pop_invar by auto
  from Cons.hyps(1) [of "snd (pop q)"] p obtain q' where
    "drain pop (snd (pop q)) = Some (xs, q')" "contents q' = []" "invar q'"
    by auto
  with p c show ?case
    by (subst drain.simps) (cases "pop q"; auto)
qed

end

text \<open>
  A queue with an urgent lane: urgent items are served before all others, each lane in push
  order. \<open>accepts\<close> says when a push is taken.
\<close>

locale two_lane_queue = delivery_queue pop contents invar
  for pop :: "'q \<Rightarrow> 'a option \<times> 'q"
    and contents :: "'q \<Rightarrow> 'a list"
    and invar :: "'q \<Rightarrow> bool" +
  fixes push :: "'a \<Rightarrow> 'q \<Rightarrow> 'q"
    and accepts :: "nat \<Rightarrow> 'q \<Rightarrow> bool"
    and urgent :: "'a \<Rightarrow> bool"
    and urgent_lane :: "'q \<Rightarrow> 'a list"
    and other_lane :: "'q \<Rightarrow> 'a list"
  assumes contents_lanes: "invar q \<Longrightarrow> contents q = urgent_lane q @ other_lane q"
    and push_urgent_lane: "invar q \<Longrightarrow> accepts (Suc n) q \<Longrightarrow>
      urgent_lane (push x q) = urgent_lane q @ (if urgent x then [x] else [])"
    and push_other_lane: "invar q \<Longrightarrow> accepts (Suc n) q \<Longrightarrow>
      other_lane (push x q) = other_lane q @ (if urgent x then [] else [x])"
    and push_invar: "invar q \<Longrightarrow> accepts (Suc n) q \<Longrightarrow> invar (push x q)"
    and push_accepts: "invar q \<Longrightarrow> accepts (Suc n) q \<Longrightarrow> accepts n (push x q)"
begin

lemma push_all_lanes:
  assumes "invar q" "accepts (length xs) q"
  shows "invar (fold push xs q)
    \<and> urgent_lane (fold push xs q) = urgent_lane q @ filter urgent xs
    \<and> other_lane (fold push xs q) = other_lane q @ filter (\<lambda>x. \<not> urgent x) xs"
  using assms
proof (induction xs arbitrary: q)
  case Nil
  then show ?case by simp
next
  case (Cons x xs)
  then have a: "accepts (Suc (length xs)) q" by simp
  note Cons.IH [OF push_invar [OF Cons.prems(1) a] push_accepts [OF Cons.prems(1) a]]
  then show ?case
    using push_urgent_lane [OF Cons.prems(1) a] push_other_lane [OF Cons.prems(1) a] by simp
qed

lemma push_all_then_drain:
  assumes "invar q" "accepts (length xs) q" "contents q = []"
  shows "\<exists>q'. drain pop (fold push xs q) =
     Some (filter urgent xs @ filter (\<lambda>x. \<not> urgent x) xs, q')"
proof -
  note l = push_all_lanes [OF assms(1,2)]
  have "contents (fold push xs q) = filter urgent xs @ filter (\<lambda>x. \<not> urgent x) xs"
    using l contents_lanes [of q] contents_lanes [of "fold push xs q"] assms by simp
  then show ?thesis
    using drain_returns [of "fold push xs q"] l by auto
qed

end

text \<open>A queue that serves strictly in push order: the two-lane contract with nothing urgent.\<close>

locale fifo_queue = delivery_queue pop contents invar
  for pop :: "'q \<Rightarrow> 'a option \<times> 'q"
    and contents :: "'q \<Rightarrow> 'a list"
    and invar :: "'q \<Rightarrow> bool" +
  fixes push :: "'a \<Rightarrow> 'q \<Rightarrow> 'q"
  assumes push_contents: "invar q \<Longrightarrow> contents (push x q) = contents q @ [x]"
    and fifo_push_invar: "invar q \<Longrightarrow> invar (push x q)"

sublocale fifo_queue \<subseteq> lanes: two_lane_queue pop contents invar push
    "\<lambda>_ _. True" "\<lambda>_. False" "\<lambda>_. []" contents
  by unfold_locales (auto simp: push_contents fifo_push_invar)

end
