(* ===== verification/Mailbox.thy ===== *)
theory Mailbox
  imports Prelude
begin

text \<open>
  The actor mailbox (include/cas/detail/mailbox.h, source/mailbox.cpp): one operation at a
  time. The atomic word \<open>m_stack\<close> is either one of the three tags or the head of the
  newest-first chain of pushed messages; \<open>m_calls\<close> and \<open>m_others\<close> are the consumer's private
  FIFO caches, oldest first. An intrusive chain linked by \<open>m_next\<close> is a list. The counters are
  64-bit words, incremented before a push is published and decremented after a message left.

  Shown: the type and counter invariant of every operation, the behaviour of each operation
  on every branch, and the two-lane delivery contract (calls first, each lane in push order),
  by interpreting \<open>two_lane_queue\<close> on \<open>mailbox_pop\<close> and \<open>mailbox_push\<close>. The interleaved
  executions of several producers with the consumer are in \<open>Mailbox_Concurrent\<close>.
\<close>

section \<open>State\<close>

datatype push_result = PR_success | PR_unblocked | PR_closed

datatype stack_word = Empty_tag | Blocked_tag | Closed_tag | Head message "message list"

record mailbox =
  m_calls :: "message list"
  m_others :: "message list"
  m_stack :: stack_word
  m_call_count :: size_t
  m_other_count :: size_t

definition mailbox_init :: mailbox where
  "mailbox_init = \<lparr>m_calls = [], m_others = [], m_stack = Empty_tag,
     m_call_count = 0, m_other_count = 0\<rparr>"

fun chain :: "stack_word \<Rightarrow> message list" where
  "chain (Head m ms) = m # ms"
| "chain _ = []"

definition is_tag :: "stack_word \<Rightarrow> bool" where
  "is_tag w \<longleftrightarrow> w = Empty_tag \<or> w = Blocked_tag \<or> w = Closed_tag"

definition is_call :: "message \<Rightarrow> bool" where
  "is_call m \<longleftrightarrow> cas_framework_kind m = FK_call_request"

section \<open>Operations\<close>

definition count_fetch_add :: "message \<Rightarrow> mailbox \<Rightarrow> mailbox" where
  "count_fetch_add m mb =
     (if is_call m then mb\<lparr>m_call_count := m_call_count mb + 1\<rparr>
      else mb\<lparr>m_other_count := m_other_count mb + 1\<rparr>)"

definition count_fetch_sub :: "message \<Rightarrow> mailbox \<Rightarrow> mailbox" where
  "count_fetch_sub m mb =
     (if is_call m then mb\<lparr>m_call_count := m_call_count mb - 1\<rparr>
      else mb\<lparr>m_other_count := m_other_count mb - 1\<rparr>)"

definition link_node :: "message \<Rightarrow> stack_word \<Rightarrow> stack_word" where
  "link_node m head = (if head = Blocked_tag then Head m [] else Head m (chain head))"

definition mailbox_push :: "message \<Rightarrow> mailbox \<Rightarrow> push_result \<times> mailbox" where
  "mailbox_push m mb =
     (let mb1 = count_fetch_add m mb; head = m_stack mb1
      in if head = Closed_tag then (PR_closed, count_fetch_sub m mb1)
         else (if head = Blocked_tag then PR_unblocked else PR_success,
               mb1\<lparr>m_stack := link_node m head\<rparr>))"

definition take_head :: "stack_word \<Rightarrow> mailbox \<Rightarrow> message list \<times> mailbox" where
  "take_head new_head mb =
     (let head = m_stack mb
      in if head = new_head then ([], mb)
         else (if is_tag head then [] else chain head, mb\<lparr>m_stack := new_head\<rparr>))"

fun split_stack ::
  "message list \<Rightarrow> message list \<Rightarrow> message list \<Rightarrow> message list \<times> message list" where
  "split_stack [] ask_first other_first = (ask_first, other_first)"
| "split_stack (node # next) ask_first other_first =
     (if is_call node then split_stack next (node # ask_first) other_first
      else split_stack next ask_first (node # other_first))"

definition fetch_more :: "mailbox \<Rightarrow> bool \<times> mailbox" where
  "fetch_more mb =
     (let (node, mb1) = take_head Empty_tag mb
      in if node = [] then (False, mb1)
         else (let (asks, others) = split_stack node [] []
               in (True, mb1\<lparr>m_calls := m_calls mb1 @ asks, m_others := m_others mb1 @ others\<rparr>)))"

definition dequeue_node :: "mailbox \<Rightarrow> (message \<times> mailbox) option" where
  "dequeue_node mb =
     (case m_calls mb of
        node # rest \<Rightarrow> Some (node, mb\<lparr>m_calls := rest\<rparr>)
      | [] \<Rightarrow>
         (case m_others mb of
            node # rest \<Rightarrow> Some (node, mb\<lparr>m_others := rest\<rparr>)
          | [] \<Rightarrow> None))"

definition take_node :: "mailbox \<Rightarrow> message option \<times> mailbox" where
  "take_node mb =
     (case dequeue_node mb of
        None \<Rightarrow> (None, mb)
      | Some (node, mb') \<Rightarrow> (Some node, count_fetch_sub node mb'))"

definition mailbox_pop :: "mailbox \<Rightarrow> message option \<times> mailbox" where
  "mailbox_pop mb =
     (let mb1 = (if m_calls mb = [] \<and> 0 < m_call_count mb then snd (fetch_more mb) else mb)
      in if m_calls mb1 = [] \<and> m_others mb1 = []
         then (case fetch_more mb1 of
                 (False, mb2) \<Rightarrow> (None, mb2)
               | (True, mb2) \<Rightarrow> take_node mb2)
         else take_node mb1)"

definition try_block :: "mailbox \<Rightarrow> bool \<times> mailbox" where
  "try_block mb =
     (if m_calls mb \<noteq> [] \<or> m_others mb \<noteq> [] then (False, mb)
      else if m_stack mb = Empty_tag then (True, mb\<lparr>m_stack := Blocked_tag\<rparr>)
      else (False, mb))"

definition try_unblock :: "mailbox \<Rightarrow> bool \<times> mailbox" where
  "try_unblock mb =
     (if m_stack mb = Blocked_tag then (True, mb\<lparr>m_stack := Empty_tag\<rparr>) else (False, mb))"

definition mailbox_close :: "mailbox \<Rightarrow> message list \<times> mailbox" where
  "mailbox_close mb =
     (let (stack, mb1) = take_head Closed_tag mb;
          mb2 = (fold count_fetch_sub (m_calls mb1) mb1)\<lparr>m_calls := []\<rparr>;
          mb3 = (fold count_fetch_sub (m_others mb2) mb2)\<lparr>m_others := []\<rparr>;
          mb4 = fold count_fetch_sub stack mb3
      in (m_calls mb1 @ m_others mb2 @ stack, mb4))"

text \<open>The destructor: the messages it frees, in this order.\<close>

definition mailbox_destroy :: "mailbox \<Rightarrow> message list" where
  "mailbox_destroy mb = (if is_tag (m_stack mb) then [] else chain (m_stack mb)) @ m_calls mb @ m_others mb"

definition call_size :: "mailbox \<Rightarrow> size_t" where
  "call_size mb = m_call_count mb"

definition other_size :: "mailbox \<Rightarrow> size_t" where
  "other_size mb = m_other_count mb"

definition mailbox_size :: "mailbox \<Rightarrow> size_t" where
  "mailbox_size mb = call_size mb + other_size mb"

definition mailbox_closed :: "mailbox \<Rightarrow> bool" where
  "mailbox_closed mb \<longleftrightarrow> m_stack mb = Closed_tag"

definition mailbox_blocked :: "mailbox \<Rightarrow> bool" where
  "mailbox_blocked mb \<longleftrightarrow> m_stack mb = Blocked_tag"

section \<open>What is queued, and the invariant\<close>

definition call_lane :: "mailbox \<Rightarrow> message list" where
  "call_lane mb = m_calls mb @ rev (filter is_call (chain (m_stack mb)))"

definition other_lane_of :: "mailbox \<Rightarrow> message list" where
  "other_lane_of mb = m_others mb @ rev (filter (\<lambda>m. \<not> is_call m) (chain (m_stack mb)))"

definition queued :: "mailbox \<Rightarrow> message list" where
  "queued mb = call_lane mb @ other_lane_of mb"

definition mailbox_caches_ok :: "mailbox \<Rightarrow> bool" where
  "mailbox_caches_ok mb \<longleftrightarrow> list_all is_call (m_calls mb) \<and> list_all (\<lambda>m. \<not> is_call m) (m_others mb)"

definition mailbox_inv :: "mailbox \<Rightarrow> bool" where
  "mailbox_inv mb \<longleftrightarrow> mailbox_caches_ok mb
     \<and> m_call_count mb = of_nat (length (call_lane mb))
     \<and> m_other_count mb = of_nat (length (other_lane_of mb))
     \<and> length (queued mb) < 2 ^ 64"

definition mailbox_accepts :: "nat \<Rightarrow> mailbox \<Rightarrow> bool" where
  "mailbox_accepts n mb \<longleftrightarrow> \<not> mailbox_closed mb \<and> length (queued mb) + n < 2 ^ 64"

lemmas lane_defs = call_lane_def other_lane_of_def queued_def

lemma chain_tag [simp]: "is_tag w \<Longrightarrow> chain w = []"
  by (auto simp: is_tag_def)

lemma is_tag_simps [simp]:
  "is_tag Empty_tag" "is_tag Blocked_tag" "is_tag Closed_tag" "\<not> is_tag (Head m ms)"
  by (auto simp: is_tag_def)

lemma chain_eq_Nil_iff: "chain w = [] \<longleftrightarrow> is_tag w"
  by (cases w) auto

lemma chain_link_node [simp]: "chain (link_node m head) = m # chain head"
  by (auto simp: link_node_def)

lemma link_node_tag [simp]:
  "link_node m head \<noteq> Empty_tag" "link_node m head \<noteq> Blocked_tag" "link_node m head \<noteq> Closed_tag"
  by (auto simp: link_node_def)

lemma count_sub_add [simp]: "count_fetch_sub m (count_fetch_add m mb) = mb"
  by (auto simp: count_fetch_add_def count_fetch_sub_def)

lemma count_fields [simp]:
  "m_calls (count_fetch_add m mb) = m_calls mb"
  "m_others (count_fetch_add m mb) = m_others mb"
  "m_stack (count_fetch_add m mb) = m_stack mb"
  "m_calls (count_fetch_sub m mb) = m_calls mb"
  "m_others (count_fetch_sub m mb) = m_others mb"
  "m_stack (count_fetch_sub m mb) = m_stack mb"
  by (auto simp: count_fetch_add_def count_fetch_sub_def)

lemma count_values:
  "m_call_count (count_fetch_add m mb) = m_call_count mb + (if is_call m then 1 else 0)"
  "m_other_count (count_fetch_add m mb) = m_other_count mb + (if is_call m then 0 else 1)"
  "m_call_count (count_fetch_sub m mb) = m_call_count mb - (if is_call m then 1 else 0)"
  "m_other_count (count_fetch_sub m mb) = m_other_count mb - (if is_call m then 0 else 1)"
  by (auto simp: count_fetch_add_def count_fetch_sub_def)

lemma count_lanes [simp]:
  "call_lane (count_fetch_add m mb) = call_lane mb"
  "other_lane_of (count_fetch_add m mb) = other_lane_of mb"
  "call_lane (count_fetch_sub m mb) = call_lane mb"
  "other_lane_of (count_fetch_sub m mb) = other_lane_of mb"
  by (simp_all add: lane_defs)

lemma fold_count_fields [simp]:
  "m_calls (fold count_fetch_sub ms mb) = m_calls mb"
  "m_others (fold count_fetch_sub ms mb) = m_others mb"
  "m_stack (fold count_fetch_sub ms mb) = m_stack mb"
  by (induction ms arbitrary: mb) auto

lemma fold_count_values:
  "m_call_count (fold count_fetch_sub ms mb) = m_call_count mb - of_nat (length (filter is_call ms))"
  "m_other_count (fold count_fetch_sub ms mb) =
     m_other_count mb - of_nat (length (filter (\<lambda>m. \<not> is_call m) ms))"
  by (induction ms arbitrary: mb) (auto simp: count_values)

lemma split_stack_eq:
  "split_stack ns a b = (rev (filter is_call ns) @ a, rev (filter (\<lambda>m. \<not> is_call m) ns) @ b)"
  by (induction ns a b rule: split_stack.induct) auto

lemma mset_queued: "mset (queued mb) = mset (m_calls mb) + mset (m_others mb) + mset (chain (m_stack mb))"
proof -
  have "mset (chain (m_stack mb)) =
      mset (filter is_call (chain (m_stack mb))) + mset (filter (\<lambda>m. \<not> is_call m) (chain (m_stack mb)))"
    by (metis mset_filter multiset_partition)
  then show ?thesis by (simp add: lane_defs)
qed

lemma mailbox_init_inv [simp]: "mailbox_inv mailbox_init"
  by (simp add: mailbox_inv_def mailbox_init_def mailbox_caches_ok_def lane_defs)

section \<open>Fetching and popping\<close>

lemma fetch_more_lanes:
  "call_lane (snd (fetch_more mb)) = call_lane mb"
  "other_lane_of (snd (fetch_more mb)) = other_lane_of mb"
  by (auto simp: fetch_more_def take_head_def split_stack_eq lane_defs Let_def chain_eq_Nil_iff
      split: prod.splits if_splits)

lemma fetch_more_result: "fst (fetch_more mb) \<longleftrightarrow> chain (m_stack mb) \<noteq> []"
  by (auto simp: fetch_more_def take_head_def split_stack_eq Let_def chain_eq_Nil_iff
      split: prod.splits if_splits)

lemma fetch_more_caches:
  "m_calls (snd (fetch_more mb)) = call_lane mb"
  "m_others (snd (fetch_more mb)) = other_lane_of mb"
  by (auto simp: fetch_more_def take_head_def split_stack_eq lane_defs Let_def chain_eq_Nil_iff
      split: prod.splits if_splits)

lemma fetch_more_counts [simp]:
  "m_call_count (snd (fetch_more mb)) = m_call_count mb"
  "m_other_count (snd (fetch_more mb)) = m_other_count mb"
  by (auto simp: fetch_more_def take_head_def Let_def split: prod.splits)

lemma fetch_more_stack [simp]: "m_stack (snd (fetch_more mb)) = Empty_tag"
  by (auto simp: fetch_more_def take_head_def Let_def split: prod.splits)

lemma fetch_more_inv: "mailbox_inv mb \<Longrightarrow> mailbox_inv (snd (fetch_more mb))"
  by (auto simp: mailbox_inv_def mailbox_caches_ok_def fetch_more_caches fetch_more_lanes queued_def
      list_all_iff call_lane_def other_lane_of_def)

lemma take_node_calls:
  assumes "mailbox_caches_ok mb" "m_calls mb = x # xs"
  shows "fst (take_node mb) = Some x"
    "call_lane mb = x # call_lane (snd (take_node mb))"
    "other_lane_of (snd (take_node mb)) = other_lane_of mb"
    "m_call_count (snd (take_node mb)) = m_call_count mb - 1"
    "m_other_count (snd (take_node mb)) = m_other_count mb"
    "mailbox_caches_ok (snd (take_node mb))"
  using assms by (auto simp: take_node_def dequeue_node_def mailbox_caches_ok_def lane_defs count_values)

lemma take_node_others:
  assumes "mailbox_caches_ok mb" "m_calls mb = []" "m_others mb = x # xs"
  shows "fst (take_node mb) = Some x"
    "other_lane_of mb = x # other_lane_of (snd (take_node mb))"
    "call_lane (snd (take_node mb)) = call_lane mb"
    "m_call_count (snd (take_node mb)) = m_call_count mb"
    "m_other_count (snd (take_node mb)) = m_other_count mb - 1"
    "mailbox_caches_ok (snd (take_node mb))"
  using assms by (auto simp: take_node_def dequeue_node_def mailbox_caches_ok_def lane_defs count_values)


lemma take_node_inv: "mailbox_inv mb \<Longrightarrow> mailbox_inv (snd (take_node mb))"
proof (cases "m_calls mb")
  case (Cons x xs)
  moreover assume "mailbox_inv mb"
  ultimately show ?thesis
    using take_node_calls [of mb x xs] by (auto simp: mailbox_inv_def queued_def)
next
  case Nil
  assume i: "mailbox_inv mb"
  show ?thesis
  proof (cases "m_others mb")
    case Nil': Nil
    with Nil i show ?thesis by (simp add: take_node_def dequeue_node_def)
  next
    case (Cons x xs)
    with Nil i show ?thesis
      using take_node_others [of mb x xs] by (auto simp: mailbox_inv_def queued_def)
  qed
qed

text \<open>The first step of \<open>pop()\<close>: fetch when a call is counted but none is cached.\<close>

definition pop_prepare :: "mailbox \<Rightarrow> mailbox" where
  "pop_prepare mb = (if m_calls mb = [] \<and> 0 < m_call_count mb then snd (fetch_more mb) else mb)"

lemma pop_prepare_lanes [simp]:
  "call_lane (pop_prepare mb) = call_lane mb" "other_lane_of (pop_prepare mb) = other_lane_of mb"
  by (auto simp: pop_prepare_def fetch_more_lanes)

lemma pop_prepare_inv: "mailbox_inv mb \<Longrightarrow> mailbox_inv (pop_prepare mb)"
  by (auto simp: pop_prepare_def fetch_more_inv)

lemma pop_prepare_calls:
  assumes "mailbox_inv mb" "call_lane mb \<noteq> []"
  shows "m_calls (pop_prepare mb) \<noteq> []"
proof (cases "m_calls mb = []")
  case True
  from assms(1) have "length (call_lane mb) < 2 ^ 64"
    by (auto simp: mailbox_inv_def queued_def)
  with assms have "0 < m_call_count mb"
    by (simp add: mailbox_inv_def of_nat_length_pos)
  with True assms(2) show ?thesis
    by (simp add: pop_prepare_def fetch_more_caches)
qed (simp add: pop_prepare_def)

lemma take_node_after_failed_fetch:
  assumes "fetch_more mb = (False, mb')" "m_calls mb = []" "m_others mb = []"
  shows "take_node mb' = (None, mb')"
proof -
  have "chain (m_stack mb) = []"
    using fetch_more_result [of mb] assms(1) by simp
  then show ?thesis
    using fetch_more_caches [of mb] assms by (simp add: take_node_def dequeue_node_def lane_defs)
qed

lemma mailbox_pop_alt:
  "mailbox_pop mb =
     (let mb1 = pop_prepare mb
      in if m_calls mb1 = [] \<and> m_others mb1 = [] then take_node (snd (fetch_more mb1))
         else take_node mb1)"
  by (auto simp: mailbox_pop_def pop_prepare_def Let_def take_node_after_failed_fetch
      split: prod.splits bool.splits)

lemma mailbox_pop_inv: "mailbox_inv mb \<Longrightarrow> mailbox_inv (snd (mailbox_pop mb))"
  by (auto simp: mailbox_pop_alt Let_def intro!: take_node_inv fetch_more_inv pop_prepare_inv)

lemma mailbox_pop_call:
  assumes "mailbox_inv mb" "call_lane mb = x # xs"
  shows "fst (mailbox_pop mb) = Some x" "call_lane (snd (mailbox_pop mb)) = xs"
    "other_lane_of (snd (mailbox_pop mb)) = other_lane_of mb"
proof -
  let ?p = "pop_prepare mb"
  from pop_prepare_calls assms obtain y ys where y: "m_calls ?p = y # ys"
    by (metis list.exhaust list.distinct(1))
  then have pop: "mailbox_pop mb = take_node ?p"
    by (simp add: mailbox_pop_alt)
  have ok: "mailbox_caches_ok ?p"
    using pop_prepare_inv [OF assms(1)] by (simp add: mailbox_inv_def)
  note t = take_node_calls [OF ok y]
  show "fst (mailbox_pop mb) = Some x" "call_lane (snd (mailbox_pop mb)) = xs"
    "other_lane_of (snd (mailbox_pop mb)) = other_lane_of mb"
    using t assms(2) by (auto simp: pop)
qed

lemma mailbox_pop_other:
  assumes "mailbox_inv mb" "call_lane mb = []" "other_lane_of mb = x # xs"
  shows "fst (mailbox_pop mb) = Some x" "call_lane (snd (mailbox_pop mb)) = []"
    "other_lane_of (snd (mailbox_pop mb)) = xs"
proof -
  let ?p = "pop_prepare mb"
  let ?q = "if m_calls ?p = [] \<and> m_others ?p = [] then snd (fetch_more ?p) else ?p"
  have pop: "mailbox_pop mb = take_node ?q"
    by (simp add: mailbox_pop_alt Let_def)
  have inv: "mailbox_inv ?q"
    using pop_prepare_inv [OF assms(1)] by (simp add: fetch_more_inv)
  have lanes: "call_lane ?q = []" "other_lane_of ?q = x # xs"
    using assms by (auto simp: fetch_more_lanes)
  have c: "m_calls ?q = []"
    using lanes(1) by (simp add: call_lane_def)
  have "m_others ?q \<noteq> []"
    using assms(2,3) pop_prepare_lanes(1) [of mb] by (auto simp: fetch_more_caches call_lane_def)
  then obtain y ys where o: "m_others ?q = y # ys"
    by (meson list.exhaust)
  from inv have ok: "mailbox_caches_ok ?q"
    by (simp add: mailbox_inv_def)
  note t = take_node_others [OF ok c o]
  show "fst (mailbox_pop mb) = Some x" "call_lane (snd (mailbox_pop mb)) = []"
    "other_lane_of (snd (mailbox_pop mb)) = xs"
    unfolding pop using t lanes by auto
qed

lemma mailbox_pop_none:
  assumes "mailbox_inv mb" "queued mb = []"
  shows "fst (mailbox_pop mb) = None" "queued (snd (mailbox_pop mb)) = []"
proof -
  let ?p = "pop_prepare mb"
  have lanes: "call_lane ?p = []" "other_lane_of ?p = []"
    using assms(2) by (auto simp: queued_def)
  then have c: "m_calls ?p = []" "m_others ?p = []"
    by (auto simp: call_lane_def other_lane_of_def)
  then have pop: "mailbox_pop mb = take_node (snd (fetch_more ?p))"
    by (simp add: mailbox_pop_alt)
  have "take_node (snd (fetch_more ?p)) = (None, snd (fetch_more ?p))"
    using lanes by (simp add: take_node_def dequeue_node_def fetch_more_caches)
  then show "fst (mailbox_pop mb) = None" "queued (snd (mailbox_pop mb)) = []"
    using lanes by (auto simp: pop queued_def fetch_more_lanes)
qed

section \<open>Pushing, blocking and closing\<close>

lemma mailbox_push_closed: "mailbox_closed mb \<Longrightarrow> mailbox_push m mb = (PR_closed, mb)"
  by (simp add: mailbox_push_def mailbox_closed_def)

lemma mailbox_push_result:
  "fst (mailbox_push m mb) =
     (if mailbox_closed mb then PR_closed else if mailbox_blocked mb then PR_unblocked else PR_success)"
  by (simp add: mailbox_push_def mailbox_closed_def mailbox_blocked_def Let_def)

lemma mailbox_push_lanes:
  assumes "\<not> mailbox_closed mb"
  shows "call_lane (snd (mailbox_push m mb)) = call_lane mb @ (if is_call m then [m] else [])"
    "other_lane_of (snd (mailbox_push m mb)) = other_lane_of mb @ (if is_call m then [] else [m])"
  using assms by (auto simp: mailbox_push_def mailbox_closed_def Let_def call_lane_def other_lane_of_def)

lemma mailbox_push_open: "\<not> mailbox_closed mb \<Longrightarrow> \<not> mailbox_closed (snd (mailbox_push m mb))"
  by (auto simp: mailbox_push_def mailbox_closed_def Let_def link_node_def)

lemma mailbox_push_counts:
  assumes "\<not> mailbox_closed mb"
  shows "m_call_count (snd (mailbox_push m mb)) = m_call_count mb + (if is_call m then 1 else 0)"
    "m_other_count (snd (mailbox_push m mb)) = m_other_count mb + (if is_call m then 0 else 1)"
  using assms by (auto simp: mailbox_push_def mailbox_closed_def Let_def count_values)

lemma mailbox_push_caches [simp]:
  "m_calls (snd (mailbox_push m mb)) = m_calls mb"
  "m_others (snd (mailbox_push m mb)) = m_others mb"
  by (auto simp: mailbox_push_def Let_def)

lemma mailbox_push_inv:
  assumes "mailbox_inv mb" "Suc (length (queued mb)) < 2 ^ 64"
  shows "mailbox_inv (snd (mailbox_push m mb))"
proof (cases "mailbox_closed mb")
  case True
  with assms show ?thesis by (simp add: mailbox_push_closed)
next
  case False
  with assms show ?thesis
    by (auto simp: mailbox_inv_def mailbox_push_lanes mailbox_push_counts queued_def mailbox_caches_ok_def)
qed

lemma try_block_spec:
  "fst (try_block mb) \<longleftrightarrow> m_calls mb = [] \<and> m_others mb = [] \<and> m_stack mb = Empty_tag"
  "fst (try_block mb) \<Longrightarrow> snd (try_block mb) = mb\<lparr>m_stack := Blocked_tag\<rparr>"
  "\<not> fst (try_block mb) \<Longrightarrow> snd (try_block mb) = mb"
  by (auto simp: try_block_def)

lemma try_block_lanes [simp]:
  "call_lane (snd (try_block mb)) = call_lane mb" "other_lane_of (snd (try_block mb)) = other_lane_of mb"
  by (auto simp: try_block_def lane_defs)

lemma try_unblock_lanes [simp]:
  "call_lane (snd (try_unblock mb)) = call_lane mb"
  "other_lane_of (snd (try_unblock mb)) = other_lane_of mb"
  by (auto simp: try_unblock_def lane_defs)

lemma try_block_counts [simp]:
  "m_call_count (snd (try_block mb)) = m_call_count mb"
  "m_other_count (snd (try_block mb)) = m_other_count mb"
  "m_call_count (snd (try_unblock mb)) = m_call_count mb"
  "m_other_count (snd (try_unblock mb)) = m_other_count mb"
  by (auto simp: try_block_def try_unblock_def)

lemma try_block_caches [simp]:
  "m_calls (snd (try_block mb)) = m_calls mb" "m_others (snd (try_block mb)) = m_others mb"
  "m_calls (snd (try_unblock mb)) = m_calls mb" "m_others (snd (try_unblock mb)) = m_others mb"
  by (auto simp: try_block_def try_unblock_def)

lemma try_block_inv: "mailbox_inv mb \<Longrightarrow> mailbox_inv (snd (try_block mb))"
  by (auto simp: try_block_def mailbox_inv_def mailbox_caches_ok_def lane_defs)

lemma try_unblock_inv: "mailbox_inv mb \<Longrightarrow> mailbox_inv (snd (try_unblock mb))"
  by (auto simp: try_unblock_def mailbox_inv_def mailbox_caches_ok_def lane_defs)

lemma mailbox_close_dropped:
  "fst (mailbox_close mb) = m_calls mb @ m_others mb @ chain (m_stack mb)"
  by (auto simp: mailbox_close_def take_head_def Let_def split: prod.splits)

lemma mailbox_close_state:
  "m_calls (snd (mailbox_close mb)) = []" "m_others (snd (mailbox_close mb)) = []"
  "m_stack (snd (mailbox_close mb)) = Closed_tag"
  by (auto simp: mailbox_close_def take_head_def Let_def split: prod.splits)

lemma mailbox_close_counts:
  assumes "mailbox_inv mb"
  shows "m_call_count (snd (mailbox_close mb)) = 0" "m_other_count (snd (mailbox_close mb)) = 0"
  using assms
  by (auto simp: mailbox_close_def take_head_def Let_def fold_count_values mailbox_inv_def
      mailbox_caches_ok_def lane_defs list_all_iff filter_empty_conv
      split: prod.splits if_splits)

lemma mailbox_close_inv: "mailbox_inv mb \<Longrightarrow> mailbox_inv (snd (mailbox_close mb))"
  by (simp add: mailbox_inv_def [of "snd (mailbox_close mb)"] mailbox_close_counts
      mailbox_caches_ok_def mailbox_close_state lane_defs)

text \<open>\<open>mailbox_inv\<close> without its bound: it needs no assumption on the number of messages.\<close>

definition mailbox_wf :: "mailbox \<Rightarrow> bool" where
  "mailbox_wf mb \<longleftrightarrow> mailbox_caches_ok mb \<and> m_call_count mb = of_nat (length (call_lane mb)) \<and> m_other_count mb = of_nat (length (other_lane_of mb))
     \<and> (mailbox_closed mb \<longrightarrow> queued mb = [])"

lemma mailbox_wf_inv: "mailbox_wf mb \<Longrightarrow> length (queued mb) < 2 ^ 64 \<Longrightarrow> mailbox_inv mb"
  by (simp add: mailbox_wf_def mailbox_inv_def)

lemma fetch_more_wf: "mailbox_wf mb \<Longrightarrow> mailbox_wf (snd (fetch_more mb))"
  by (auto simp: mailbox_wf_def mailbox_caches_ok_def fetch_more_caches fetch_more_lanes mailbox_closed_def
      list_all_iff call_lane_def other_lane_of_def)

lemma take_node_wf: "mailbox_wf mb \<Longrightarrow> mailbox_wf (snd (take_node mb))"
  by (cases "m_calls mb"; cases "m_others mb")
    (auto simp: mailbox_wf_def mailbox_caches_ok_def take_node_def dequeue_node_def lane_defs count_values mailbox_closed_def)

lemma mailbox_pop_wf: "mailbox_wf mb \<Longrightarrow> mailbox_wf (snd (mailbox_pop mb))"
  by (auto simp: mailbox_pop_alt pop_prepare_def Let_def intro!: take_node_wf fetch_more_wf)

lemma mailbox_push_wf: "mailbox_wf mb \<Longrightarrow> mailbox_wf (snd (mailbox_push m mb))"
  by (cases "mailbox_closed mb")
    (auto simp: mailbox_push_closed mailbox_wf_def mailbox_push_lanes mailbox_push_counts mailbox_push_open mailbox_caches_ok_def)

lemma mailbox_close_wf: "mailbox_wf mb \<Longrightarrow> mailbox_wf (snd (mailbox_close mb))"
  by (auto simp: mailbox_wf_def mailbox_caches_ok_def mailbox_close_state lane_defs mailbox_close_def take_head_def Let_def fold_count_values
      list_all_iff filter_empty_conv split: prod.splits if_splits)

lemma try_block_wf: "mailbox_wf mb \<Longrightarrow> mailbox_wf (snd (try_block mb))" "mailbox_wf mb \<Longrightarrow> mailbox_wf (snd (try_unblock mb))"
  by (auto simp: mailbox_wf_def mailbox_caches_ok_def mailbox_closed_def lane_defs try_block_def try_unblock_def)

lemma mailbox_close_mset: "mset (fst (mailbox_close mb)) = mset (queued mb)"
  by (simp add: mailbox_close_dropped mset_queued)

text \<open>The destructor frees every message that is still queued, once, and nothing after a close.\<close>

lemma mailbox_destroy_frees:
  "mset (mailbox_destroy mb) = mset (queued mb)" "mailbox_destroy (snd (mailbox_close mb)) = []"
  by (auto simp: mailbox_destroy_def mset_queued mailbox_close_state is_tag_def)

section \<open>The delivery contract\<close>

interpretation mailbox_queue: two_lane_queue mailbox_pop queued mailbox_inv
    "\<lambda>m mb. snd (mailbox_push m mb)" mailbox_accepts is_call call_lane other_lane_of
proof unfold_locales
  fix q :: mailbox and x and xs and n :: nat
  assume inv: "mailbox_inv q"
  show "queued q = call_lane q @ other_lane_of q"
    by (simp add: queued_def)
  show "mailbox_inv (snd (mailbox_pop q))"
    by (rule mailbox_pop_inv [OF inv])
  show "fst (mailbox_pop q) = None \<and> queued (snd (mailbox_pop q)) = []" if "queued q = []"
    using mailbox_pop_none [OF inv that] by simp
  show "fst (mailbox_pop q) = Some x \<and> queued (snd (mailbox_pop q)) = xs" if "queued q = x # xs"
    using that mailbox_pop_call [OF inv] mailbox_pop_other [OF inv]
    by (cases "call_lane q") (auto simp: queued_def)
  assume acc: "mailbox_accepts (Suc n) q"
  then have open_q: "\<not> mailbox_closed q" and room: "Suc (length (queued q)) + n < 2 ^ 64"
    by (simp_all add: mailbox_accepts_def)
  show "call_lane (snd (mailbox_push x q)) = call_lane q @ (if is_call x then [x] else [])"
    "other_lane_of (snd (mailbox_push x q)) = other_lane_of q @ (if is_call x then [] else [x])"
    using mailbox_push_lanes [OF open_q] by auto
  show "mailbox_inv (snd (mailbox_push x q))"
    using mailbox_push_inv [OF inv] room by simp
  show "mailbox_accepts n (snd (mailbox_push x q))"
    using room open_q mailbox_push_open [OF open_q]
    by (auto simp: mailbox_accepts_def queued_def mailbox_push_lanes)
qed


section \<open>Properties\<close>

definition sample_user :: "nat \<Rightarrow> message" where
  "sample_user n = \<lparr>m_addr = n, sender = None, message_id = of_nat n, correlation_id = 0,
     body = User_body (TI 0) n\<rparr>"

text \<open>
  Fact. Round trip through an idle mailbox: any burst of messages pushed into an empty, open
  mailbox is drained completely, calls first and then everything else, each in push order; in
  particular the drain loop ends.
\<close>

theorem mailbox_burst_drains:
  assumes "mailbox_inv mb" "queued mb = []" "\<not> mailbox_closed mb" "length ms < 2 ^ 64"
  shows "\<exists>mb'. drain mailbox_pop (fold (\<lambda>m q. snd (mailbox_push m q)) ms mb) =
     Some (filter is_call ms @ filter (\<lambda>m. \<not> is_call m) ms, mb')"
  using mailbox_queue.push_all_then_drain [OF assms(1) _ assms(2), of ms] assms
  by (simp add: mailbox_accepts_def)

theorem mailbox_burst_drains_witness:
  "\<exists>mb'. drain mailbox_pop (fold (\<lambda>m q. snd (mailbox_push m q)) [sample_user 1, sample_user 2] mailbox_init) =
     Some ([sample_user 1, sample_user 2], mb')"
  using mailbox_burst_drains [of mailbox_init "[sample_user 1, sample_user 2]"]
  by (simp add: mailbox_init_def lane_defs mailbox_closed_def is_call_def cas_framework_kind_def
      sample_user_def mailbox_inv_def mailbox_caches_ok_def)

text \<open>
  Fact. Closing hands back every queued message exactly once and leaves an empty mailbox that
  rejects every push unchanged, with both counters at zero.
\<close>

theorem mailbox_close_complete:
  assumes "mailbox_inv mb"
  shows "mset (fst (mailbox_close mb)) = mset (queued mb)
    \<and> mailbox_size (snd (mailbox_close mb)) = 0
    \<and> mailbox_push m (snd (mailbox_close mb)) = (PR_closed, snd (mailbox_close mb))"
  using mailbox_close_counts [OF assms]
  by (simp add: mailbox_close_mset mailbox_size_def call_size_def other_size_def mailbox_push_closed
      mailbox_closed_def mailbox_close_state)

theorem mailbox_close_complete_witness:
  "mset (fst (mailbox_close (snd (mailbox_push (sample_user 1) mailbox_init)))) = {#sample_user 1#}"
proof -
  have "mailbox_inv (snd (mailbox_push (sample_user 1) mailbox_init))"
    by (rule mailbox_push_inv [OF mailbox_init_inv]) (simp add: mailbox_init_def lane_defs)
  from mailbox_close_complete [OF this] show ?thesis
    by (simp add: mailbox_push_def mailbox_init_def lane_defs count_fetch_add_def link_node_def
        is_call_def cas_framework_kind_def sample_user_def)
qed

text \<open>
  Property C38. What \<open>pop()\<close> does to a closed mailbox: it finds nothing, but its exchange of
  \<open>m_stack\<close> overwrites the closed tag with the empty one, so a later push is accepted again.
  \<open>close()\<close> promises that later pushes fail; the promise holds only if the owner never pops again.
\<close>

theorem mailbox_pop_reopens_closed:
  assumes "mailbox_inv mb" "mailbox_closed mb" "queued mb = []"
  shows "fst (mailbox_pop mb) = None \<and> \<not> mailbox_closed (snd (mailbox_pop mb))
    \<and> fst (mailbox_push m (snd (mailbox_pop mb))) = PR_success"
proof -
  have c: "m_calls mb = []" "m_others mb = []" "m_call_count mb = 0"
    using assms(1,3) by (auto simp: queued_def call_lane_def other_lane_of_def mailbox_inv_def)
  then have "mailbox_pop mb = take_node (snd (fetch_more mb))"
    by (simp add: mailbox_pop_alt pop_prepare_def)
  then have "mailbox_pop mb = (None, snd (fetch_more mb))"
    using assms(3) by (simp add: take_node_def dequeue_node_def fetch_more_caches queued_def)
  then show ?thesis
    by (simp add: mailbox_closed_def mailbox_push_result mailbox_blocked_def)
qed

theorem mailbox_pop_reopens_closed_witness:
  "mailbox_closed (snd (mailbox_close mailbox_init))
   \<and> fst (mailbox_push (sample_user 1) (snd (mailbox_pop (snd (mailbox_close mailbox_init))))) = PR_success"
  using mailbox_pop_reopens_closed [of "snd (mailbox_close mailbox_init)" "sample_user 1"]
    mailbox_close_inv [OF mailbox_init_inv]
  by (simp add: mailbox_closed_def mailbox_close_state lane_defs)

end
