(* ===== verification/Mailbox_Concurrent.thy ===== *)
theory Mailbox_Concurrent
  imports Mailbox "HOL-Library.Sublist"
begin

text \<open>
  The mailbox under concurrency: any number of producers inside \<open>push()\<close> and one consumer
  inside \<open>pop()\<close> or \<open>close()\<close>, interleaved at every access to a shared atomic. A producer goes
  through the fetch_add of its counter, the load of \<open>m_stack\<close>, and compare-exchanges that may
  fail (also spuriously) and reload; the compare-exchange compares pointers (\<open>head_ptr\<close>), so a
  reused address that makes two different chains look equal is in the model. The consumer's
  reads of \<open>m_call_count\<close>, its exchange of \<open>m_stack\<close> and its fetch_sub are separate steps.
  \<open>pushed\<close>, \<open>delivered\<close>, \<open>dropped\<close> and \<open>rejected\<close> record history: messages in the order of their
  successful compare-exchange, of their delivery, of the drops by \<open>close()\<close>, and the messages
  handed back because the mailbox was closed.

  Shown for every reachable state: each lane is delivered in push order, nothing is lost or
  duplicated, the counters never under-count, and a call published before a \<open>pop()\<close> starts is
  what that \<open>pop()\<close> returns ahead of ordinary messages.
\<close>

section \<open>Program counters and state\<close>

datatype ptr = Ptr_empty | Ptr_blocked | Ptr_closed | Ptr_node nat

fun head_ptr :: "stack_word \<Rightarrow> ptr" where
  "head_ptr Empty_tag = Ptr_empty"
| "head_ptr Blocked_tag = Ptr_blocked"
| "head_ptr Closed_tag = Ptr_closed"
| "head_ptr (Head m ms) = Ptr_node (m_addr m)"

datatype prod_pc =
    P_idle
  | P_counted message
  | P_loaded message ptr
  | P_closing message

text \<open>The flag of the consumer's counters records whether a call was queued when \<open>pop()\<close> began.\<close>

datatype cons_pc =
    C_idle
  | C_fetch bool
  | C_pop1 bool
  | C_take bool
  | C_dec bool message
  | C_drain "message list"

record mbx_state =
  box :: mailbox
  prods :: "prod_pc list"
  cons :: cons_pc
  pushed :: "message list"
  delivered :: "message list"
  dropped :: "message list"
  rejected :: "message list"

fun holds :: "(message \<Rightarrow> bool) \<Rightarrow> prod_pc \<Rightarrow> bool" where
  "holds P P_idle = False"
| "holds P (P_counted m) = P m"
| "holds P (P_loaded m h) = P m"
| "holds P (P_closing m) = P m"

definition inflight :: "(message \<Rightarrow> bool) \<Rightarrow> prod_pc list \<Rightarrow> nat" where
  "inflight P ps = length (filter (holds P) ps)"

fun pending :: "(message \<Rightarrow> bool) \<Rightarrow> cons_pc \<Rightarrow> nat" where
  "pending P (C_dec b m) = (if P m then 1 else 0)"
| "pending P (C_drain ms) = length (filter P ms)"
| "pending P _ = 0"

definition mbx_init :: "mbx_state \<Rightarrow> bool" where
  "mbx_init s \<longleftrightarrow> box s = mailbox_init \<and> (\<forall>p \<in> set (prods s). p = P_idle) \<and> length (prods s) < 2 ^ 64
     \<and> cons s = C_idle \<and> pushed s = [] \<and> delivered s = [] \<and> dropped s = [] \<and> rejected s = []"

section \<open>Steps\<close>

text \<open>
  \<open>push_begin\<close> has the one physical bound of the model: every live message occupies memory of
  its own, so fewer than \<open>2 ^ 64\<close> of them exist at once.
\<close>

inductive mailbox_step :: "mbx_state \<Rightarrow> mbx_state \<Rightarrow> bool" where
  push_begin: "i < length (prods s) \<Longrightarrow> prods s ! i = P_idle \<Longrightarrow>
    Suc (length (queued (box s)) + length (prods s) + pending (\<lambda>_. True) (cons s)) < 2 ^ 64 \<Longrightarrow>
    mailbox_step s (s\<lparr>box := count_fetch_add m (box s), prods := (prods s)[i := P_counted m]\<rparr>)"
| push_load: "i < length (prods s) \<Longrightarrow> prods s ! i = P_counted m \<Longrightarrow>
    mailbox_step s (s\<lparr>prods := (prods s)[i := P_loaded m (head_ptr (m_stack (box s)))]\<rparr>)"
| push_see_closed: "i < length (prods s) \<Longrightarrow> prods s ! i = P_loaded m Ptr_closed \<Longrightarrow>
    mailbox_step s (s\<lparr>prods := (prods s)[i := P_closing m]\<rparr>)"
| push_cas_ok: "i < length (prods s) \<Longrightarrow> prods s ! i = P_loaded m h \<Longrightarrow> h \<noteq> Ptr_closed \<Longrightarrow>
    head_ptr (m_stack (box s)) = h \<Longrightarrow>
    mailbox_step s (s\<lparr>box := (box s)\<lparr>m_stack := link_node m (m_stack (box s))\<rparr>,
      prods := (prods s)[i := P_idle], pushed := pushed s @ [m]\<rparr>)"
| push_cas_fail: "i < length (prods s) \<Longrightarrow> prods s ! i = P_loaded m h \<Longrightarrow> h \<noteq> Ptr_closed \<Longrightarrow>
    mailbox_step s (s\<lparr>prods := (prods s)[i := P_loaded m (head_ptr (m_stack (box s)))]\<rparr>)"
| push_reject: "i < length (prods s) \<Longrightarrow> prods s ! i = P_closing m \<Longrightarrow>
    mailbox_step s (s\<lparr>box := count_fetch_sub m (box s), prods := (prods s)[i := P_idle],
      rejected := rejected s @ [m]\<rparr>)"
| pop_start: "cons s = C_idle \<Longrightarrow> b = (call_lane (box s) \<noteq> []) \<Longrightarrow>
    mailbox_step s (s\<lparr>cons := (if m_calls (box s) = [] \<and> 0 < m_call_count (box s)
      then C_fetch b else C_pop1 b)\<rparr>)"
| pop_fetch: "cons s = C_fetch b \<Longrightarrow>
    mailbox_step s (s\<lparr>box := snd (fetch_more (box s)), cons := C_pop1 b\<rparr>)"
| pop_refill: "cons s = C_pop1 b \<Longrightarrow> m_calls (box s) = [] \<Longrightarrow> m_others (box s) = [] \<Longrightarrow>
    mailbox_step s (s\<lparr>box := snd (fetch_more (box s)),
      cons := (if fst (fetch_more (box s)) then C_take b else C_idle)\<rparr>)"
| pop_cached: "cons s = C_pop1 b \<Longrightarrow> m_calls (box s) \<noteq> [] \<or> m_others (box s) \<noteq> [] \<Longrightarrow>
    mailbox_step s (s\<lparr>cons := C_take b\<rparr>)"
| pop_serve: "cons s = C_take b \<Longrightarrow> dequeue_node (box s) = Some (n, mb) \<Longrightarrow>
    mailbox_step s (s\<lparr>box := mb, cons := C_dec b n, delivered := delivered s @ [n]\<rparr>)"
| pop_count: "cons s = C_dec b n \<Longrightarrow>
    mailbox_step s (s\<lparr>box := count_fetch_sub n (box s), cons := C_idle\<rparr>)"
| block_step: "cons s = C_idle \<Longrightarrow> mailbox_step s (s\<lparr>box := snd (try_block (box s))\<rparr>)"
| unblock_step: "mailbox_step s (s\<lparr>box := snd (try_unblock (box s))\<rparr>)"
| close_take: "cons s = C_idle \<Longrightarrow> take_head Closed_tag (box s) = (stack, mb) \<Longrightarrow>
    mailbox_step s (s\<lparr>box := mb\<lparr>m_calls := [], m_others := []\<rparr>,
      cons := C_drain (m_calls mb @ m_others mb @ stack)\<rparr>)"
| close_drop: "cons s = C_drain (n # ns) \<Longrightarrow>
    mailbox_step s (s\<lparr>box := count_fetch_sub n (box s), cons := C_drain ns,
      dropped := dropped s @ [n]\<rparr>)"

section \<open>The invariant\<close>

definition counts_inv :: "mbx_state \<Rightarrow> bool" where
  "counts_inv s \<longleftrightarrow>
     m_call_count (box s) =
       of_nat (length (call_lane (box s)) + inflight is_call (prods s) + pending is_call (cons s))
   \<and> m_other_count (box s) =
       of_nat (length (other_lane_of (box s)) + inflight (\<lambda>m. \<not> is_call m) (prods s)
         + pending (\<lambda>m. \<not> is_call m) (cons s))
   \<and> length (queued (box s)) + inflight (\<lambda>_. True) (prods s) + pending (\<lambda>_. True) (cons s) < 2 ^ 64"

fun history_ok :: "cons_pc \<Rightarrow> mbx_state \<Rightarrow> bool" where
  "history_ok (C_drain ns) s \<longleftrightarrow> m_stack (box s) = Closed_tag \<and> m_calls (box s) = [] \<and> m_others (box s) = []
     \<and> prefix (filter is_call (delivered s)) (filter is_call (pushed s))
     \<and> prefix (filter (\<lambda>m. \<not> is_call m) (delivered s)) (filter (\<lambda>m. \<not> is_call m) (pushed s))
     \<and> mset (pushed s) = mset (delivered s) + mset (dropped s) + mset ns"
| "history_ok _ s \<longleftrightarrow> m_stack (box s) \<noteq> Closed_tag \<and> dropped s = []
     \<and> filter is_call (pushed s) = filter is_call (delivered s) @ call_lane (box s)
     \<and> filter (\<lambda>m. \<not> is_call m) (pushed s) =
         filter (\<lambda>m. \<not> is_call m) (delivered s) @ other_lane_of (box s)"

fun priority_ok :: "cons_pc \<Rightarrow> mailbox \<Rightarrow> bool" where
  "priority_ok (C_fetch b) mb \<longleftrightarrow> (b \<longrightarrow> call_lane mb \<noteq> [])"
| "priority_ok (C_pop1 b) mb \<longleftrightarrow> (b \<longrightarrow> m_calls mb \<noteq> [])"
| "priority_ok (C_take b) mb \<longleftrightarrow> (b \<longrightarrow> m_calls mb \<noteq> []) \<and> (m_calls mb \<noteq> [] \<or> m_others mb \<noteq> [])"
| "priority_ok (C_dec b n) mb \<longleftrightarrow> (b \<longrightarrow> is_call n)"
| "priority_ok _ mb \<longleftrightarrow> True"

definition mbx_inv :: "mbx_state \<Rightarrow> bool" where
  "mbx_inv s \<longleftrightarrow> mailbox_caches_ok (box s) \<and> counts_inv s \<and> history_ok (cons s) s
     \<and> priority_ok (cons s) (box s)"

section \<open>Preservation\<close>

lemma inflight_update:
  assumes "i < length ps"
  shows "inflight P (ps[i := p]) + (if holds P (ps ! i) then 1 else 0) =
    inflight P ps + (if holds P p then 1 else 0)"
  using assms
proof (induction ps arbitrary: i)
  case Nil
  then show ?case by simp
next
  case (Cons q qs)
  then show ?case by (cases i) (fastforce simp: inflight_def)+
qed

lemma inflight_le: "inflight P ps \<le> length ps"
  by (simp add: inflight_def)


lemma inflight_same:
  "i < length ps \<Longrightarrow> holds P (ps ! i) = holds P p \<Longrightarrow> inflight P (ps[i := p]) = inflight P ps"
  using inflight_update [of i ps P p] by (simp split: if_splits)

lemma inflight_begin:
  "i < length ps \<Longrightarrow> ps ! i = P_idle \<Longrightarrow>
     inflight P (ps[i := p]) = inflight P ps + (if holds P p then 1 else 0)"
  using inflight_update [of i ps P p] by simp

lemma inflight_end:
  "i < length ps \<Longrightarrow>
     inflight P ps = inflight P (ps[i := P_idle]) + (if holds P (ps ! i) then 1 else 0)"
  using inflight_update [of i ps P P_idle] by simp

lemma inflight_idle: "\<forall>p \<in> set ps. p = P_idle \<Longrightarrow> inflight P ps = 0"
  by (auto simp: inflight_def filter_empty_conv)

lemma inflight_less:
  assumes "i < length ps" "ps ! i = P_idle"
  shows "inflight P ps < length ps"
proof -
  have "\<not> holds P (ps ! i)" "ps ! i \<in> set ps"
    using assms nth_mem [OF assms(1)] by simp_all
  then show ?thesis
    unfolding inflight_def by (rule length_filter_less [rotated])
qed

lemma holds_mono: "holds P p \<Longrightarrow> holds (\<lambda>_. True) p"
  by (cases p) auto

lemma inflight_mono: "inflight P ps \<le> inflight (\<lambda>_. True) ps"
  by (induction ps) (auto simp: inflight_def dest: holds_mono)

lemma link_lanes:
  "call_lane (mb\<lparr>m_stack := link_node m (m_stack mb)\<rparr>) = call_lane mb @ (if is_call m then [m] else [])"
  "other_lane_of (mb\<lparr>m_stack := link_node m (m_stack mb)\<rparr>) =
     other_lane_of mb @ (if is_call m then [] else [m])"
  by (auto simp: call_lane_def other_lane_of_def)

lemma dequeue_node_cases:
  assumes "dequeue_node mb = Some (n, mb')" "mailbox_caches_ok mb"
  obtains (call) "is_call n" "m_calls mb = n # m_calls mb'" "call_lane mb = n # call_lane mb'"
      "other_lane_of mb' = other_lane_of mb" "mailbox_caches_ok mb'" "m_stack mb' = m_stack mb"
      "m_call_count mb' = m_call_count mb" "m_other_count mb' = m_other_count mb"
  | (other) "\<not> is_call n" "m_calls mb = []" "call_lane mb' = call_lane mb"
      "other_lane_of mb = n # other_lane_of mb'" "mailbox_caches_ok mb'" "m_stack mb' = m_stack mb"
      "m_call_count mb' = m_call_count mb" "m_other_count mb' = m_other_count mb"
proof (cases "m_calls mb")
  case Nil
  with assms obtain ns where "m_others mb = n # ns" "mb' = mb\<lparr>m_others := ns\<rparr>"
    by (auto simp: dequeue_node_def split: list.splits)
  with Nil assms(2) show thesis
    by (intro other) (auto simp: mailbox_caches_ok_def lane_defs)
next
  case (Cons x xs)
  with assms have "x = n" "mb' = mb\<lparr>m_calls := xs\<rparr>"
    by (auto simp: dequeue_node_def)
  with Cons assms(2) show thesis
    by (intro call) (auto simp: mailbox_caches_ok_def lane_defs)
qed

lemma filter_lanes [simp]:
  assumes "mailbox_caches_ok mb"
  shows "filter is_call (call_lane mb) = call_lane mb"
    "filter (\<lambda>m. \<not> is_call m) (other_lane_of mb) = other_lane_of mb"
  using assms
  by (auto simp: mailbox_caches_ok_def lane_defs list_all_iff rev_filter intro!: filter_True)

lemma caches_ok_count [simp]:
  "mailbox_caches_ok (count_fetch_add m mb) = mailbox_caches_ok mb"
  "mailbox_caches_ok (count_fetch_sub m mb) = mailbox_caches_ok mb"
  "mailbox_caches_ok (snd (try_block mb)) = mailbox_caches_ok mb"
  "mailbox_caches_ok (snd (try_unblock mb)) = mailbox_caches_ok mb"
  "mailbox_caches_ok (mb\<lparr>m_stack := w\<rparr>) = mailbox_caches_ok mb"
  "mailbox_caches_ok (mb\<lparr>m_calls := [], m_others := []\<rparr>)"
  by (simp_all add: mailbox_caches_ok_def try_block_def try_unblock_def)

lemma caches_ok_fetch_more: "mailbox_caches_ok mb \<Longrightarrow> mailbox_caches_ok (snd (fetch_more mb))"
  by (auto simp: mailbox_caches_ok_def fetch_more_caches lane_defs list_all_iff)

lemma mailbox_step_caches_ok:
  assumes "mailbox_step s t" "mailbox_caches_ok (box s)"
  shows "mailbox_caches_ok (box t)"
  using assms
proof cases
  case (pop_serve b n mb)
  then show ?thesis
    using assms(2) by (auto elim: dequeue_node_cases)
qed (auto simp: caches_ok_fetch_more)

lemma mailbox_step_counts:
  assumes st: "mailbox_step s t" and inv: "counts_inv s" and ok: "mailbox_caches_ok (box s)"
  shows "counts_inv t"
  using st
proof cases
  case (push_begin i m)
  then show ?thesis
    using inv inflight_less [of i "prods s" "\<lambda>_. True"]
    by (auto simp: counts_inv_def inflight_begin count_values queued_def)
next
  case (push_load i m)
  then show ?thesis
    using inv by (auto simp: counts_inv_def inflight_same)
next
  case (push_see_closed i m)
  then show ?thesis
    using inv by (auto simp: counts_inv_def inflight_same)
next
  case (push_cas_ok i m h)
  note e = inflight_end [OF push_cas_ok(2)]
  show ?thesis
    using inv push_cas_ok e [of is_call] e [of "\<lambda>m. \<not> is_call m"] e [of "\<lambda>_. True"]
    by (auto simp: counts_inv_def link_lanes queued_def)
next
  case (push_cas_fail i m h)
  then show ?thesis
    using inv by (auto simp: counts_inv_def inflight_same)
next
  case (push_reject i m)
  note e = inflight_end [OF push_reject(2)]
  show ?thesis
    using inv push_reject e [of is_call] e [of "\<lambda>m. \<not> is_call m"] e [of "\<lambda>_. True"]
    by (auto simp: counts_inv_def count_values queued_def)
next
  case (pop_serve b n mb)
  from pop_serve(3) ok show ?thesis
    by (rule dequeue_node_cases) (use inv pop_serve in \<open>auto simp: counts_inv_def queued_def\<close>)
next
  case (close_take stack mb)
  then show ?thesis
    using inv ok sum_length_filter_compl [of is_call "chain (m_stack (box s))"]
    by (auto simp: counts_inv_def take_head_def lane_defs mailbox_caches_ok_def list_all_iff
        Let_def filter_empty_conv split: if_splits)
qed (use inv in \<open>auto simp: counts_inv_def count_values queued_def fetch_more_lanes\<close>)


lemma history_open:
  assumes "history_ok c s" "\<And>ns. c \<noteq> C_drain ns"
  shows "m_stack (box s) \<noteq> Closed_tag" "dropped s = []"
    "filter is_call (pushed s) = filter is_call (delivered s) @ call_lane (box s)"
    "filter (\<lambda>m. \<not> is_call m) (pushed s) =
       filter (\<lambda>m. \<not> is_call m) (delivered s) @ other_lane_of (box s)"
  using assms by (cases c; auto)+

lemma history_openI:
  assumes "m_stack (box s) \<noteq> Closed_tag" "dropped s = []"
    "filter is_call (pushed s) = filter is_call (delivered s) @ call_lane (box s)"
    "filter (\<lambda>m. \<not> is_call m) (pushed s) =
       filter (\<lambda>m. \<not> is_call m) (delivered s) @ other_lane_of (box s)"
    "\<And>ns. c \<noteq> C_drain ns"
  shows "history_ok c s"
  using assms by (cases c) auto

lemma history_ok_cong:
  assumes "history_ok c s" "pushed t = pushed s" "delivered t = delivered s" "dropped t = dropped s"
    "m_stack (box t) = m_stack (box s)" "m_calls (box t) = m_calls (box s)"
    "m_others (box t) = m_others (box s)"
  shows "history_ok c t"
  using assms by (cases c) (auto simp: lane_defs)

lemma mset_filter_split: "mset (filter P xs) + mset (filter (\<lambda>x. \<not> P x) xs) = mset xs"
  by (metis mset_filter multiset_partition)

lemma mailbox_step_history:
  assumes st: "mailbox_step s t" and h: "history_ok (cons s) s" and ok: "mailbox_caches_ok (box s)"
  shows "history_ok (cons t) t"
  using st
proof cases
  case (push_cas_ok i m p)
  then have "\<And>ns. cons s \<noteq> C_drain ns"
    using h by auto
  then show ?thesis
    using push_cas_ok history_open [OF h] by (intro history_openI) (auto simp: link_lanes)
next
  case (pop_fetch b)
  then show ?thesis
    using history_open [OF h] by (intro history_openI) (auto simp: fetch_more_lanes)
next
  case (pop_refill b)
  then show ?thesis
    using history_open [OF h] by (intro history_openI) (auto simp: fetch_more_lanes)
next
  case (pop_serve b n mb)
  from pop_serve(3) ok show ?thesis
    by (rule dequeue_node_cases)
      (use pop_serve history_open [OF h] in \<open>auto intro!: history_openI\<close>)
next
  case block_step
  then show ?thesis
    using history_open [OF h] by (intro history_openI) (auto simp: try_block_def lane_defs)
next
  case unblock_step
  then show ?thesis
    using h by (cases "cons s") (auto simp: try_unblock_def lane_defs)
next
  case (close_take stack mb)
  from close_take have idle: "cons s = C_idle" by simp
  note o = history_open [OF h, unfolded idle, simplified]
  from close_take(3) o(1) have t: "stack = chain (m_stack (box s))" "mb = (box s)\<lparr>m_stack := Closed_tag\<rparr>"
    by (auto simp: take_head_def Let_def split: if_splits)
  have "mset (pushed s) = mset (delivered s) + mset (queued (box s))"
    using o(3,4) mset_filter_split [of is_call "pushed s"] mset_filter_split [of is_call "delivered s"]
    by (simp add: queued_def ac_simps)
  then show ?thesis
    using close_take t o by (auto simp: mset_queued)
next
  case (close_drop n ns)
  then show ?thesis
    using h by auto
next
  case (pop_start b)
  then show ?thesis
    using history_open [OF h] by (intro history_openI) auto
next
  case (pop_cached b)
  then show ?thesis
    using history_open [OF h] by (intro history_openI) auto
next
  case (pop_count b n)
  then show ?thesis
    using history_open [OF h] by (intro history_openI) auto
qed (use h in \<open>force intro: history_ok_cong [OF h]\<close>)+

lemma mailbox_step_priority:
  assumes st: "mailbox_step s t" and p: "priority_ok (cons s) (box s)" and c: "counts_inv s"
    and ok: "mailbox_caches_ok (box s)"
  shows "priority_ok (cons t) (box t)"
  using st
proof cases
  case (push_cas_ok i m h)
  then show ?thesis
    using p by (cases "cons s") (auto simp: link_lanes)
next
  case (pop_start b)
  have "0 < m_call_count (box s)" if "call_lane (box s) \<noteq> []"
  proof -
    let ?n = "length (call_lane (box s)) + inflight is_call (prods s) + pending is_call (cons s)"
    have "inflight is_call (prods s) \<le> inflight (\<lambda>_. True) (prods s)"
      by (rule inflight_mono)
    moreover have "pending is_call (cons s) \<le> pending (\<lambda>_. True) (cons s)"
      by (cases "cons s") auto
    ultimately have "?n < 2 ^ 64"
      using c by (simp add: counts_inv_def queued_def)
    then show ?thesis
      using c that by (simp add: counts_inv_def of_nat_length_pos del: of_nat_add)
  qed
  with pop_start show ?thesis
    by (auto simp: call_lane_def)
next
  case (pop_fetch b)
  then show ?thesis
    using p by (auto simp: fetch_more_caches)
next
  case (pop_refill b)
  then show ?thesis
    using p fetch_more_result [of "box s"]
    by (cases "chain (m_stack (box s))") (auto simp: fetch_more_caches lane_defs)
next
  case (pop_cached b)
  then show ?thesis
    using p by auto
next
  case (pop_serve b n mb)
  from pop_serve(3) ok show ?thesis
    by (rule dequeue_node_cases) (use p pop_serve in auto)
qed (use p in \<open>cases "cons s"; auto\<close>)+


interpretation mailbox_protocol: inductive_invariant mbx_init mailbox_step mbx_inv
proof unfold_locales
  show "mbx_inv s" if "mbx_init s" for s
    using that
    by (auto simp: mbx_inv_def mbx_init_def mailbox_init_def counts_inv_def inflight_idle lane_defs
        mailbox_caches_ok_def)
  show "mbx_inv t" if "mbx_inv s" "mailbox_step s t" for s t
    using that mailbox_step_caches_ok mailbox_step_counts mailbox_step_history mailbox_step_priority
    unfolding mbx_inv_def by blast
qed

section \<open>Properties\<close>

fun being_dropped :: "cons_pc \<Rightarrow> message list" where
  "being_dropped (C_drain ns) = ns"
| "being_dropped _ = []"

lemma history_accounts:
  assumes "history_ok (cons s) s" "mailbox_caches_ok (box s)"
  shows "prefix (filter is_call (delivered s)) (filter is_call (pushed s))"
    "prefix (filter (\<lambda>m. \<not> is_call m) (delivered s)) (filter (\<lambda>m. \<not> is_call m) (pushed s))"
    "mset (pushed s) = mset (delivered s) + mset (queued (box s)) + mset (dropped s)
       + mset (being_dropped (cons s))"
proof -
  have "mset (pushed s) = mset (delivered s) + mset (queued (box s))" if "\<And>ns. cons s \<noteq> C_drain ns"
    using history_open(3,4) [OF assms(1) that] mset_filter_split [of is_call "pushed s"]
      mset_filter_split [of is_call "delivered s"] by (simp add: queued_def ac_simps)
  then show "prefix (filter is_call (delivered s)) (filter is_call (pushed s))"
    "prefix (filter (\<lambda>m. \<not> is_call m) (delivered s)) (filter (\<lambda>m. \<not> is_call m) (pushed s))"
    "mset (pushed s) = mset (delivered s) + mset (queued (box s)) + mset (dropped s)
       + mset (being_dropped (cons s))"
    using assms(1) by (cases "cons s"; auto simp: lane_defs)+
qed

text \<open>
  Property C6. Delivery order and exactly-once delivery under concurrency (INVARIANT 3): in every
  state the producers and the consumer can reach, the calls delivered so far are a prefix of the
  calls in the order their pushes took effect, the ordinary messages likewise, and every pushed
  message is accounted for exactly once: delivered, still queued, or dropped by \<open>close()\<close>.
\<close>

theorem mailbox_delivery_order:
  assumes "reachable mbx_init mailbox_step s"
  shows "prefix (filter is_call (delivered s)) (filter is_call (pushed s))
    \<and> prefix (filter (\<lambda>m. \<not> is_call m) (delivered s)) (filter (\<lambda>m. \<not> is_call m) (pushed s))
    \<and> mset (pushed s) = mset (delivered s) + mset (queued (box s)) + mset (dropped s)
        + mset (being_dropped (cons s))"
  using mailbox_protocol.reachable_inv [OF assms] history_accounts [of s]
  by (simp add: mbx_inv_def)

text \<open>
  Fact. A call is served ahead of the backlog: if any call was queued when \<open>pop()\<close> started,
  the message that \<open>pop()\<close> takes is a call, however many ordinary messages were already cached and
  whatever producers do meanwhile.
\<close>

theorem mailbox_call_overtakes:
  assumes "reachable mbx_init mailbox_step s" "cons s = C_dec True n"
  shows "is_call n"
  using mailbox_protocol.reachable_inv [OF assms(1)] assms(2) by (simp add: mbx_inv_def)

text \<open>
  Property C36. The counters are exact and never wrap below zero: each equals the queued messages of
  its lane plus those a producer has counted but not published plus those the consumer has taken
  but not yet counted down.
\<close>

theorem mailbox_counts_exact:
  assumes "reachable mbx_init mailbox_step s"
  shows "unat (m_call_count (box s)) =
      length (call_lane (box s)) + inflight is_call (prods s) + pending is_call (cons s)
    \<and> unat (m_other_count (box s)) =
      length (other_lane_of (box s)) + inflight (\<lambda>m. \<not> is_call m) (prods s)
        + pending (\<lambda>m. \<not> is_call m) (cons s)"
proof -
  have c: "counts_inv s"
    using mailbox_protocol.reachable_inv [OF assms] by (simp add: mbx_inv_def)
  have room: "n + inflight P (prods s) + pending P (cons s) < 2 ^ 64"
    if "n \<le> length (queued (box s))" for n P
  proof -
    have "pending P (cons s) \<le> pending (\<lambda>_. True) (cons s)"
      by (cases "cons s") auto
    moreover have "length (queued (box s)) + inflight (\<lambda>_. True) (prods s)
        + pending (\<lambda>_. True) (cons s) < 2 ^ 64"
      using c by (simp add: counts_inv_def)
    ultimately show ?thesis
      using that inflight_mono [of P "prods s"] by linarith
  qed
  have "length (call_lane (box s)) \<le> length (queued (box s))"
    "length (other_lane_of (box s)) \<le> length (queued (box s))"
    by (simp_all add: queued_def)
  with room c show ?thesis
    unfolding counts_inv_def by (metis unat_of_nat_64)
qed

text \<open>
  Fact. Closing is final: once \<open>close()\<close> has taken the stack, no later step of any thread makes
  a push succeed, the mailbox holds no message, and \<open>m_stack\<close> keeps the closed tag.
\<close>

theorem mailbox_close_final:
  assumes "reachable mbx_init mailbox_step s" "cons s = C_drain ns" "mailbox_step s t"
  shows "pushed t = pushed s \<and> mailbox_closed (box t) \<and> queued (box t) = []"
proof -
  have h: "history_ok (cons s) s" and ok: "mailbox_caches_ok (box s)"
    using mailbox_protocol.reachable_inv [OF assms(1)] by (auto simp: mbx_inv_def)
  obtain ms where c: "cons t = C_drain ms"
    using assms(3,2) by cases auto
  have "history_ok (cons t) t"
    by (rule mailbox_step_history [OF assms(3) h ok])
  moreover have "pushed t = pushed s"
    using assms(3) h assms(2) by cases auto
  ultimately show ?thesis
    using c by (simp add: mailbox_closed_def lane_defs)
qed


section \<open>Operations run alone\<close>

lemma push_alone:
  assumes i: "i < length (prods s)" "prods s ! i = P_idle"
    and room: "Suc (length (queued (box s)) + length (prods s) + pending (\<lambda>_. True) (cons s)) < 2 ^ 64"
    and push: "mailbox_push m (box s) = (r, mb)"
  shows "mailbox_step\<^sup>*\<^sup>* s (if r = PR_closed then s\<lparr>box := mb, rejected := rejected s @ [m]\<rparr>
    else s\<lparr>box := mb, pushed := pushed s @ [m]\<rparr>)"
proof -
  let ?h = "head_ptr (m_stack (box s))" and ?b = "count_fetch_add m (box s)"
  let ?s1 = "s\<lparr>box := ?b, prods := (prods s)[i := P_counted m]\<rparr>"
  let ?s2 = "s\<lparr>box := ?b, prods := (prods s)[i := P_loaded m ?h]\<rparr>"
  have restored: "(prods s)[i := P_idle] = prods s" using i by (metis list_update_id)
  have b1: "mailbox_step s ?s1" by (rule push_begin [OF i room])
  have b2: "mailbox_step ?s1 ?s2" using push_load [of i ?s1 m] i(1) by simp
  show ?thesis
  proof (cases "m_stack (box s) = Closed_tag")
    case True
    then have rm: "r = PR_closed" "mb = box s" using push by (auto simp: mailbox_push_def Let_def)
    let ?s3 = "s\<lparr>box := ?b, prods := (prods s)[i := P_closing m]\<rparr>"
    have b3: "mailbox_step ?s2 ?s3" using push_see_closed [of i ?s2 m] i(1) True by simp
    have b4: "mailbox_step ?s3 (s\<lparr>box := mb, rejected := rejected s @ [m]\<rparr>)"
      using push_reject [of i ?s3 m] i(1) rm restored by simp
    show ?thesis using b1 b2 b3 b4 rm(1) by (auto intro: converse_rtranclp_into_rtranclp)
  next
    case False
    then have rm: "r \<noteq> PR_closed" "mb = ?b\<lparr>m_stack := link_node m (m_stack (box s))\<rparr>"
      using push by (auto simp: mailbox_push_def Let_def split: if_splits)
    have "?h \<noteq> Ptr_closed" using False by (cases "m_stack (box s)") auto
    then have b3: "mailbox_step ?s2 (s\<lparr>box := mb, pushed := pushed s @ [m]\<rparr>)"
      using push_cas_ok [of i ?s2 m ?h] i(1) rm(2) restored by simp
    show ?thesis using b1 b2 b3 rm(1) by (auto intro: converse_rtranclp_into_rtranclp)
  qed
qed

lemma take_alone:
  assumes "cons s = C_take b" "take_node (box s) = (r, mb)" "r \<noteq> None"
  shows "mailbox_step\<^sup>*\<^sup>* s (s\<lparr>box := mb, cons := C_idle, delivered := delivered s @ [the r]\<rparr>)"
proof -
  obtain n mb' where d: "dequeue_node (box s) = Some (n, mb')" "r = Some n" "mb = count_fetch_sub n mb'"
    using assms(2,3) by (auto simp: take_node_def split: option.splits)
  let ?t = "s\<lparr>box := mb', cons := C_dec b n, delivered := delivered s @ [n]\<rparr>"
  have "mailbox_step s ?t" by (rule pop_serve [OF assms(1) d(1)])
  moreover have "mailbox_step ?t (s\<lparr>box := mb, cons := C_idle, delivered := delivered s @ [n]\<rparr>)"
    using pop_count [of ?t b n] by (cases s) (simp add: d(3))
  ultimately show ?thesis using d(2) by (auto intro: converse_rtranclp_into_rtranclp)
qed

lemma take_node_some: "m_calls mb \<noteq> [] \<or> m_others mb \<noteq> [] \<Longrightarrow> fst (take_node mb) \<noteq> None"
  by (auto simp: take_node_def dequeue_node_def split: list.split)

lemma fetched_nonempty: "fst (fetch_more mb) \<Longrightarrow> m_calls (snd (fetch_more mb)) \<noteq> [] \<or> m_others (snd (fetch_more mb)) \<noteq> []"
  unfolding fetch_more_result by (cases "chain (m_stack mb)") (auto simp: fetch_more_caches lane_defs)

lemma pop_body_alone:
  assumes c: "cons s = C_pop1 b"
    and pop: "(if m_calls (box s) = [] \<and> m_others (box s) = []
       then (case fetch_more (box s) of (False, mb2) \<Rightarrow> (None, mb2) | (True, mb2) \<Rightarrow> take_node mb2) else take_node (box s)) = (r, mb)"
  shows "mailbox_step\<^sup>*\<^sup>* s (s\<lparr>box := mb, cons := C_idle, delivered := delivered s @ (case r of None \<Rightarrow> [] | Some n \<Rightarrow> [n])\<rparr>)"
proof (cases "m_calls (box s) = [] \<and> m_others (box s) = []")
  case True
  let ?f = "fetch_more (box s)"
  have step: "mailbox_step s (s\<lparr>box := snd ?f, cons := (if fst ?f then C_take b else C_idle)\<rparr>)"
    using pop_refill [OF c] True by simp
  show ?thesis
  proof (cases "fst ?f")
    case False
    with pop True have "r = None" "mb = snd ?f" by (auto simp: case_prod_beta split: bool.splits prod.splits)
    with step False show ?thesis by (auto simp: r_into_rtranclp)
  next
    case more: True
    let ?t = "s\<lparr>box := snd ?f, cons := C_take b\<rparr>"
    have t: "take_node (box ?t) = (r, mb)" using pop True more by (auto split: bool.splits prod.splits)
    have some: "r \<noteq> None" using take_node_some [OF fetched_nonempty [OF more]] t by simp
    then have "mailbox_step\<^sup>*\<^sup>* ?t (s\<lparr>box := mb, cons := C_idle, delivered := delivered s @ [the r]\<rparr>)"
      using take_alone [of ?t b r mb] t by simp
    with step more some show ?thesis by (auto intro: converse_rtranclp_into_rtranclp)
  qed
next
  case False
  let ?t = "s\<lparr>cons := C_take b\<rparr>"
  have step: "mailbox_step s ?t" using pop_cached [OF c] False by simp
  have t: "take_node (box ?t) = (r, mb)" using pop False by auto
  have some: "r \<noteq> None" using take_node_some [of "box s"] False t by simp
  then have "mailbox_step\<^sup>*\<^sup>* ?t (s\<lparr>box := mb, cons := C_idle, delivered := delivered s @ [the r]\<rparr>)"
    using take_alone [of ?t b r mb] t by simp
  with step some show ?thesis by (auto intro: converse_rtranclp_into_rtranclp)
qed

lemma pop_alone:
  assumes c: "cons s = C_idle" and pop: "mailbox_pop (box s) = (r, mb)"
  shows "mailbox_step\<^sup>*\<^sup>* s (s\<lparr>box := mb, delivered := delivered s @ (case r of None \<Rightarrow> [] | Some n \<Rightarrow> [n])\<rparr>)"
proof -
  define b where "b = (call_lane (box s) \<noteq> [])"
  define fetch where "fetch \<longleftrightarrow> m_calls (box s) = [] \<and> 0 < m_call_count (box s)"
  define mb1 where "mb1 = (if fetch then snd (fetch_more (box s)) else box s)"
  let ?t = "s\<lparr>box := mb1, cons := C_pop1 b\<rparr>"
  have "mailbox_step s (s\<lparr>cons := (if fetch then C_fetch b else C_pop1 b)\<rparr>)"
    unfolding fetch_def by (rule pop_start [OF c b_def])
  moreover have "mailbox_step (s\<lparr>cons := C_fetch b\<rparr>) (s\<lparr>box := snd (fetch_more (box s)), cons := C_pop1 b\<rparr>)"
    using pop_fetch [of "s\<lparr>cons := C_fetch b\<rparr>" b] by simp
  ultimately have start: "mailbox_step\<^sup>*\<^sup>* s ?t"
    by (cases fetch) (auto simp: mb1_def intro: converse_rtranclp_into_rtranclp)
  have "(if m_calls mb1 = [] \<and> m_others mb1 = []
     then (case fetch_more mb1 of (False, mb2) \<Rightarrow> (None, mb2) | (True, mb2) \<Rightarrow> take_node mb2) else take_node mb1) = (r, mb)"
    using pop by (simp only: mailbox_pop_def Let_def mb1_def fetch_def)
  then have "mailbox_step\<^sup>*\<^sup>* ?t (?t\<lparr>box := mb, cons := C_idle, delivered := delivered ?t @ (case r of None \<Rightarrow> [] | Some n \<Rightarrow> [n])\<rparr>)"
    by (intro pop_body_alone [of ?t b]) (auto split: if_splits)
  moreover have "?t\<lparr>box := mb, cons := C_idle, delivered := delivered ?t @ (case r of None \<Rightarrow> [] | Some n \<Rightarrow> [n])\<rparr>
      = s\<lparr>box := mb, delivered := delivered s @ (case r of None \<Rightarrow> [] | Some n \<Rightarrow> [n])\<rparr>"
    using c by simp
  ultimately show ?thesis using start by simp
qed

lemma drop_alone:
  "mailbox_step\<^sup>*\<^sup>* (s\<lparr>cons := C_drain ns\<rparr>) (s\<lparr>box := fold count_fetch_sub ns (box s), cons := C_drain [], dropped := dropped s @ ns\<rparr>)"
proof (induction ns arbitrary: s)
  case (Cons n ns)
  let ?t = "s\<lparr>box := count_fetch_sub n (box s), dropped := dropped s @ [n]\<rparr>"
  have "mailbox_step (s\<lparr>cons := C_drain (n # ns)\<rparr>) (?t\<lparr>cons := C_drain ns\<rparr>)"
    using close_drop [of "s\<lparr>cons := C_drain (n # ns)\<rparr>" n ns] by (cases s) simp
  with Cons.IH [of ?t] show ?case by (auto intro: converse_rtranclp_into_rtranclp)
qed (simp add: rtranclp.rtrancl_refl)

lemma count_sub_cache:
  "count_fetch_sub n (mb\<lparr>m_calls := xs\<rparr>) = (count_fetch_sub n mb)\<lparr>m_calls := xs\<rparr>"
  "count_fetch_sub n (mb\<lparr>m_others := xs\<rparr>) = (count_fetch_sub n mb)\<lparr>m_others := xs\<rparr>"
  by (cases mb, simp add: count_fetch_sub_def)+

lemma count_sub_caches:
  "fold count_fetch_sub ns (mb\<lparr>m_calls := xs\<rparr>) = (fold count_fetch_sub ns mb)\<lparr>m_calls := xs\<rparr>"
  "fold count_fetch_sub ns (mb\<lparr>m_others := xs\<rparr>) = (fold count_fetch_sub ns mb)\<lparr>m_others := xs\<rparr>"
  by (induction ns arbitrary: mb) (simp_all add: count_sub_cache)

lemma close_alone:
  assumes c: "cons s = C_idle" and close: "mailbox_close (box s) = (gone, mb)"
  shows "mailbox_step\<^sup>*\<^sup>* s (s\<lparr>box := mb, cons := C_drain [], dropped := dropped s @ gone\<rparr>)"
proof -
  obtain stack mb1 where t: "take_head Closed_tag (box s) = (stack, mb1)" by fastforce
  let ?t = "s\<lparr>box := mb1\<lparr>m_calls := [], m_others := []\<rparr>\<rparr>"
  have "mailbox_step s (?t\<lparr>cons := C_drain (m_calls mb1 @ m_others mb1 @ stack)\<rparr>)"
    using close_take [OF c t] by simp
  moreover have "mailbox_close (box s) = (m_calls mb1 @ m_others mb1 @ stack,
      fold count_fetch_sub (m_calls mb1 @ m_others mb1 @ stack) (mb1\<lparr>m_calls := [], m_others := []\<rparr>))"
    by (simp add: mailbox_close_def t Let_def count_sub_caches)
  then have "gone = m_calls mb1 @ m_others mb1 @ stack"
    "mb = fold count_fetch_sub (m_calls mb1 @ m_others mb1 @ stack) (mb1\<lparr>m_calls := [], m_others := []\<rparr>)"
    using close by (simp_all only: prod.inject)
  ultimately show ?thesis
    using drop_alone [where s = ?t and ns = "m_calls mb1 @ m_others mb1 @ stack"] by (auto intro: converse_rtranclp_into_rtranclp)
qed


section \<open>A concrete run\<close>

text \<open>One producer pushes a call, and the consumer pops it or closes the mailbox.\<close>

definition sample_call :: message where
  "sample_call = \<lparr>m_addr = 7, sender = None, message_id = 1, correlation_id = 0,
     body = Call_request \<lparr>op_type = TI 1, ret_type = TI 2, args_type = TI 3, call_args = 4,
       promise_id = 5\<rparr>\<rparr>"

definition sample_start :: mbx_state where
  "sample_start = \<lparr>box = mailbox_init, prods = [P_idle], cons = C_idle, pushed = [],
     delivered = [], dropped = [], rejected = []\<rparr>"

definition sample_pushed :: mbx_state where
  "sample_pushed = sample_start\<lparr>box := mailbox_init\<lparr>m_stack := Head sample_call [], m_call_count := 1\<rparr>,
     pushed := [sample_call]\<rparr>"

definition sample_served :: mbx_state where
  "sample_served = sample_pushed\<lparr>box := mailbox_init\<lparr>m_call_count := 1\<rparr>,
     cons := C_dec True sample_call, delivered := [sample_call]\<rparr>"

definition sample_closing :: mbx_state where
  "sample_closing = sample_pushed\<lparr>box := mailbox_init\<lparr>m_stack := Closed_tag, m_call_count := 1\<rparr>,
     cons := C_drain [sample_call]\<rparr>"

lemmas sample_defs = sample_start_def sample_pushed_def sample_served_def sample_closing_def

lemma sample_is_call [simp]: "is_call sample_call"
  by (simp add: is_call_def cas_framework_kind_def sample_call_def)

lemma sample_pushed_reachable: "reachable mbx_init mailbox_step sample_pushed"
proof -
  let ?mb = "mailbox_init\<lparr>m_call_count := 1\<rparr>"
  have "reachable mbx_init mailbox_step sample_start"
    by (rule reachable_init) (simp add: mbx_init_def sample_start_def)
  then have "reachable mbx_init mailbox_step
      (sample_start\<lparr>box := ?mb, prods := [P_counted sample_call]\<rparr>)"
    by (rule reachable_step)
      (use push_begin [of 0 sample_start sample_call] in
        \<open>simp add: sample_start_def mailbox_init_def count_fetch_add_def lane_defs\<close>)
  then have "reachable mbx_init mailbox_step
      (sample_start\<lparr>box := ?mb, prods := [P_loaded sample_call Ptr_empty]\<rparr>)"
    by (rule reachable_step)
      (use push_load [of 0 "sample_start\<lparr>box := ?mb, prods := [P_counted sample_call]\<rparr>"] in
        \<open>simp add: sample_start_def mailbox_init_def\<close>)
  then show ?thesis
    by (rule reachable_step)
      (use push_cas_ok [of 0 "sample_start\<lparr>box := ?mb, prods := [P_loaded sample_call Ptr_empty]\<rparr>"] in
        \<open>simp add: sample_defs mailbox_init_def link_node_def\<close>)
qed

lemma sample_served_reachable: "reachable mbx_init mailbox_step sample_served"
proof -
  let ?mb = "mailbox_init\<lparr>m_calls := [sample_call], m_call_count := 1\<rparr>"
  note sample_pushed_reachable
  then have "reachable mbx_init mailbox_step (sample_pushed\<lparr>cons := C_fetch True\<rparr>)"
    by (rule reachable_step)
      (use pop_start [of sample_pushed True] in
        \<open>simp add: sample_defs mailbox_init_def call_lane_def\<close>)
  then have "reachable mbx_init mailbox_step (sample_pushed\<lparr>box := ?mb, cons := C_pop1 True\<rparr>)"
    by (rule reachable_step)
      (use pop_fetch [of "sample_pushed\<lparr>cons := C_fetch True\<rparr>"] in
        \<open>simp add: sample_defs mailbox_init_def fetch_more_def take_head_def\<close>)
  then have "reachable mbx_init mailbox_step (sample_pushed\<lparr>box := ?mb, cons := C_take True\<rparr>)"
    by (rule reachable_step)
      (use pop_cached [of "sample_pushed\<lparr>box := ?mb, cons := C_pop1 True\<rparr>"] in
        \<open>simp add: sample_defs mailbox_init_def\<close>)
  then show ?thesis
    by (rule reachable_step)
      (use pop_serve [of "sample_pushed\<lparr>box := ?mb, cons := C_take True\<rparr>"] in
        \<open>simp add: sample_defs mailbox_init_def dequeue_node_def\<close>)
qed

lemma sample_closing_reachable: "reachable mbx_init mailbox_step sample_closing"
  by (rule reachable_step [OF sample_pushed_reachable])
    (use close_take [of sample_pushed] in \<open>simp add: sample_defs mailbox_init_def take_head_def\<close>)

theorem mailbox_delivery_order_witness:
  "reachable mbx_init mailbox_step sample_served
   \<and> prefix (filter is_call (delivered sample_served)) (filter is_call (pushed sample_served))
   \<and> mset (pushed sample_served) = {#sample_call#}"
  using mailbox_delivery_order [OF sample_served_reachable] sample_served_reachable
  by (simp add: sample_defs)

theorem mailbox_call_overtakes_witness:
  "reachable mbx_init mailbox_step sample_served \<and> cons sample_served = C_dec True sample_call
   \<and> is_call sample_call"
  using mailbox_call_overtakes [OF sample_served_reachable, of sample_call] sample_served_reachable
  by (simp add: sample_defs)

theorem mailbox_counts_exact_witness:
  "reachable mbx_init mailbox_step sample_served \<and> unat (m_call_count (box sample_served)) = 1"
  using mailbox_counts_exact [OF sample_served_reachable] sample_served_reachable
  by (simp add: sample_defs)

theorem mailbox_close_final_witness:
  "\<exists>t. mailbox_step sample_closing t \<and> pushed t = [sample_call] \<and> mailbox_closed (box t)"
proof -
  obtain t where t: "mailbox_step sample_closing t"
    using close_drop [of sample_closing sample_call "[]"] by (auto simp: sample_closing_def)
  then show ?thesis
    using mailbox_close_final [OF sample_closing_reachable _ t, of "[sample_call]"]
    by (auto simp: sample_defs)
qed


end
