(* ===== verification/Message_Pool.thy ===== *)
theory Message_Pool
  imports Prelude
begin

unbundle bit_operations_syntax

text \<open>
  The message pool (include/cas/message_pool.h, source/message_pool.cpp) and the pooled
  \<open>operator new\<close> and \<open>operator delete\<close> of \<open>message_base\<close> (include/cas/message_base.h).

  \<^item> Blocks are addresses; the heap lists the blocks obtained from \<open>::operator new\<close> and not yet
    deleted, with their sizes. Where the next block lies is a parameter (\<open>pe_new\<close>).
  \<^item> The shared free list of a size class is a \<open>moodycamel::ConcurrentQueue\<close>, vendored code: it is
    a value of the type parameter \<open>'q\<close>, and its two operations are parameters (\<open>pe_enqueue\<close>,
    \<open>pe_dequeue\<close>). What the pool relies on is \<open>pool_env_ok\<close>: a bulk enqueue adds exactly the given
    blocks or fails and adds none, a bulk dequeue removes what it returns and returns at most the
    number asked for. In which order blocks come back is left open.
  \<^item> A thread's cache holds the first \<open>size\<close> entries of its block array as a list; the last element
    is the top of the stack.

  A call of the pool is one step of \<open>pool_step\<close>; threads interleave at calls. The ghost component
  \<open>pw_live\<close> lists the blocks the program holds with the sizes it asked for. The invariant says that
  every heap block is in exactly one place: with the program, in one cache or in one free list.
\<close>

section \<open>Sizes\<close>

type_synonym addr = nat

definition SIZE_CLASSES :: "size_t list" where
  "SIZE_CLASSES = [64, 128, 256, 512, 1024]"

definition MAX_POOLED_SIZE :: size_t where
  "MAX_POOLED_SIZE = 1024"

definition NUM_SIZE_CLASSES :: nat where
  "NUM_SIZE_CLASSES = 5"

definition DEFAULT_MAX_BLOCKS_PER_CLASS :: size_t where
  "DEFAULT_MAX_BLOCKS_PER_CLASS = 10000"

definition POOLED_ALIGNMENT :: size_t where
  "POOLED_ALIGNMENT = 16"

definition HEADER_OVERHEAD :: size_t where
  "HEADER_OVERHEAD = (8 + POOLED_ALIGNMENT - 1) AND NOT (POOLED_ALIGNMENT - 1)"

definition max_payload_for_class :: "size_t \<Rightarrow> size_t" where
  "max_payload_for_class cls =
     (if cls > HEADER_OVERHEAD then cls - HEADER_OVERHEAD else 0)"

definition size_class_for_payload :: "size_t \<Rightarrow> size_t" where
  "size_class_for_payload payload_size =
     (if payload_size + HEADER_OVERHEAD > MAX_POOLED_SIZE then 0
      else if payload_size + HEADER_OVERHEAD \<le> 64 then 64
      else if payload_size + HEADER_OVERHEAD \<le> 128 then 128
      else if payload_size + HEADER_OVERHEAD \<le> 256 then 256
      else if payload_size + HEADER_OVERHEAD \<le> 512 then 512
      else 1024)"

fun size_class_index_from :: "nat \<Rightarrow> size_t list \<Rightarrow> size_t \<Rightarrow> nat" where
  "size_class_index_from i [] sz = i"
| "size_class_index_from i (c # cs) sz = (if sz \<le> c then i else size_class_index_from (Suc i) cs sz)"

definition size_class_index :: "size_t \<Rightarrow> nat" where
  "size_class_index sz = size_class_index_from 0 SIZE_CLASSES sz"

definition block_size :: "nat \<Rightarrow> size_t" where
  "block_size k = SIZE_CLASSES ! k"

section \<open>State\<close>

type_synonym heap = "(addr \<times> size_t) list"

record 'q pool_env =
  pe_new :: "heap \<Rightarrow> size_t \<Rightarrow> addr"
  pe_enqueue :: "thread_id option \<Rightarrow> addr list \<Rightarrow> 'q \<Rightarrow> bool \<times> 'q"
  pe_dequeue :: "thread_id option \<Rightarrow> nat \<Rightarrow> 'q \<Rightarrow> addr list \<times> 'q"

definition k_cache_capacity :: nat where
  "k_cache_capacity = 32"

definition k_transfer_batch :: nat where
  "k_transfer_batch = 16"

record class_cache =
  cc_blocks :: "addr list"
  cc_producer :: bool
  cc_consumer :: bool

type_synonym thread_cache = "nat \<Rightarrow> class_cache"

definition thread_cache_init :: thread_cache where
  "thread_cache_init = (\<lambda>_. \<lparr>cc_blocks = [], cc_producer = False, cc_consumer = False\<rparr>)"

record pool_stats =
  pool_hits :: size_t
  pool_misses :: size_t
  heap_fallbacks :: size_t
  pool_full_frees :: size_t

record 'q pool_state =
  free_blocks :: "nat \<Rightarrow> 'q"
  free_count :: "nat \<Rightarrow> size_t"
  max_blocks_per_class :: size_t
  pool_stats_of :: pool_stats
  t_cache :: "thread_id \<Rightarrow> thread_cache option"
  t_cache_released :: "thread_id \<Rightarrow> bool"
  pool_heap :: heap

definition pool_init :: "'q \<Rightarrow> 'q pool_state" where
  "pool_init q0 = \<lparr>free_blocks = (\<lambda>_. q0), free_count = (\<lambda>_. 0),
     max_blocks_per_class = DEFAULT_MAX_BLOCKS_PER_CLASS,
     pool_stats_of = \<lparr>pool_hits = 0, pool_misses = 0, heap_fallbacks = 0, pool_full_frees = 0\<rparr>,
     t_cache = (\<lambda>_. None), t_cache_released = (\<lambda>_. False), pool_heap = []\<rparr>"

section \<open>Operations\<close>

definition op_new :: "'q pool_env \<Rightarrow> size_t \<Rightarrow> 'q pool_state \<Rightarrow> addr \<times> 'q pool_state" where
  "op_new env n s =
     (let a = pe_new env (pool_heap s) n in (a, s\<lparr>pool_heap := (a, n) # pool_heap s\<rparr>))"

definition op_delete :: "addr \<Rightarrow> 'q pool_state \<Rightarrow> 'q pool_state" where
  "op_delete a s = s\<lparr>pool_heap := filter (\<lambda>b. fst b \<noteq> a) (pool_heap s)\<rparr>"

definition add_count :: "nat \<Rightarrow> size_t \<Rightarrow> 'q pool_state \<Rightarrow> 'q pool_state" where
  "add_count k n s = s\<lparr>free_count := (free_count s)(k := free_count s k + n)\<rparr>"

definition sub_count :: "nat \<Rightarrow> size_t \<Rightarrow> 'q pool_state \<Rightarrow> 'q pool_state" where
  "sub_count k n s = s\<lparr>free_count := (free_count s)(k := free_count s k - n)\<rparr>"

definition bump_stats :: "(pool_stats \<Rightarrow> pool_stats) \<Rightarrow> 'q pool_state \<Rightarrow> 'q pool_state" where
  "bump_stats f s = s\<lparr>pool_stats_of := f (pool_stats_of s)\<rparr>"

definition release_to_shared ::
  "'q pool_env \<Rightarrow> nat \<Rightarrow> addr list \<Rightarrow> thread_id option \<Rightarrow> 'q pool_state \<Rightarrow> 'q pool_state" where
  "release_to_shared env k blocks producer s =
     (let n = of_nat (length blocks);
          max_blocks = max_blocks_per_class s;
          previous = free_count s k;
          over = max_blocks > 0 \<and> previous + n > max_blocks;
          keep = (if \<not> over then n else if previous \<ge> max_blocks then 0 else max_blocks - previous);
          s1 = add_count k n s;
          s2 = (if over
                then bump_stats (pool_full_frees_update (\<lambda>x. x + (n - keep)))
                       (fold op_delete (drop (unat keep) blocks) (sub_count k (n - keep) s1))
                else s1)
      in if keep = 0 then s2
         else
           (let (ok, q) = pe_enqueue env producer (take (unat keep) blocks) (free_blocks s2 k);
                s3 = s2\<lparr>free_blocks := (free_blocks s2)(k := q)\<rparr>
            in if ok then s3
               else fold op_delete (take (unat keep) blocks) (sub_count k keep s3)))"

definition current_cache :: "thread_id \<Rightarrow> 'q pool_state \<Rightarrow> thread_cache option \<times> 'q pool_state" where
  "current_cache tid s =
     (let s1 = (if t_cache s tid = None \<and> \<not> t_cache_released s tid
                then s\<lparr>t_cache := (t_cache s)(tid \<mapsto> thread_cache_init)\<rparr> else s)
      in (t_cache s1 tid, s1))"

definition put_cache :: "thread_id \<Rightarrow> thread_cache \<Rightarrow> nat \<Rightarrow> class_cache \<Rightarrow> 'q pool_state \<Rightarrow> 'q pool_state" where
  "put_cache tid cache k c s = s\<lparr>t_cache := (t_cache s)(tid \<mapsto> cache(k := c))\<rparr>"

definition refill_cache ::
  "'q pool_env \<Rightarrow> thread_id \<Rightarrow> nat \<Rightarrow> class_cache \<Rightarrow> 'q pool_state \<Rightarrow> class_cache \<times> 'q pool_state" where
  "refill_cache env tid k c s =
     (if cc_blocks c = [] then
        (let (bs, q) = pe_dequeue env (Some tid) k_transfer_batch (free_blocks s k)
         in (c\<lparr>cc_blocks := bs, cc_consumer := True\<rparr>,
             sub_count k (of_nat (length bs)) (s\<lparr>free_blocks := (free_blocks s)(k := q)\<rparr>)))
      else (c, s))"

definition pool_miss :: "'q pool_env \<Rightarrow> nat \<Rightarrow> 'q pool_state \<Rightarrow> addr \<times> 'q pool_state" where
  "pool_miss env k s = op_new env (block_size k) (bump_stats (pool_misses_update (\<lambda>x. x + 1)) s)"

definition allocate :: "'q pool_env \<Rightarrow> thread_id \<Rightarrow> size_t \<Rightarrow> 'q pool_state \<Rightarrow> addr \<times> 'q pool_state" where
  "allocate env tid sz s =
     (if sz > MAX_POOLED_SIZE then
        op_new env sz (bump_stats (heap_fallbacks_update (\<lambda>x. x + 1)) s)
      else
        (let k = size_class_index sz; (cache, s1) = current_cache tid s in
         case cache of
           Some tc \<Rightarrow>
             (let (c, s2) = refill_cache env tid k (tc k) s1 in
              if cc_blocks c \<noteq> [] then
                (last (cc_blocks c),
                 put_cache tid tc k (c\<lparr>cc_blocks := butlast (cc_blocks c)\<rparr>)
                   (bump_stats (pool_hits_update (\<lambda>x. x + 1)) s2))
              else pool_miss env k (put_cache tid tc k c s2))
         | None \<Rightarrow>
             (case pe_dequeue env None 1 (free_blocks s1 k) of
                (b # _, q) \<Rightarrow>
                  (b, bump_stats (pool_hits_update (\<lambda>x. x + 1))
                        (sub_count k 1 (s1\<lparr>free_blocks := (free_blocks s1)(k := q)\<rparr>)))
              | ([], q) \<Rightarrow> pool_miss env k (s1\<lparr>free_blocks := (free_blocks s1)(k := q)\<rparr>))))"

definition deallocate :: "'q pool_env \<Rightarrow> thread_id \<Rightarrow> addr \<Rightarrow> size_t \<Rightarrow> 'q pool_state \<Rightarrow> 'q pool_state" where
  "deallocate env tid ptr sz s =
     (if ptr = 0 then s
      else if sz > MAX_POOLED_SIZE then op_delete ptr s
      else
        (let k = size_class_index sz; (cache, s1) = current_cache tid s in
         case cache of
           Some tc \<Rightarrow>
             (let c = tc k in
              if length (cc_blocks c) = k_cache_capacity then
                (let n = length (cc_blocks c) - k_transfer_batch;
                     c1 = c\<lparr>cc_blocks := take n (cc_blocks c), cc_producer := True\<rparr>;
                     s2 = release_to_shared env k (drop n (cc_blocks c)) (Some tid) (put_cache tid tc k c1 s1)
                 in put_cache tid tc k (c1\<lparr>cc_blocks := cc_blocks c1 @ [ptr]\<rparr>) s2)
              else put_cache tid tc k (c\<lparr>cc_blocks := cc_blocks c @ [ptr]\<rparr>) s1)
         | None \<Rightarrow> release_to_shared env k [ptr] None s1))"

fun new_blocks :: "'q pool_env \<Rightarrow> size_t \<Rightarrow> nat \<Rightarrow> 'q pool_state \<Rightarrow> addr list \<times> 'q pool_state" where
  "new_blocks env sz 0 s = ([], s)"
| "new_blocks env sz (Suc n) s =
     (let (a, s1) = op_new env sz s; (as, s2) = new_blocks env sz n s1 in (a # as, s2))"

function prewarm_class :: "'q pool_env \<Rightarrow> nat \<Rightarrow> nat \<Rightarrow> 'q pool_state \<Rightarrow> 'q pool_state" where
  "prewarm_class env k remaining s =
     (if remaining = 0 then s
      else
        (let n = min remaining k_transfer_batch; (batch, s1) = new_blocks env (block_size k) n s
         in prewarm_class env k (remaining - n) (release_to_shared env k batch None s1)))"
  by pat_completeness auto
termination
  by (relation "measure (\<lambda>(env, k, remaining, s). remaining)") (auto simp: k_transfer_batch_def)

declare prewarm_class.simps [simp del]

definition prewarm :: "'q pool_env \<Rightarrow> size_t \<Rightarrow> 'q pool_state \<Rightarrow> 'q pool_state" where
  "prewarm env count_per_class s =
     fold (\<lambda>k. prewarm_class env k (unat count_per_class)) [0..<NUM_SIZE_CLASSES] s"

definition flush_class ::
  "'q pool_env \<Rightarrow> thread_id \<Rightarrow> thread_cache \<Rightarrow> nat \<Rightarrow> 'q pool_state \<Rightarrow> 'q pool_state" where
  "flush_class env tid tc k s =
     (if cc_blocks (tc k) \<noteq> []
      then release_to_shared env k (cc_blocks (tc k)) (if cc_producer (tc k) then Some tid else None) s
      else s)"

definition thread_cache_release :: "'q pool_env \<Rightarrow> thread_id \<Rightarrow> 'q pool_state \<Rightarrow> 'q pool_state" where
  "thread_cache_release env tid s =
     (let cache = t_cache s tid;
          s1 = s\<lparr>t_cache := (t_cache s)(tid := None),
                t_cache_released := (t_cache_released s)(tid := True)\<rparr>
      in case cache of
           None \<Rightarrow> s1
         | Some tc \<Rightarrow> fold (flush_class env tid tc) [0..<NUM_SIZE_CLASSES] s1)"

definition set_max_pool_size :: "size_t \<Rightarrow> 'q pool_state \<Rightarrow> 'q pool_state" where
  "set_max_pool_size n s = s\<lparr>max_blocks_per_class := n\<rparr>"

definition get_max_pool_size :: "'q pool_state \<Rightarrow> size_t" where
  "get_max_pool_size s = max_blocks_per_class s"

definition get_stats :: "'q pool_state \<Rightarrow> pool_stats" where
  "get_stats s = pool_stats_of s"

definition reset_stats :: "'q pool_state \<Rightarrow> 'q pool_state" where
  "reset_stats s =
     s\<lparr>pool_stats_of := \<lparr>pool_hits = 0, pool_misses = 0, heap_fallbacks = 0, pool_full_frees = 0\<rparr>\<rparr>"

section \<open>Pooled messages\<close>

text \<open>
  \<open>hdr\<close> is what a read of a \<open>size_t\<close> at an address returns. A write of the program to the byte at \<open>x\<close>
  changes the eight-byte cells that overlap it, to any values.
\<close>

definition message_new ::
  "'q pool_env \<Rightarrow> thread_id \<Rightarrow> size_t \<Rightarrow> 'q pool_state \<Rightarrow> (addr \<Rightarrow> size_t) \<Rightarrow> addr \<times> 'q pool_state \<times> (addr \<Rightarrow> size_t)" where
  "message_new env tid sz s hdr =
     (let total_size = HEADER_OVERHEAD + sz; (raw, s1) = allocate env tid total_size s
      in (raw + unat HEADER_OVERHEAD, s1, hdr(raw := total_size)))"

definition message_delete ::
  "'q pool_env \<Rightarrow> thread_id \<Rightarrow> addr \<Rightarrow> 'q pool_state \<Rightarrow> (addr \<Rightarrow> size_t) \<Rightarrow> 'q pool_state" where
  "message_delete env tid ptr s hdr =
     (if ptr = 0 then s
      else (let raw = ptr - unat HEADER_OVERHEAD in deallocate env tid raw (hdr raw) s))"

definition user_write :: "addr \<Rightarrow> (addr \<Rightarrow> size_t) \<Rightarrow> (addr \<Rightarrow> size_t) \<Rightarrow> (addr \<Rightarrow> size_t)" where
  "user_write x v hdr = (\<lambda>h. if h \<le> x \<and> x < h + 8 then v h else hdr h)"

section \<open>What the pool relies on\<close>

definition apart :: "addr \<times> size_t \<Rightarrow> addr \<times> size_t \<Rightarrow> bool" where
  "apart b c \<longleftrightarrow> fst b + unat (snd b) \<le> fst c \<or> fst c + unat (snd c) \<le> fst b"

definition pool_env_ok :: "'q pool_env \<Rightarrow> ('q \<Rightarrow> addr multiset) \<Rightarrow> bool" where
  "pool_env_ok env contents \<longleftrightarrow>
     (\<forall>h n. pe_new env h n \<noteq> 0 \<and> pe_new env h n \<notin> fst ` set h
        \<and> (\<forall>b \<in> set h. apart (pe_new env h n, n) b))
   \<and> (\<forall>p bs q q'. pe_enqueue env p bs q = (True, q') \<longrightarrow> contents q' = contents q + mset bs)
   \<and> (\<forall>p bs q q'. pe_enqueue env p bs q = (False, q') \<longrightarrow> contents q' = contents q)
   \<and> (\<forall>p n q bs q'. pe_dequeue env p n q = (bs, q') \<longrightarrow>
        length bs \<le> n \<and> contents q = contents q' + mset bs)"

section \<open>Where the blocks are\<close>

datatype place = P_live | P_hand nat | P_cache thread_id nat | P_free nat

text \<open>
  \<open>partitioned B H\<close>: the multisets \<open>B p\<close> hold every element of \<open>H\<close> exactly once, in one place.
\<close>

definition partitioned :: "('p \<Rightarrow> 'a multiset) \<Rightarrow> 'a set \<Rightarrow> bool" where
  "partitioned B H \<longleftrightarrow>
     (\<exists>own. dom own = H \<and> (\<forall>p a. count (B p) a = (if own a = Some p then 1 else 0)))"

lemma partitioned_in_one_place:
  assumes "partitioned B H" "a \<in># B p" "a \<in># B q"
  shows "p = q"
  using assms unfolding partitioned_def by (metis count_eq_zero_iff option.inject)

lemma partitioned_covers: "partitioned B H \<Longrightarrow> a \<in> H \<longleftrightarrow> (\<exists>p. a \<in># B p)"
  unfolding partitioned_def by (metis count_eq_zero_iff domD domI zero_neq_one)

lemma partitioned_distinct:
  assumes "partitioned B H" "B p = mset xs"
  shows "distinct xs"
proof -
  from assms(1) obtain own where own: "\<And>a. count (B p) a = (if own a = Some p then 1 else 0)"
    unfolding partitioned_def by blast
  have "count (mset xs) a = (if a \<in> set xs then 1 else 0)" for a
    using own [of a] assms(2) by (metis count_mset_0_iff)
  then show ?thesis
    using distinct_count_atmost_1 by blast
qed

lemma partitioned_insert:
  assumes "partitioned B H" "a \<notin> H" "B' = B(p := B p + {#a#})"
  shows "partitioned B' (insert a H)"
proof -
  from assms(1) obtain own where own: "dom own = H"
    "\<forall>p a. count (B p) a = (if own a = Some p then 1 else 0)"
    unfolding partitioned_def by blast
  have "own a = None" using own(1) assms(2) by blast
  with own assms(3) show ?thesis
    unfolding partitioned_def by (intro exI [of _ "own(a \<mapsto> p)"]) auto
qed

lemma partitioned_remove:
  assumes "partitioned B H" "a \<in># B p" "B' = B(p := B p - {#a#})"
  shows "partitioned B' (H - {a})"
proof -
  from assms(1) obtain own where own: "dom own = H"
    "\<forall>p a. count (B p) a = (if own a = Some p then 1 else 0)"
    unfolding partitioned_def by blast
  have "own a = Some p" using own(2) assms(2) by (metis count_eq_zero_iff)
  with own assms(3) show ?thesis
    unfolding partitioned_def by (intro exI [of _ "own(a := None)"]) auto
qed

lemma partitioned_move1:
  assumes "partitioned B H" "a \<in># B p" "B' = (B(p := B p - {#a#}))(q := (B(p := B p - {#a#})) q + {#a#})"
  shows "partitioned B' H"
proof -
  have "a \<in> H" using assms(1,2) partitioned_covers by metis
  then have "insert a (H - {a}) = H" by blast
  with partitioned_insert [OF partitioned_remove [OF assms(1,2) refl], of a B' q] assms(3)
  show ?thesis by simp
qed

lemma partitioned_move:
  assumes "partitioned B H" "mset xs \<subseteq># B p" "p \<noteq> q" "B' = B(p := B p - mset xs, q := B q + mset xs)"
  shows "partitioned B' H"
  using assms
proof (induction xs arbitrary: B)
  case Nil
  then show ?case by simp
next
  case (Cons x xs)
  let ?B = "B(p := B p - {#x#}, q := B q + {#x#})"
  have sub: "add_mset x (mset xs) \<subseteq># B p" using Cons.prems(2) by simp
  then have "x \<in># B p" by (meson mset_subset_eq_insertD)
  then have "partitioned ?B H"
    using Cons.prems(3) by (intro partitioned_move1 [OF Cons.prems(1)]) auto
  moreover have "mset xs \<subseteq># ?B p"
    using sub Cons.prems(3) by (simp add: insert_subset_eq_iff)
  moreover have "B' = ?B(p := ?B p - mset xs, q := ?B q + mset xs)"
    using Cons.prems(3,4) by (simp add: fun_eq_iff)
  ultimately show ?case
    using Cons.IH [of ?B] Cons.prems(3) by blast
qed

lemma partitioned_remove_list:
  assumes "partitioned B H" "mset xs \<subseteq># B p" "B' = B(p := B p - mset xs)"
  shows "partitioned B' (H - set xs)"
  using assms
proof (induction xs arbitrary: B H)
  case Nil
  then show ?case by simp
next
  case (Cons x xs)
  let ?B = "B(p := B p - {#x#})"
  have sub: "add_mset x (mset xs) \<subseteq># B p" using Cons.prems(2) by simp
  then have "x \<in># B p" by (meson mset_subset_eq_insertD)
  then have "partitioned ?B (H - {x})"
    by (intro partitioned_remove [OF Cons.prems(1)]) auto
  moreover have "mset xs \<subseteq># ?B p"
    using sub by (simp add: insert_subset_eq_iff)
  moreover have "B' = ?B(p := ?B p - mset xs)"
    using Cons.prems(3) by (simp add: fun_eq_iff)
  ultimately have "partitioned B' (H - {x} - set xs)"
    using Cons.IH [of ?B "H - {x}"] by blast
  moreover have "H - {x} - set xs = H - set (x # xs)" by auto
  ultimately show ?case by simp
qed

section \<open>The invariant\<close>

definition capacity :: "size_t \<Rightarrow> size_t" where
  "capacity sz = (if sz > MAX_POOLED_SIZE then sz else block_size (size_class_index sz))"

fun blocks_at ::
  "('q \<Rightarrow> addr multiset) \<Rightarrow> 'q pool_state \<Rightarrow> (addr \<times> size_t) list \<Rightarrow> (nat \<Rightarrow> addr list) \<Rightarrow> place \<Rightarrow> addr multiset" where
  "blocks_at contents s live hand P_live = mset (map fst live)"
| "blocks_at contents s live hand (P_hand k) = mset (hand k)"
| "blocks_at contents s live hand (P_cache t k) =
     (case t_cache s t of None \<Rightarrow> {#} | Some tc \<Rightarrow> mset (cc_blocks (tc k)))"
| "blocks_at contents s live hand (P_free k) = contents (free_blocks s k)"

fun place_class :: "place \<Rightarrow> nat option" where
  "place_class P_live = None"
| "place_class (P_hand k) = Some k"
| "place_class (P_cache t k) = Some k"
| "place_class (P_free k) = Some k"

definition heap_ok :: "heap \<Rightarrow> bool" where
  "heap_ok h \<longleftrightarrow> distinct (map fst h) \<and> 0 \<notin> fst ` set h
     \<and> (\<forall>b \<in> set h. \<forall>c \<in> set h. b \<noteq> c \<longrightarrow> apart b c)"

definition classes_ok :: "(place \<Rightarrow> addr multiset) \<Rightarrow> heap \<Rightarrow> bool" where
  "classes_ok B h \<longleftrightarrow> (\<forall>p k a. place_class p = Some k \<and> a \<in># B p \<longrightarrow> (a, block_size k) \<in> set h)"

definition live_ok :: "(addr \<times> size_t) list \<Rightarrow> heap \<Rightarrow> bool" where
  "live_ok live h \<longleftrightarrow> (\<forall>(a, sz) \<in> set live. (a, capacity sz) \<in> set h)"

definition counts_ok :: "('q \<Rightarrow> addr multiset) \<Rightarrow> 'q pool_state \<Rightarrow> bool" where
  "counts_ok contents s \<longleftrightarrow> (\<forall>k. free_count s k = of_nat (size (contents (free_blocks s k))))"

definition caches_ok :: "'q pool_state \<Rightarrow> bool" where
  "caches_ok s \<longleftrightarrow> (\<forall>t tc k. t_cache s t = Some tc \<longrightarrow>
     length (cc_blocks (tc k)) \<le> k_cache_capacity \<and> (NUM_SIZE_CLASSES \<le> k \<longrightarrow> cc_blocks (tc k) = []))"

definition pool_inv ::
  "('q \<Rightarrow> addr multiset) \<Rightarrow> 'q pool_state \<Rightarrow> (addr \<times> size_t) list \<Rightarrow> (nat \<Rightarrow> addr list) \<Rightarrow> bool" where
  "pool_inv contents s live hand \<longleftrightarrow>
     partitioned (blocks_at contents s live hand) (fst ` set (pool_heap s))
   \<and> heap_ok (pool_heap s) \<and> classes_ok (blocks_at contents s live hand) (pool_heap s)
   \<and> live_ok live (pool_heap s) \<and> counts_ok contents s \<and> caches_ok s"

lemma place_fun_eqI:
  assumes "f P_live = g P_live" "\<And>k. f (P_hand k) = g (P_hand k)"
    "\<And>t k. f (P_cache t k) = g (P_cache t k)" "\<And>k. f (P_free k) = g (P_free k)"
  shows "f = g"
proof
  show "f p = g p" for p by (cases p) (simp_all add: assms)
qed

lemma apart_sym: "apart b c \<longleftrightarrow> apart c b"
  by (auto simp: apart_def)

lemma pool_env_new:
  assumes "pool_env_ok env contents" "heap_ok h"
  shows "pe_new env h n \<notin> fst ` set h" "heap_ok ((pe_new env h n, n) # h)"
  using assms by (auto simp: pool_env_ok_def heap_ok_def apart_sym)

lemma pool_env_enqueue:
  assumes "pool_env_ok env contents" "pe_enqueue env p bs q = (ok, q')"
  shows "contents q' = contents q + (if ok then mset bs else {#})"
  using assms by (cases ok) (auto simp: pool_env_ok_def)

lemma pool_env_dequeue:
  assumes "pool_env_ok env contents" "pe_dequeue env p n q = (bs, q')"
  shows "length bs \<le> n" "contents q = contents q' + mset bs"
  using assms unfolding pool_env_ok_def by blast+

lemma pool_inv_class:
  assumes "pool_inv contents s live hand" "place_class p = Some k" "a \<in># blocks_at contents s live hand p"
  shows "(a, block_size k) \<in> set (pool_heap s)"
  using assms unfolding pool_inv_def classes_ok_def by blast

lemma pool_inv_one_place:
  assumes "pool_inv contents s live hand"
    "a \<in># blocks_at contents s live hand p" "a \<in># blocks_at contents s live hand q"
  shows "p = q"
  using partitioned_in_one_place [of "blocks_at contents s live hand" "fst ` set (pool_heap s)" a p q] assms
  by (simp add: pool_inv_def)

text \<open>One block list moves from one place to another; the heap stays.\<close>

lemma pool_inv_move:
  assumes "pool_inv contents s live hand"
    and "mset xs \<subseteq># blocks_at contents s live hand p" "p \<noteq> q"
    and "blocks_at contents s' live' hand' = (blocks_at contents s live hand)
           (p := blocks_at contents s live hand p - mset xs,
            q := blocks_at contents s live hand q + mset xs)"
    and "\<And>k a. place_class q = Some k \<Longrightarrow> a \<in> set xs \<Longrightarrow> (a, block_size k) \<in> set (pool_heap s)"
    and "pool_heap s' = pool_heap s" "live_ok live' (pool_heap s)" "counts_ok contents s'" "caches_ok s'"
  shows "pool_inv contents s' live' hand'"
proof -
  have "partitioned (blocks_at contents s' live' hand') (fst ` set (pool_heap s))"
    using assms(1) partitioned_move [OF _ assms(2,3,4)] by (simp add: pool_inv_def)
  moreover have "classes_ok (blocks_at contents s' live' hand') (pool_heap s)"
    using assms(1,3,5) unfolding pool_inv_def classes_ok_def assms(4)
    by (auto dest: in_diffD)
  ultimately show ?thesis
    using assms(1,6-9) by (simp add: pool_inv_def)
qed

text \<open>A new heap block appears at a place.\<close>

lemma pool_inv_new:
  assumes "pool_inv contents s live hand" "pool_env_ok env contents"
    and "a = pe_new env (pool_heap s) n" "pool_heap s' = (a, n) # pool_heap s"
    and "blocks_at contents s' live' hand' = (blocks_at contents s live hand)
           (q := blocks_at contents s live hand q + {#a#})"
    and "\<And>k. place_class q = Some k \<Longrightarrow> n = block_size k"
    and "live_ok live' ((a, n) # pool_heap s)" "counts_ok contents s'" "caches_ok s'"
  shows "pool_inv contents s' live' hand'"
proof -
  have h: "a \<notin> fst ` set (pool_heap s)" "heap_ok ((a, n) # pool_heap s)"
    using pool_env_new [OF assms(2)] assms(1,3) by (auto simp: pool_inv_def)
  have "partitioned (blocks_at contents s' live' hand') (insert a (fst ` set (pool_heap s)))"
    using assms(1) partitioned_insert [OF _ h(1) assms(5)] by (simp add: pool_inv_def)
  moreover have "classes_ok (blocks_at contents s' live' hand') ((a, n) # pool_heap s)"
    using assms(1,6) unfolding pool_inv_def classes_ok_def assms(5) by auto
  ultimately show ?thesis
    using assms(4,7-9) h(2) by (simp add: pool_inv_def)
qed

text \<open>Blocks in one place go back to the heap.\<close>

lemma heap_ok_filter: "heap_ok h \<Longrightarrow> heap_ok (filter P h)"
  by (auto simp: heap_ok_def distinct_map intro: inj_on_subset)

lemma fst_filter: "fst ` set (filter (\<lambda>b. fst b \<notin> X) h) = fst ` set h - X"
  by auto

lemma pool_inv_delete:
  assumes inv: "pool_inv contents s live hand"
    and "mset xs \<subseteq># blocks_at contents s live hand p"
    and "pool_heap s' = filter (\<lambda>b. fst b \<notin> set xs) (pool_heap s)"
    and "blocks_at contents s' live' hand' = (blocks_at contents s live hand)
           (p := blocks_at contents s live hand p - mset xs)"
    and "set live' \<subseteq> set live" "fst ` set live' \<inter> set xs = {}" "counts_ok contents s'" "caches_ok s'"
  shows "pool_inv contents s' live' hand'"
proof -
  let ?B = "blocks_at contents s live hand" and ?B' = "blocks_at contents s' live' hand'"
  have part: "partitioned ?B' (fst ` set (pool_heap s'))"
    using inv partitioned_remove_list [OF _ assms(2,4)] unfolding assms(3) fst_filter
    by (simp add: pool_inv_def)
  have out: "a \<notin> set xs" if "a \<in># ?B' q" for a q
    using that partitioned_covers [OF part, of a] unfolding assms(3) fst_filter by blast
  have sub: "a \<in># ?B q" if "a \<in># ?B' q" for a q
    using that unfolding assms(4) by (auto split: if_splits dest: in_diffD)
  have "classes_ok ?B' (pool_heap s')"
    using inv out sub unfolding pool_inv_def classes_ok_def assms(3) by simp blast
  moreover have "live_ok live' (pool_heap s')"
    using inv assms(3,5,6) unfolding pool_inv_def live_ok_def by fastforce
  ultimately show ?thesis
    using inv part assms(3,7,8) by (simp add: pool_inv_def heap_ok_filter)
qed

lemma fold_op_delete:
  "fold op_delete xs s = s\<lparr>pool_heap := filter (\<lambda>b. fst b \<notin> set xs) (pool_heap s)\<rparr>"
  by (induction xs arbitrary: s) (auto simp: op_delete_def intro: filter_cong)

section \<open>Releasing to the shared list\<close>

text \<open>How many of the blocks stay, as the code computes it, and that this respects the limit.\<close>

definition kept_share :: "size_t \<Rightarrow> size_t \<Rightarrow> nat \<Rightarrow> size_t" where
  "kept_share mx pv n = (if \<not> (mx > 0 \<and> pv + of_nat n > mx) then of_nat n else if pv \<ge> mx then 0 else mx - pv)"

lemma kept_share_bounds:
  assumes "n < 2 ^ 64"
  shows "unat (kept_share mx pv n) \<le> n"
    "kept_share mx pv n = 0 \<or> mx = 0 \<or> unat pv + unat (kept_share mx pv n) \<le> unat mx \<or> 2 ^ 64 \<le> unat pv + n"
    "\<not> (mx > 0 \<and> pv + of_nat n > mx) \<Longrightarrow> unat (kept_share mx pv n) = n"
proof -
  have n: "unat (of_nat n :: size_t) = n" using assms by (simp add: unat_of_nat_64)
  show "unat (kept_share mx pv n) \<le> n" "\<not> (mx > 0 \<and> pv + of_nat n > mx) \<Longrightarrow> unat (kept_share mx pv n) = n"
    "kept_share mx pv n = 0 \<or> mx = 0 \<or> unat pv + unat (kept_share mx pv n) \<le> unat mx \<or> 2 ^ 64 \<le> unat pv + n"
    using n unfolding kept_share_def
    by (auto simp: word_less_nat_alt word_le_nat_alt unat_sub unat_word_ariths word_gt_0 unsigned_eq_0_iff split: if_splits)
qed

lemma release_effect:
  assumes env: "pool_env_ok env contents" and len: "length blocks < 2 ^ 64"
  obtains kept deleted where
    "mset blocks = mset kept + mset deleted"
    "pool_heap (release_to_shared env k blocks pr s) = filter (\<lambda>b. fst b \<notin> set deleted) (pool_heap s)"
    "contents (free_blocks (release_to_shared env k blocks pr s) k) = contents (free_blocks s k) + mset kept"
    "\<And>j. j \<noteq> k \<Longrightarrow> free_blocks (release_to_shared env k blocks pr s) j = free_blocks s j"
    "free_count (release_to_shared env k blocks pr s) =
       (free_count s)(k := free_count s k + of_nat (length kept))"
    "t_cache (release_to_shared env k blocks pr s) = t_cache s"
    "t_cache_released (release_to_shared env k blocks pr s) = t_cache_released s"
    "max_blocks_per_class (release_to_shared env k blocks pr s) = max_blocks_per_class s"
    "kept = [] \<or> max_blocks_per_class s = 0
       \<or> unat (free_count s k) + length kept \<le> unat (max_blocks_per_class s)
       \<or> 2 ^ 64 \<le> unat (free_count s k) + length blocks"
proof -
  let ?n = "of_nat (length blocks) :: size_t" and ?mx = "max_blocks_per_class s" and ?pv = "free_count s k"
  define over where "over \<longleftrightarrow> ?mx > 0 \<and> ?pv + ?n > ?mx"
  define keep where "keep = kept_share ?mx ?pv (length blocks)"
  have keep_eq: "keep = (if \<not> over then ?n else if ?pv \<ge> ?mx then 0 else ?mx - ?pv)" by (simp add: keep_def kept_share_def over_def)
  note share = kept_share_bounds [OF len, of ?mx ?pv, folded keep_def over_def]
  let ?kept = "take (unat keep) blocks" and ?gone = "drop (unat keep) blocks"
  have no_gone: "?gone = []" "keep = ?n" if "\<not> over" using that share(3) by (simp_all add: keep_eq)
  define s2 where "s2 = (if over
     then bump_stats (pool_full_frees_update (\<lambda>x. x + (?n - keep)))
            (fold op_delete ?gone (sub_count k (?n - keep) (add_count k ?n s)))
     else add_count k ?n s)"
  have s2: "pool_heap s2 = filter (\<lambda>b. fst b \<notin> set ?gone) (pool_heap s)" "free_blocks s2 = free_blocks s"
    "free_count s2 = (free_count s)(k := ?pv + keep)" "t_cache s2 = t_cache s"
    "t_cache_released s2 = t_cache_released s" "max_blocks_per_class s2 = ?mx"
    using no_gone unfolding s2_def
    by (auto simp: bump_stats_def fold_op_delete sub_count_def add_count_def fun_eq_iff)
  obtain ok q where enq: "pe_enqueue env pr ?kept (free_blocks s k) = (ok, q)"
    by (cases "pe_enqueue env pr ?kept (free_blocks s k)") auto
  note q = pool_env_enqueue [OF env enq]
  have rel: "release_to_shared env k blocks pr s =
     (if keep = 0 then s2
      else if ok then s2\<lparr>free_blocks := (free_blocks s)(k := q)\<rparr>
      else fold op_delete ?kept (sub_count k keep (s2\<lparr>free_blocks := (free_blocks s)(k := q)\<rparr>)))"
    using enq s2(2) unfolding release_to_shared_def Let_def over_def [symmetric] keep_eq [symmetric]
      s2_def [symmetric]
    by simp
  have split: "mset blocks = mset ?kept + mset ?gone" "set blocks = set ?kept \<union> set ?gone"
    by (metis append_take_drop_id mset_append) (metis append_take_drop_id set_append)
  consider (zero) "keep = 0" | (kept) "keep \<noteq> 0" ok | (failed) "keep \<noteq> 0" "\<not> ok" by blast
  then show ?thesis
  proof cases
    case zero
    with rel s2 show ?thesis by (intro that [of "[]" blocks]) auto
  next
    case kept
    with rel s2 q split share(1,2) show ?thesis by (intro that [of ?kept ?gone]) auto
  next
    case failed
    with rel s2 q split show ?thesis
      by (intro that [of "[]" blocks])
        (auto simp: fold_op_delete sub_count_def intro: filter_cong)
  qed
qed

lemma release_inv:
  assumes env: "pool_env_ok env contents" and inv: "pool_inv contents s live hand"
    and hand: "hand k = blocks" and len: "length blocks < 2 ^ 64"
  shows "pool_inv contents (release_to_shared env k blocks pr s) live (hand(k := []))"
proof -
  let ?s' = "release_to_shared env k blocks pr s"
  obtain kept deleted where e: "mset blocks = mset kept + mset deleted"
    "pool_heap ?s' = filter (\<lambda>b. fst b \<notin> set deleted) (pool_heap s)"
    "contents (free_blocks ?s' k) = contents (free_blocks s k) + mset kept"
    "\<And>j. j \<noteq> k \<Longrightarrow> free_blocks ?s' j = free_blocks s j"
    "free_count ?s' = (free_count s)(k := free_count s k + of_nat (length kept))"
    "t_cache ?s' = t_cache s"
    by (rule release_effect [OF env len, where k = k and pr = pr and s = s]) blast
  define s1 where "s1 = ?s'\<lparr>pool_heap := pool_heap s\<rparr>"
  have counts: "counts_ok contents ?s'" "caches_ok ?s'" "counts_ok contents s1" "caches_ok s1"
    using inv e(3-6) unfolding s1_def by (auto simp: pool_inv_def counts_ok_def caches_ok_def)
  have at1: "blocks_at contents s1 live (hand(k := deleted)) = (blocks_at contents s live hand)
           (P_hand k := blocks_at contents s live hand (P_hand k) - mset kept,
            P_free k := blocks_at contents s live hand (P_free k) + mset kept)"
    by (rule place_fun_eqI) (use e(1,3,4,6) hand in \<open>auto simp: s1_def\<close>)
  have inv1: "pool_inv contents s1 live (hand(k := deleted))"
  proof (rule pool_inv_move [OF inv _ _ at1])
    show "mset kept \<subseteq># blocks_at contents s live hand (P_hand k)"
      using e(1) hand by simp
    show "(a, block_size j) \<in> set (pool_heap s)" if "place_class (P_free k) = Some j" "a \<in> set kept" for j a
      using pool_inv_class [OF inv, of "P_hand k" k a] that e(1) hand by simp
  qed (use inv counts in \<open>auto simp: s1_def pool_inv_def\<close>)
  have "set deleted \<inter> fst ` set live = {}"
    using pool_inv_one_place [OF inv, of _ P_live "P_hand k"] e(1) hand by auto
  then show ?thesis
    by (intro pool_inv_delete [OF inv1, of deleted "P_hand k"])
      (auto simp: e(2) s1_def counts intro!: place_fun_eqI)
qed

section \<open>Every call keeps the invariant\<close>

lemma pool_inv_frame:
  assumes "pool_inv contents s live hand"
    "blocks_at contents s' live hand = blocks_at contents s live hand" "pool_heap s' = pool_heap s"
    "free_count s' = free_count s" "free_blocks s' = free_blocks s" "caches_ok s'"
  shows "pool_inv contents s' live hand"
  using assms unfolding pool_inv_def counts_ok_def by simp

lemma bump_stats_inv: "pool_inv contents (bump_stats f s) live hand \<longleftrightarrow> pool_inv contents s live hand"
proof -
  have "blocks_at contents (bump_stats f s) live hand = blocks_at contents s live hand"
    by (rule place_fun_eqI) (simp_all add: bump_stats_def)
  then show ?thesis
    by (simp add: pool_inv_def bump_stats_def counts_ok_def caches_ok_def)
qed

lemma current_cache_inv:
  assumes "pool_inv contents s live hand"
  shows "pool_inv contents (snd (current_cache tid s)) live hand"
    "fst (current_cache tid s) = t_cache (snd (current_cache tid s)) tid"
proof -
  have "blocks_at contents (snd (current_cache tid s)) live hand = blocks_at contents s live hand"
    by (rule place_fun_eqI) (auto simp: current_cache_def thread_cache_init_def split: option.split)
  then show "pool_inv contents (snd (current_cache tid s)) live hand"
    using assms
    by (intro pool_inv_frame [OF assms])
      (auto simp: current_cache_def pool_inv_def caches_ok_def thread_cache_init_def)
qed (simp add: current_cache_def Let_def)

lemma refill_inv:
  assumes env: "pool_env_ok env contents" and inv: "pool_inv contents s live hand"
    and tc: "t_cache s tid = Some tc" and r: "refill_cache env tid k (tc k) s = (c, s')"
    and k: "k < NUM_SIZE_CLASSES"
  shows "pool_inv contents (put_cache tid tc k c s') live hand"
proof (cases "cc_blocks (tc k) = []")
  case False
  then have "put_cache tid tc k c s' = s"
    using r tc by (auto simp: refill_cache_def put_cache_def fun_upd_idem)
  with inv show ?thesis by simp
next
  case True
  obtain bs q where d: "pe_dequeue env (Some tid) k_transfer_batch (free_blocks s k) = (bs, q)"
    by (cases "pe_dequeue env (Some tid) k_transfer_batch (free_blocks s k)") auto
  note dq = pool_env_dequeue [OF env d]
  have c: "c = tc k\<lparr>cc_blocks := bs, cc_consumer := True\<rparr>"
    "s' = sub_count k (of_nat (length bs)) (s\<lparr>free_blocks := (free_blocks s)(k := q)\<rparr>)"
    using r d True by (auto simp: refill_cache_def)
  have at: "blocks_at contents (put_cache tid tc k c s') live hand = (blocks_at contents s live hand)
      (P_free k := blocks_at contents s live hand (P_free k) - mset bs,
       P_cache tid k := blocks_at contents s live hand (P_cache tid k) + mset bs)"
    by (rule place_fun_eqI) (use tc dq True in \<open>auto simp: c put_cache_def sub_count_def\<close>)
  show ?thesis
  proof (rule pool_inv_move [OF inv _ _ at])
    show "(a, block_size j) \<in> set (pool_heap s)" if "place_class (P_cache tid k) = Some j" "a \<in> set bs" for j a
      using pool_inv_class [OF inv, of "P_free k" k a] that dq by simp
    show "counts_ok contents (put_cache tid tc k c s')"
      using inv dq by (auto simp: pool_inv_def counts_ok_def put_cache_def sub_count_def c)
    show "caches_ok (put_cache tid tc k c s')"
      using inv dq tc k
      by (auto simp: pool_inv_def caches_ok_def put_cache_def sub_count_def c k_transfer_batch_def k_cache_capacity_def)
  qed (use inv dq in \<open>auto simp: put_cache_def sub_count_def c pool_inv_def\<close>)
qed

lemma size_class_index_le: "sz \<le> MAX_POOLED_SIZE \<Longrightarrow> sz \<le> block_size (size_class_index sz)"
  by (simp add: size_class_index_def SIZE_CLASSES_def block_size_def MAX_POOLED_SIZE_def)

lemma size_class_index_less: "\<not> MAX_POOLED_SIZE < sz \<Longrightarrow> size_class_index sz < NUM_SIZE_CLASSES"
  by (simp add: size_class_index_def SIZE_CLASSES_def NUM_SIZE_CLASSES_def MAX_POOLED_SIZE_def linorder_not_less)

lemma pop_cache_inv:
  assumes inv: "pool_inv contents s live hand" and tc: "t_cache s tid = Some tc"
    and ne: "cc_blocks (tc k) \<noteq> []" and k: "k = size_class_index sz" "\<not> sz > MAX_POOLED_SIZE"
  shows "pool_inv contents (put_cache tid tc k (tc k\<lparr>cc_blocks := butlast (cc_blocks (tc k))\<rparr>) s)
           ((last (cc_blocks (tc k)), sz) # live) hand"
proof -
  let ?b = "cc_blocks (tc k)" and ?s' = "put_cache tid tc k (tc k\<lparr>cc_blocks := butlast (cc_blocks (tc k))\<rparr>) s"
  have split: "mset ?b = add_mset (last ?b) (mset (butlast ?b))"
    using ne by (metis append_butlast_last_id mset.simps(2) mset_append union_mset_add_mset_right add_0_right mset.simps(1))
  have at: "blocks_at contents ?s' ((last ?b, sz) # live) hand = (blocks_at contents s live hand)
      (P_cache tid k := blocks_at contents s live hand (P_cache tid k) - mset [last ?b],
       P_live := blocks_at contents s live hand P_live + mset [last ?b])"
    by (rule place_fun_eqI) (use tc split in \<open>auto simp: put_cache_def\<close>)
  have "(last ?b, block_size k) \<in> set (pool_heap s)"
    using pool_inv_class [OF inv, of "P_cache tid k" k "last ?b"] tc split by simp
  then have "live_ok ((last ?b, sz) # live) (pool_heap s)"
    using inv k by (auto simp: pool_inv_def live_ok_def capacity_def)
  with inv tc split show ?thesis
    by (intro pool_inv_move [OF inv _ _ at])
      (auto simp: put_cache_def pool_inv_def counts_ok_def caches_ok_def intro: le_trans [OF diff_le_self])
qed

lemma op_new_live_inv:
  assumes env: "pool_env_ok env contents" and inv: "pool_inv contents s live hand"
    and cap: "n = capacity sz"
  shows "pool_inv contents (snd (op_new env n s)) ((fst (op_new env n s), sz) # live) hand"
proof (rule pool_inv_new [OF inv env, where q = P_live])
  show "fst (op_new env n s) = pe_new env (pool_heap s) n"
    "pool_heap (snd (op_new env n s)) = (fst (op_new env n s), n) # pool_heap s"
    by (simp_all add: op_new_def Let_def)
  show "live_ok ((fst (op_new env n s), sz) # live) ((fst (op_new env n s), n) # pool_heap s)"
    using inv cap by (auto simp: live_ok_def pool_inv_def)
  show "blocks_at contents (snd (op_new env n s)) ((fst (op_new env n s), sz) # live) hand =
    (blocks_at contents s live hand)
      (P_live := blocks_at contents s live hand P_live + {#fst (op_new env n s)#})"
    by (rule place_fun_eqI) (simp_all add: op_new_def Let_def)
qed (use inv in \<open>auto simp: op_new_def Let_def pool_inv_def counts_ok_def caches_ok_def\<close>)

lemma pool_miss_inv:
  assumes "pool_env_ok env contents" "pool_inv contents s live hand"
    "k = size_class_index sz" "\<not> sz > MAX_POOLED_SIZE"
  shows "pool_inv contents (snd (pool_miss env k s)) ((fst (pool_miss env k s), sz) # live) hand"
  unfolding pool_miss_def
  by (rule op_new_live_inv) (use assms in \<open>auto simp: capacity_def bump_stats_inv\<close>)

lemma dequeue_one_inv:
  assumes env: "pool_env_ok env contents" and inv: "pool_inv contents s live hand"
    and d: "pe_dequeue env None 1 (free_blocks s k) = (b # bs, q)"
    and k: "k = size_class_index sz" "\<not> sz > MAX_POOLED_SIZE"
  shows "pool_inv contents (sub_count k 1 (s\<lparr>free_blocks := (free_blocks s)(k := q)\<rparr>)) ((b, sz) # live) hand"
    (is "pool_inv _ ?s' _ _")
proof -
  note dq = pool_env_dequeue [OF env d]
  have at: "blocks_at contents ?s' ((b, sz) # live) hand = (blocks_at contents s live hand)
      (P_free k := blocks_at contents s live hand (P_free k) - mset [b],
       P_live := blocks_at contents s live hand P_live + mset [b])"
    by (rule place_fun_eqI) (use dq in \<open>auto simp: sub_count_def\<close>)
  have "(b, block_size k) \<in> set (pool_heap s)"
    using pool_inv_class [OF inv, of "P_free k" k b] dq by simp
  then have "live_ok ((b, sz) # live) (pool_heap s)"
    using inv k by (auto simp: pool_inv_def live_ok_def capacity_def)
  then show ?thesis
    by (intro pool_inv_move [OF inv _ _ at])
      (use inv dq in \<open>auto simp: sub_count_def pool_inv_def counts_ok_def caches_ok_def\<close>)
qed

lemma dequeue_none_inv:
  assumes env: "pool_env_ok env contents" and inv: "pool_inv contents s live hand"
    and d: "pe_dequeue env None 1 (free_blocks s k) = ([], q)"
  shows "pool_inv contents (s\<lparr>free_blocks := (free_blocks s)(k := q)\<rparr>) live hand"
    (is "pool_inv _ ?s' _ _")
proof -
  have "blocks_at contents ?s' live hand = blocks_at contents s live hand"
    by (rule place_fun_eqI) (use pool_env_dequeue [OF env d] in auto)
  then show ?thesis
    using inv pool_env_dequeue [OF env d] by (simp add: pool_inv_def counts_ok_def caches_ok_def)
qed

lemma put_cache_cong:
  "put_cache tid tc k c (bump_stats f s) = bump_stats f (put_cache tid tc k c s)"
  "put_cache tid (tc(k := c')) k c (put_cache tid tc k c' s) = put_cache tid tc k c s"
  by (simp_all add: put_cache_def bump_stats_def)

lemma allocate_inv:
  assumes env: "pool_env_ok env contents" and inv: "pool_inv contents s live hand"
  shows "pool_inv contents (snd (allocate env tid sz s)) ((fst (allocate env tid sz s), sz) # live) hand"
proof (cases "sz > MAX_POOLED_SIZE")
  case True
  then show ?thesis
    using op_new_live_inv [OF env, of "bump_stats (heap_fallbacks_update (\<lambda>x. x + 1)) s" live hand sz sz] inv
    by (simp add: allocate_def bump_stats_inv capacity_def)
next
  case False
  let ?k = "size_class_index sz"
  obtain cache s1 where cc: "current_cache tid s = (cache, s1)" by (cases "current_cache tid s") auto
  have inv1: "pool_inv contents s1 live hand" and cache: "cache = t_cache s1 tid"
    using current_cache_inv [OF inv, of tid] cc by simp_all
  show ?thesis
  proof (cases cache)
    case None
    obtain bs q where d: "pe_dequeue env None 1 (free_blocks s1 ?k) = (bs, q)"
      by (cases "pe_dequeue env None 1 (free_blocks s1 ?k)") auto
    show ?thesis
    proof (cases bs)
      case Nil
      with False None cc d pool_miss_inv [OF env dequeue_none_inv [OF env inv1], where sz = sz] show ?thesis
        by (simp add: allocate_def Let_def)
    next
      case (Cons b rest)
      with False None cc d dequeue_one_inv [OF env inv1, of ?k b rest q sz] show ?thesis
        by (simp add: allocate_def Let_def bump_stats_inv)
    qed
  next
    case (Some tc)
    obtain c s2 where r: "refill_cache env tid ?k (tc ?k) s1 = (c, s2)"
      by (cases "refill_cache env tid ?k (tc ?k) s1") auto
    have inv2: "pool_inv contents (put_cache tid tc ?k c s2) live hand"
      using refill_inv [where tc = tc, OF env inv1 _ r] Some cache size_class_index_less [OF False] by simp
    have tc2: "t_cache (put_cache tid tc ?k c s2) tid = Some (tc(?k := c))"
      by (simp add: put_cache_def)
    show ?thesis
    proof (cases "cc_blocks c = []")
      case True
      with False Some cc r pool_miss_inv [OF env inv2, where k = ?k and sz = sz] show ?thesis
        by (simp add: allocate_def Let_def)
    next
      case ne: False
      with False Some cc r pop_cache_inv [OF inv2 tc2, where k = ?k and sz = sz] show ?thesis
        by (simp add: allocate_def Let_def put_cache_cong bump_stats_inv)
    qed
  qed
qed

text \<open>Freeing: the block goes from the program to the cache, or through \<open>release_to_shared\<close>.\<close>

lemma live_to_inv:
  assumes inv: "pool_inv contents s live hand" and mem: "(a, sz) \<in> set live"
    and k: "k = size_class_index sz" "\<not> sz > MAX_POOLED_SIZE" and q: "place_class q = Some k"
    and at: "blocks_at contents s' (remove1 (a, sz) live) hand' = (blocks_at contents s live hand)
        (P_live := blocks_at contents s live hand P_live - mset [a],
         q := blocks_at contents s live hand q + mset [a])"
    and rest: "pool_heap s' = pool_heap s" "counts_ok contents s'" "caches_ok s'"
  shows "pool_inv contents s' (remove1 (a, sz) live) hand'"
proof (rule pool_inv_move [OF inv _ _ at])
  show "mset [a] \<subseteq># blocks_at contents s live hand P_live" using mem by force
  show "P_live \<noteq> q" using q by auto
  show "(b, block_size j) \<in> set (pool_heap s)" if "place_class q = Some j" "b \<in> set [a]" for j b
    using inv mem that q k by (auto simp: pool_inv_def live_ok_def capacity_def)
  show "live_ok (remove1 (a, sz) live) (pool_heap s)"
    using inv by (auto simp: pool_inv_def live_ok_def dest: notin_set_remove1)
qed (use rest in auto)

lemma mset_fst_remove1:
  "(a, sz) \<in> set live \<Longrightarrow> image_mset fst (mset live - {#(a, sz)#}) = image_mset fst (mset live) - {#a#}"
  by (simp add: image_mset_Diff)

lemma push_cache_inv:
  assumes inv: "pool_inv contents s live hand" and tc: "t_cache s tid = Some tc"
    and room: "length (cc_blocks (tc k)) < k_cache_capacity" and mem: "(a, sz) \<in> set live"
    and k: "k = size_class_index sz" "\<not> sz > MAX_POOLED_SIZE"
  shows "pool_inv contents (put_cache tid tc k (tc k\<lparr>cc_blocks := cc_blocks (tc k) @ [a]\<rparr>) s)
           (remove1 (a, sz) live) hand"
proof (rule live_to_inv [OF inv mem k, where q = "P_cache tid k"])
  show "blocks_at contents (put_cache tid tc k (tc k\<lparr>cc_blocks := cc_blocks (tc k) @ [a]\<rparr>) s)
      (remove1 (a, sz) live) hand = (blocks_at contents s live hand)
        (P_live := blocks_at contents s live hand P_live - mset [a],
         P_cache tid k := blocks_at contents s live hand (P_cache tid k) + mset [a])"
    by (rule place_fun_eqI) (use tc mem in \<open>auto simp: put_cache_def mset_fst_remove1\<close>)
qed (use inv room tc size_class_index_less [OF k(2)] in
    \<open>auto simp: k(1) put_cache_def pool_inv_def counts_ok_def caches_ok_def\<close>)

lemma hand_over_inv:
  assumes inv: "pool_inv contents s live hand" and mem: "(a, sz) \<in> set live" and h: "hand k = []"
    and k: "k = size_class_index sz" "\<not> sz > MAX_POOLED_SIZE"
  shows "pool_inv contents s (remove1 (a, sz) live) (hand(k := [a]))"
proof (rule live_to_inv [OF inv mem k, where q = "P_hand k"])
  show "blocks_at contents s (remove1 (a, sz) live) (hand(k := [a])) = (blocks_at contents s live hand)
        (P_live := blocks_at contents s live hand P_live - mset [a],
         P_hand k := blocks_at contents s live hand (P_hand k) + mset [a])"
    by (rule place_fun_eqI) (use mem h in \<open>auto simp: mset_fst_remove1\<close>)
qed (use inv in \<open>auto simp: pool_inv_def\<close>)

lemma cache_to_hand_inv:
  assumes inv: "pool_inv contents s live hand" and tc: "t_cache s tid = Some tc" and h: "hand k = []"
    and split: "cc_blocks (tc k) = xs @ ys" and c: "cc_blocks c = xs"
  shows "pool_inv contents (put_cache tid tc k c s) live (hand(k := ys))"
proof -
  have at: "blocks_at contents (put_cache tid tc k c s) live (hand(k := ys)) = (blocks_at contents s live hand)
      (P_cache tid k := blocks_at contents s live hand (P_cache tid k) - mset ys,
       P_hand k := blocks_at contents s live hand (P_hand k) + mset ys)"
    by (rule place_fun_eqI) (use tc split c h in \<open>auto simp: put_cache_def\<close>)
  have "length (xs @ ys) \<le> k_cache_capacity" "NUM_SIZE_CLASSES \<le> k \<longrightarrow> xs @ ys = []"
    using inv tc unfolding pool_inv_def caches_ok_def split [symmetric] by blast+
  then have len: "length xs \<le> k_cache_capacity" "NUM_SIZE_CLASSES \<le> k \<longrightarrow> xs = []" by auto
  show ?thesis
  proof (rule pool_inv_move [OF inv _ _ at])
    show "(a, block_size j) \<in> set (pool_heap s)" if "place_class (P_hand k) = Some j" "a \<in> set ys" for j a
      using pool_inv_class [OF inv, of "P_cache tid k" k a] that tc split by simp
    show "caches_ok (put_cache tid tc k c s)"
      using inv tc len c by (auto simp: pool_inv_def caches_ok_def put_cache_def)
  qed (use inv tc split in \<open>auto simp: put_cache_def pool_inv_def counts_ok_def\<close>)
qed

lemma pool_inv_live_distinct:
  assumes "pool_inv contents s live hand"
  shows "distinct (map fst live)"
  using partitioned_distinct [of "blocks_at contents s live hand" "fst ` set (pool_heap s)" P_live] assms
  by (simp add: pool_inv_def)

lemma op_delete_live_inv:
  assumes inv: "pool_inv contents s live hand" and mem: "(a, sz) \<in> set live"
  shows "pool_inv contents (op_delete a s) (remove1 (a, sz) live) hand"
proof -
  have "distinct (map fst live)" by (rule pool_inv_live_distinct [OF inv])
  then have "a \<notin> fst ` set (remove1 (a, sz) live)"
    using mem by (induction live) force+
  moreover have "a \<in> fst ` set live" using mem by force
  ultimately show ?thesis
    by (intro pool_inv_delete [OF inv, of "[a]" P_live])
      (use inv mem in \<open>auto simp: op_delete_def mset_fst_remove1 pool_inv_def counts_ok_def caches_ok_def
        intro!: place_fun_eqI dest: notin_set_remove1\<close>)
qed

abbreviation no_hand :: "nat \<Rightarrow> addr list" where
  "no_hand \<equiv> \<lambda>_. []"

text \<open>A full cache first gives a batch back.\<close>

lemma spill_inv:
  fixes tc k defines "n \<equiv> length (cc_blocks (tc k)) - k_transfer_batch"
  defines "c \<equiv> tc k\<lparr>cc_blocks := take n (cc_blocks (tc k)), cc_producer := True\<rparr>"
  assumes env: "pool_env_ok env contents" and inv: "pool_inv contents s live no_hand" and tc: "t_cache s tid = Some tc"
    and full: "length (cc_blocks (tc k)) = k_cache_capacity"
  shows "pool_inv contents (release_to_shared env k (drop n (cc_blocks (tc k))) (Some tid) (put_cache tid tc k c s)) live no_hand"
    "t_cache (release_to_shared env k (drop n (cc_blocks (tc k))) (Some tid) (put_cache tid tc k c s)) tid = Some (tc(k := c))"
proof -
  have "pool_inv contents (put_cache tid tc k c s) live (no_hand(k := drop n (cc_blocks (tc k))))"
    by (rule cache_to_hand_inv [OF inv tc]) (simp_all add: c_def)
  from release_inv [OF env this, of k "drop n (cc_blocks (tc k))" "Some tid"]
  show "pool_inv contents (release_to_shared env k (drop n (cc_blocks (tc k))) (Some tid) (put_cache tid tc k c s)) live no_hand"
    using full by (simp add: n_def k_cache_capacity_def k_transfer_batch_def fun_upd_idem)
  show "t_cache (release_to_shared env k (drop n (cc_blocks (tc k))) (Some tid) (put_cache tid tc k c s)) tid = Some (tc(k := c))"
    by (rule release_effect [OF env, where k = k and s = "put_cache tid tc k c s" and pr = "Some tid" and blocks = "drop n (cc_blocks (tc k))"])
      (use full in \<open>auto simp: put_cache_def n_def k_cache_capacity_def k_transfer_batch_def\<close>)
qed

lemma deallocate_inv:
  assumes env: "pool_env_ok env contents" and inv: "pool_inv contents s live no_hand"
    and mem: "(a, sz) \<in> set live"
  shows "pool_inv contents (deallocate env tid a sz s) (remove1 (a, sz) live) no_hand"
proof -
  have nz: "a \<noteq> 0"
    using inv mem by (force simp: pool_inv_def live_ok_def heap_ok_def)
  show ?thesis
  proof (cases "sz > MAX_POOLED_SIZE")
    case True
    with nz op_delete_live_inv [OF inv mem] show ?thesis by (simp add: deallocate_def)
  next
    case False
    define k where "k = size_class_index sz"
    obtain cache s1 where cc: "current_cache tid s = (cache, s1)" by (cases "current_cache tid s") auto
    have inv1: "pool_inv contents s1 live no_hand" and cache: "cache = t_cache s1 tid"
      using current_cache_inv [OF inv, of tid] cc by simp_all
    show ?thesis
    proof (cases cache)
      case None
      have "pool_inv contents s1 (remove1 (a, sz) live) (no_hand(k := [a]))"
        by (rule hand_over_inv [OF inv1 mem]) (use False in \<open>simp_all add: k_def\<close>)
      from release_inv [OF env this, of k "[a]" None] None nz False cc show ?thesis
        by (simp add: deallocate_def k_def fun_upd_idem)
    next
      case (Some tc)
      have tc: "t_cache s1 tid = Some tc" using Some cache by simp
      show ?thesis
      proof (cases "length (cc_blocks (tc k)) = k_cache_capacity")
        case full: True
        note spill = spill_inv [OF env inv1 tc full]
        from push_cache_inv [OF spill, of k a sz] full mem nz False Some cc show ?thesis
          by (simp add: deallocate_def Let_def k_def put_cache_def k_cache_capacity_def k_transfer_batch_def)
      next
        case room: False
        then have "length (cc_blocks (tc k)) < k_cache_capacity"
          using inv1 tc by (simp add: pool_inv_def caches_ok_def le_neq_implies_less)
        from push_cache_inv [OF inv1 tc this mem] room nz False Some cc show ?thesis
          by (simp add: deallocate_def Let_def k_def)
      qed
    qed
  qed
qed

lemma new_block_hand_inv:
  assumes env: "pool_env_ok env contents" and inv: "pool_inv contents s live (hand(k := xs))"
  shows "pool_inv contents (snd (op_new env (block_size k) s)) live
           (hand(k := xs @ [fst (op_new env (block_size k) s)]))"
proof (rule pool_inv_new [OF inv env, where q = "P_hand k" and n = "block_size k"])
  let ?r = "op_new env (block_size k) s"
  show "fst ?r = pe_new env (pool_heap s) (block_size k)"
    "pool_heap (snd ?r) = (fst ?r, block_size k) # pool_heap s"
    by (simp_all add: op_new_def Let_def)
  show "blocks_at contents (snd ?r) live (hand(k := xs @ [fst ?r])) =
    (blocks_at contents s live (hand(k := xs)))
      (P_hand k := blocks_at contents s live (hand(k := xs)) (P_hand k) + {#fst ?r#})"
    by (rule place_fun_eqI) (simp_all add: op_new_def Let_def)
  show "live_ok live ((fst ?r, block_size k) # pool_heap s)"
    using inv by (auto simp: pool_inv_def live_ok_def)
qed (use inv in \<open>auto simp: op_new_def Let_def pool_inv_def counts_ok_def caches_ok_def\<close>)

lemma new_blocks_inv:
  assumes env: "pool_env_ok env contents" and inv: "pool_inv contents s live (hand(k := xs))"
  shows "pool_inv contents (snd (new_blocks env (block_size k) n s)) live
           (hand(k := xs @ fst (new_blocks env (block_size k) n s)))
         \<and> length (fst (new_blocks env (block_size k) n s)) = n"
  using inv
proof (induction n arbitrary: s xs)
  case 0
  then show ?case by simp
next
  case (Suc n)
  note inv1 = new_block_hand_inv [OF env Suc.prems]
  show ?case
    using Suc.IH [OF inv1] by (simp add: case_prod_beta Let_def)
qed

lemma prewarm_class_inv:
  assumes env: "pool_env_ok env contents" and inv: "pool_inv contents s live no_hand"
  shows "pool_inv contents (prewarm_class env k n s) live no_hand"
  using inv
proof (induction n arbitrary: s rule: less_induct)
  case (less n)
  show ?case
  proof (cases "n = 0")
    case True
    with less.prems show ?thesis by (simp add: prewarm_class.simps)
  next
    case False
    let ?m = "min n k_transfer_batch"
    let ?r = "new_blocks env (block_size k) ?m s"
    have "pool_inv contents s live (no_hand(k := []))"
      using less.prems by (simp add: fun_upd_idem)
    from new_blocks_inv [OF env this, of ?m]
    have "pool_inv contents (snd ?r) live (no_hand(k := fst ?r))" "length (fst ?r) = ?m" by simp_all
    from release_inv [OF env this(1), of k "fst ?r" None] this(2)
    have "pool_inv contents (release_to_shared env k (fst ?r) None (snd ?r)) live no_hand"
      by (simp add: k_transfer_batch_def fun_upd_idem)
    with less.IH [of "n - ?m"] False show ?thesis
      by (subst prewarm_class.simps) (simp add: case_prod_beta Let_def k_transfer_batch_def)
  qed
qed

lemma prewarm_inv:
  assumes "pool_env_ok env contents" "pool_inv contents s live no_hand"
  shows "pool_inv contents (prewarm env n s) live no_hand"
proof -
  have "pool_inv contents (fold (\<lambda>k. prewarm_class env k m) ks s) live no_hand" for m ks
    using assms(2) by (induction ks arbitrary: s) (simp_all add: prewarm_class_inv [OF assms(1)])
  then show ?thesis by (simp add: prewarm_def)
qed

text \<open>Thread exit: the caches of all classes are in hand, then flushed one class after the other.\<close>

lemma flush_classes_inv:
  assumes env: "pool_env_ok env contents" and short: "\<And>k. length (cc_blocks (tc k)) \<le> k_cache_capacity"
    and inv: "pool_inv contents s live (\<lambda>k. if k \<in> set ks then cc_blocks (tc k) else [])" and "distinct ks"
  shows "pool_inv contents (fold (flush_class env tid tc) ks s) live no_hand"
  using inv \<open>distinct ks\<close>
proof (induction ks arbitrary: s)
  case Nil
  then show ?case by simp
next
  case (Cons k ks)
  let ?hand = "\<lambda>j. if j \<in> set (k # ks) then cc_blocks (tc j) else []"
  have h: "?hand(k := []) = (\<lambda>j. if j \<in> set ks then cc_blocks (tc j) else [])"
    using Cons.prems(2) by (auto simp: fun_eq_iff)
  have "length (cc_blocks (tc k)) < 2 ^ 64"
    using short [of k] by (simp add: k_cache_capacity_def)
  then have "pool_inv contents (flush_class env tid tc k s) live (?hand(k := []))"
    using release_inv [OF env Cons.prems(1), of k "cc_blocks (tc k)"] Cons.prems(1)
    by (simp add: flush_class_def fun_upd_idem)
  with Cons.IH Cons.prems(2) h show ?case by simp
qed

fun swap_place :: "thread_id \<Rightarrow> place \<Rightarrow> place" where
  "swap_place t (P_hand k) = P_cache t k"
| "swap_place t (P_cache u k) = (if t = u then P_hand k else P_cache u k)"
| "swap_place t p = p"

lemma swap_place_swap [simp]: "swap_place t (swap_place t p) = p"
  by (cases p) auto

lemma partitioned_swap:
  assumes "partitioned B H"
  shows "partitioned (\<lambda>p. B (swap_place t p)) H"
proof -
  from assms obtain own where own: "dom own = H"
    "\<forall>p a. count (B p) a = (if own a = Some p then 1 else 0)"
    unfolding partitioned_def by blast
  have "map_option (swap_place t) (own a) = Some p \<longleftrightarrow> own a = Some (swap_place t p)" for a p
    by (cases "own a") auto
  with own show ?thesis
    unfolding partitioned_def
    by (intro exI [of _ "\<lambda>a. map_option (swap_place t) (own a)"]) (auto simp: dom_def)
qed

lemma thread_exit_inv:
  assumes env: "pool_env_ok env contents" and inv: "pool_inv contents s live no_hand"
  shows "pool_inv contents (thread_cache_release env tid s) live no_hand"
proof -
  let ?s1 = "s\<lparr>t_cache := (t_cache s)(tid := None), t_cache_released := (t_cache_released s)(tid := True)\<rparr>"
  let ?hand = "\<lambda>k. case t_cache s tid of None \<Rightarrow> [] | Some tc \<Rightarrow> cc_blocks (tc k)"
  have at: "blocks_at contents ?s1 live ?hand = (\<lambda>p. blocks_at contents s live no_hand (swap_place tid p))"
    by (rule place_fun_eqI) (auto split: option.split)
  have pc: "place_class (swap_place tid p) = place_class p" for p by (cases p) auto
  have "classes_ok (blocks_at contents ?s1 live ?hand) (pool_heap s)"
    using inv unfolding at pool_inv_def classes_ok_def by (metis pc)
  then have inv1: "pool_inv contents ?s1 live ?hand"
    using inv partitioned_swap [of "blocks_at contents s live no_hand" _ tid] at
    by (simp add: pool_inv_def counts_ok_def caches_ok_def)
  show ?thesis
  proof (cases "t_cache s tid")
    case None
    with inv1 show ?thesis by (simp add: thread_cache_release_def)
  next
    case (Some tc)
    have short: "length (cc_blocks (tc k)) \<le> k_cache_capacity" "NUM_SIZE_CLASSES \<le> k \<Longrightarrow> cc_blocks (tc k) = []" for k
      using inv Some by (simp_all add: pool_inv_def caches_ok_def)
    have "?hand = (\<lambda>k. if k \<in> set [0..<NUM_SIZE_CLASSES] then cc_blocks (tc k) else [])"
      using short(2) Some by (auto simp: fun_eq_iff)
    with inv1 have "pool_inv contents ?s1 live
        (\<lambda>k. if k \<in> set [0..<NUM_SIZE_CLASSES] then cc_blocks (tc k) else [])" by simp
    from flush_classes_inv [OF env short(1) this] Some show ?thesis
      by (simp add: thread_cache_release_def)
  qed
qed

section \<open>Threads at work\<close>

record 'q pool_world =
  pw_pool :: "'q pool_state"
  pw_hdr :: "addr \<Rightarrow> size_t"
  pw_live :: "(addr \<times> size_t) list"

definition pool_world_init :: "('q \<Rightarrow> addr multiset) \<Rightarrow> 'q pool_world \<Rightarrow> bool" where
  "pool_world_init contents w \<longleftrightarrow> (\<exists>q0. contents q0 = {#} \<and> pw_pool w = pool_init q0) \<and> pw_live w = []"

inductive pool_step :: "'q pool_env \<Rightarrow> 'q pool_world \<Rightarrow> 'q pool_world \<Rightarrow> bool" for env where
  ps_new: "unat sz + unat HEADER_OVERHEAD < 2 ^ 64 \<Longrightarrow>
    message_new env tid sz (pw_pool w) (pw_hdr w) = (ptr, s, hdr) \<Longrightarrow>
    pool_step env w (w\<lparr>pw_pool := s, pw_hdr := hdr,
      pw_live := (ptr - unat HEADER_OVERHEAD, HEADER_OVERHEAD + sz) # pw_live w\<rparr>)"
| ps_delete: "(raw, tot) \<in> set (pw_live w) \<Longrightarrow>
    pool_step env w (w\<lparr>pw_pool := message_delete env tid (raw + unat HEADER_OVERHEAD) (pw_pool w) (pw_hdr w),
      pw_live := remove1 (raw, tot) (pw_live w)\<rparr>)"
| ps_write: "(raw, tot) \<in> set (pw_live w) \<Longrightarrow> raw + unat HEADER_OVERHEAD \<le> x \<Longrightarrow> x < raw + unat tot \<Longrightarrow>
    pool_step env w (w\<lparr>pw_hdr := user_write x v (pw_hdr w)\<rparr>)"
| ps_prewarm: "pool_step env w (w\<lparr>pw_pool := prewarm env n (pw_pool w)\<rparr>)"
| ps_thread_exit: "pool_step env w (w\<lparr>pw_pool := thread_cache_release env tid (pw_pool w)\<rparr>)"
| ps_set_max: "pool_step env w (w\<lparr>pw_pool := set_max_pool_size n (pw_pool w)\<rparr>)"
| ps_reset: "pool_step env w (w\<lparr>pw_pool := reset_stats (pw_pool w)\<rparr>)"

definition headers_ok :: "(addr \<times> size_t) list \<Rightarrow> (addr \<Rightarrow> size_t) \<Rightarrow> bool" where
  "headers_ok live hdr \<longleftrightarrow> (\<forall>(a, tot) \<in> set live. hdr a = tot \<and> 16 \<le> unat tot)"

definition pool_world_inv :: "('q \<Rightarrow> addr multiset) \<Rightarrow> 'q pool_world \<Rightarrow> bool" where
  "pool_world_inv contents w \<longleftrightarrow>
     pool_inv contents (pw_pool w) (pw_live w) no_hand \<and> headers_ok (pw_live w) (pw_hdr w)"

lemma HEADER_OVERHEAD_16: "HEADER_OVERHEAD = 16"
  by (simp add: HEADER_OVERHEAD_def POOLED_ALIGNMENT_def)

lemma unat_header [simp]: "unat HEADER_OVERHEAD = 16"
  by (simp add: HEADER_OVERHEAD_16)

lemma capacity_ge: "sz \<le> capacity sz"
  by (simp add: capacity_def size_class_index_le linorder_not_less)

lemma live_apart:
  assumes inv: "pool_inv contents s live no_hand"
    and mem: "(a, t) \<in> set live" "(b, u) \<in> set live" "a \<noteq> b"
  shows "a + unat t \<le> b \<or> b + unat u \<le> a"
proof -
  have "(a, capacity t) \<in> set (pool_heap s)" "(b, capacity u) \<in> set (pool_heap s)"
    using inv mem by (auto simp: pool_inv_def live_ok_def)
  then have "apart (a, capacity t) (b, capacity u)"
    using inv mem(3) unfolding pool_inv_def heap_ok_def by blast
  then show ?thesis
    using capacity_ge [of t] capacity_ge [of u] by (auto simp: apart_def word_le_nat_alt)
qed

lemma live_unique:
  assumes "pool_inv contents s live hand" "(a, t) \<in> set live" "(a, u) \<in> set live"
  shows "t = u"
  using pool_inv_live_distinct [OF assms(1)] assms(2,3) by (metis eq_key_imp_eq_value)

lemma user_write_headers:
  assumes inv: "pool_inv contents s live no_hand" and ok: "headers_ok live hdr"
    and mem: "(raw, tot) \<in> set live" "raw + 16 \<le> x" "x < raw + unat tot"
  shows "headers_ok live (user_write x v hdr)"
proof -
  have "\<not> (b \<le> x \<and> x < b + 8)" if b: "(b, u) \<in> set live" for b u
  proof (cases "b = raw")
    case False
    then have "raw + unat tot \<le> b \<or> b + unat u \<le> raw" "16 \<le> unat u"
      using live_apart [OF inv mem(1) b] ok b by (auto simp: headers_ok_def)
    with mem show ?thesis by linarith
  qed (use mem in auto)
  with ok show ?thesis by (auto simp: headers_ok_def user_write_def)
qed

lemma headers_ok_subset: "headers_ok live hdr \<Longrightarrow> set live' \<subseteq> set live \<Longrightarrow> headers_ok live' hdr"
  by (auto simp: headers_ok_def)

lemma pool_step_inv:
  assumes env: "pool_env_ok env contents" and inv: "pool_world_inv contents w" and st: "pool_step env w w'"
  shows "pool_world_inv contents w'"
proof -
  have pinv: "pool_inv contents (pw_pool w) (pw_live w) no_hand" and hdr: "headers_ok (pw_live w) (pw_hdr w)"
    using inv by (auto simp: pool_world_inv_def)
  from st show ?thesis
  proof cases
    case (ps_new sz tid ptr s hdr')
    obtain raw s1 where al: "allocate env tid (HEADER_OVERHEAD + sz) (pw_pool w) = (raw, s1)"
      by (cases "allocate env tid (HEADER_OVERHEAD + sz) (pw_pool w)") auto
    have r: "ptr = raw + 16" "s = s1" "hdr' = (pw_hdr w)(raw := HEADER_OVERHEAD + sz)"
      using ps_new(3) al by (auto simp: message_new_def Let_def)
    have inv': "pool_inv contents s1 ((raw, HEADER_OVERHEAD + sz) # pw_live w) no_hand"
      using allocate_inv [OF env pinv, of tid "HEADER_OVERHEAD + sz"] al by simp
    have "16 \<le> unat (HEADER_OVERHEAD + sz)"
      using ps_new(2) by (simp add: unat_word_ariths HEADER_OVERHEAD_16)
    moreover have "raw \<notin> fst ` set (pw_live w)"
      using pool_inv_live_distinct [OF inv'] by simp
    ultimately have "headers_ok ((raw, HEADER_OVERHEAD + sz) # pw_live w) hdr'"
      using hdr unfolding r headers_ok_def by force
    with inv' show ?thesis by (simp add: ps_new(1) r pool_world_inv_def)
  next
    case (ps_delete raw tot tid)
    have "message_delete env tid (raw + 16) (pw_pool w) (pw_hdr w) = deallocate env tid raw tot (pw_pool w)"
      using hdr ps_delete(2) by (auto simp: message_delete_def headers_ok_def)
    moreover have "headers_ok (remove1 (raw, tot) (pw_live w)) (pw_hdr w)"
      using headers_ok_subset [OF hdr set_remove1_subset] .
    ultimately show ?thesis
      using deallocate_inv [OF env pinv ps_delete(2), of tid] by (simp add: ps_delete(1) pool_world_inv_def)
  next
    case (ps_write raw tot x v)
    with user_write_headers [OF pinv hdr ps_write(2)] pinv show ?thesis
      by (simp add: pool_world_inv_def)
  next
    case (ps_prewarm n)
    with prewarm_inv [OF env pinv] hdr show ?thesis by (simp add: pool_world_inv_def)
  next
    case (ps_thread_exit tid)
    with thread_exit_inv [OF env pinv] hdr show ?thesis by (simp add: pool_world_inv_def)
  next
    case (ps_set_max n)
    have "blocks_at contents (set_max_pool_size n (pw_pool w)) (pw_live w) no_hand =
        blocks_at contents (pw_pool w) (pw_live w) no_hand"
      by (rule place_fun_eqI) (simp_all add: set_max_pool_size_def)
    with pinv hdr show ?thesis
      by (simp add: ps_set_max pool_world_inv_def pool_inv_def set_max_pool_size_def counts_ok_def caches_ok_def)
  next
    case ps_reset
    have "reset_stats (pw_pool w) = bump_stats (\<lambda>_. pool_stats_of (reset_stats (pw_pool w))) (pw_pool w)"
      by (simp add: bump_stats_def reset_stats_def)
    then have "pool_inv contents (reset_stats (pw_pool w)) (pw_live w) no_hand"
      using pinv bump_stats_inv by metis
    with hdr show ?thesis by (simp add: ps_reset pool_world_inv_def)
  qed
qed

lemma pool_init_inv: "contents q0 = {#} \<Longrightarrow> pool_inv contents (pool_init q0) [] no_hand"
proof -
  assume q0: "contents q0 = {#}"
  have "blocks_at contents (pool_init q0) [] no_hand = (\<lambda>_. {#})"
    by (rule place_fun_eqI) (simp_all add: pool_init_def q0)
  then show ?thesis
    by (auto simp: pool_inv_def pool_init_def partitioned_def heap_ok_def classes_ok_def live_ok_def
        counts_ok_def caches_ok_def q0 intro: exI [of _ Map.empty])
qed

lemma reachable_pool_inv:
  assumes "pool_env_ok env contents" "reachable (pool_world_init contents) (pool_step env) w"
  shows "pool_world_inv contents w"
  using assms(2)
proof (induction rule: reachable.induct)
  case (reachable_init s)
  then show ?case
    by (auto simp: pool_world_init_def pool_world_inv_def pool_init_inv headers_ok_def)
next
  case (reachable_step s t)
  then show ?case using pool_step_inv [OF assms(1)] by blast
qed

section \<open>Properties\<close>

text \<open>
  Property C11. No block is ever handed out twice, lost or too small: under every interleaving of threads
  that create, write and destroy messages, prewarm, exit and change the cap, the blocks of live
  messages are distinct and do not overlap, each is large enough for the size asked, is in no
  thread's cache and in no free list, and its size header is intact although programs write to
  their messages; and every heap block is live, cached or in a free list, so none leaks.
\<close>

theorem pool_ownership:
  assumes "pool_env_ok env contents" "reachable (pool_world_init contents) (pool_step env) w"
  shows "distinct (map fst (pw_live w))
    \<and> (\<forall>(a, t) \<in> set (pw_live w). \<forall>(b, u) \<in> set (pw_live w). a \<noteq> b \<longrightarrow> a + unat t \<le> b \<or> b + unat u \<le> a)
    \<and> (\<forall>(a, t) \<in> set (pw_live w). (\<exists>c \<ge> t. (a, c) \<in> set (pool_heap (pw_pool w))) \<and> pw_hdr w a = t
         \<and> (\<forall>tid tc k. t_cache (pw_pool w) tid = Some tc \<longrightarrow> a \<notin> set (cc_blocks (tc k)))
         \<and> (\<forall>k. a \<notin># contents (free_blocks (pw_pool w) k)))
    \<and> (\<forall>b \<in> set (pool_heap (pw_pool w)). fst b \<in> fst ` set (pw_live w)
         \<or> (\<exists>tid tc k. t_cache (pw_pool w) tid = Some tc \<and> fst b \<in> set (cc_blocks (tc k)))
         \<or> (\<exists>k. fst b \<in># contents (free_blocks (pw_pool w) k)))"
proof (intro conjI)
  let ?B = "blocks_at contents (pw_pool w) (pw_live w) no_hand"
  have inv: "pool_inv contents (pw_pool w) (pw_live w) no_hand" and hdr: "headers_ok (pw_live w) (pw_hdr w)"
    using reachable_pool_inv [OF assms] by (auto simp: pool_world_inv_def)
  show "distinct (map fst (pw_live w))" by (rule pool_inv_live_distinct [OF inv])
  show "\<forall>(a, t) \<in> set (pw_live w). \<forall>(b, u) \<in> set (pw_live w). a \<noteq> b \<longrightarrow> a + unat t \<le> b \<or> b + unat u \<le> a"
    using live_apart [OF inv] by blast
  have "(\<exists>c \<ge> t. (a, c) \<in> set (pool_heap (pw_pool w))) \<and> pw_hdr w a = t
      \<and> (\<forall>tid tc k. t_cache (pw_pool w) tid = Some tc \<longrightarrow> a \<notin> set (cc_blocks (tc k)))
      \<and> (\<forall>k. a \<notin># contents (free_blocks (pw_pool w) k))" if mem: "(a, t) \<in> set (pw_live w)" for a t
  proof (intro conjI allI impI)
    have live: "a \<in># ?B P_live" using mem by force
    show "\<exists>c \<ge> t. (a, c) \<in> set (pool_heap (pw_pool w))"
      using inv mem capacity_ge [of t] by (auto simp: pool_inv_def live_ok_def)
    show "pw_hdr w a = t" using hdr mem by (auto simp: headers_ok_def)
    show "a \<notin> set (cc_blocks (tc k))" if "t_cache (pw_pool w) tid = Some tc" for tid tc k
      using pool_inv_one_place [OF inv live, of "P_cache tid k"] that by auto
    show "a \<notin># contents (free_blocks (pw_pool w) k)" for k
      using pool_inv_one_place [OF inv live, of "P_free k"] by auto
  qed
  then show "\<forall>(a, t) \<in> set (pw_live w). (\<exists>c \<ge> t. (a, c) \<in> set (pool_heap (pw_pool w))) \<and> pw_hdr w a = t
         \<and> (\<forall>tid tc k. t_cache (pw_pool w) tid = Some tc \<longrightarrow> a \<notin> set (cc_blocks (tc k)))
         \<and> (\<forall>k. a \<notin># contents (free_blocks (pw_pool w) k))"
    by blast
  show "\<forall>b \<in> set (pool_heap (pw_pool w)). fst b \<in> fst ` set (pw_live w)
         \<or> (\<exists>tid tc k. t_cache (pw_pool w) tid = Some tc \<and> fst b \<in> set (cc_blocks (tc k)))
         \<or> (\<exists>k. fst b \<in># contents (free_blocks (pw_pool w) k))"
  proof
    fix b assume "b \<in> set (pool_heap (pw_pool w))"
    then have "\<exists>p. fst b \<in># ?B p"
      using inv partitioned_covers [of ?B "fst ` set (pool_heap (pw_pool w))" "fst b"]
      by (simp add: pool_inv_def)
    then obtain p where p: "fst b \<in># ?B p" ..
    then show "fst b \<in> fst ` set (pw_live w)
         \<or> (\<exists>tid tc k. t_cache (pw_pool w) tid = Some tc \<and> fst b \<in> set (cc_blocks (tc k)))
         \<or> (\<exists>k. fst b \<in># contents (free_blocks (pw_pool w) k))"
      by (cases p) (auto split: option.splits)
  qed
qed

text \<open>
  Fact. The cap holds: with a cap of \<open>m > 0\<close> blocks per class and a free list that holds at most \<open>m\<close>
  blocks, counted exactly, releasing a batch leaves at most \<open>m\<close> blocks in the list, counted exactly,
  and every block of the batch is in the list or back in the heap.
\<close>

theorem release_respects_cap:
  assumes "pool_env_ok env contents" "0 < max_blocks_per_class s"
    "free_count s k = of_nat (size (contents (free_blocks s k)))"
    "size (contents (free_blocks s k)) \<le> unat (max_blocks_per_class s)"
    "unat (max_blocks_per_class s) + length blocks < 2 ^ 64"
    "s' = release_to_shared env k blocks producer s"
  shows "size (contents (free_blocks s' k)) \<le> unat (max_blocks_per_class s)
    \<and> free_count s' k = of_nat (size (contents (free_blocks s' k)))
    \<and> (\<forall>b \<in> set blocks. b \<in># contents (free_blocks s' k) \<or> b \<notin> fst ` set (pool_heap s'))"
proof -
  have len: "length blocks < 2 ^ 64" using assms(5) by simp
  obtain kept deleted where e: "mset blocks = mset kept + mset deleted"
    "pool_heap s' = filter (\<lambda>b. fst b \<notin> set deleted) (pool_heap s)"
    "contents (free_blocks s' k) = contents (free_blocks s k) + mset kept"
    "free_count s' = (free_count s)(k := free_count s k + of_nat (length kept))"
    "kept = [] \<or> max_blocks_per_class s = 0
       \<or> unat (free_count s k) + length kept \<le> unat (max_blocks_per_class s)
       \<or> 2 ^ 64 \<le> unat (free_count s k) + length blocks"
    unfolding assms(6)
    by (rule release_effect [OF assms(1) len, where k = k and pr = producer and s = s]) blast
  have c: "unat (free_count s k) = size (contents (free_blocks s k))"
    using assms(3-5) by (simp add: unat_of_nat_64)
  have "set blocks = set kept \<union> set deleted"
    using e(1) by (metis set_mset_mset set_mset_union)
  with e c assms(2-5) show ?thesis by auto
qed

text \<open>
  Fact. The compile-time helpers agree with the allocator: for every payload whose size with header
  does not wrap, \<open>size_class_for_payload\<close> is the size of the block \<open>operator new\<close> will use, or 0 exactly
  when the message bypasses the pool; and a payload within \<open>max_payload_for_class\<close> of a size class
  never lands in a larger class.
\<close>

theorem size_classes_agree:
  assumes "unat n + unat HEADER_OVERHEAD < 2 ^ 64"
  shows "size_class_for_payload n =
      (if HEADER_OVERHEAD + n > MAX_POOLED_SIZE then 0 else block_size (size_class_index (HEADER_OVERHEAD + n)))
    \<and> (c \<in> set SIZE_CLASSES \<and> n \<le> max_payload_for_class c \<longrightarrow>
        0 < size_class_for_payload n \<and> size_class_for_payload n \<le> c)"
proof
  show "size_class_for_payload n =
      (if HEADER_OVERHEAD + n > MAX_POOLED_SIZE then 0 else block_size (size_class_index (HEADER_OVERHEAD + n)))"
    by (auto simp: size_class_for_payload_def size_class_index_def SIZE_CLASSES_def block_size_def
        MAX_POOLED_SIZE_def add.commute linorder_not_less)
  have u: "unat (n + 16) = unat n + 16"
    using assms by (simp add: unat_word_ariths)
  have "c \<in> {64, 128, 256, 512, 1024} \<Longrightarrow> n \<le> c - 16 \<Longrightarrow> unat n + 16 \<le> unat c"
    by (auto simp: word_le_nat_alt)
  then show "c \<in> set SIZE_CLASSES \<and> n \<le> max_payload_for_class c \<longrightarrow>
        0 < size_class_for_payload n \<and> size_class_for_payload n \<le> c"
    by (auto simp: size_class_for_payload_def max_payload_for_class_def HEADER_OVERHEAD_16
        SIZE_CLASSES_def MAX_POOLED_SIZE_def word_le_nat_alt word_less_nat_alt u)
qed

section \<open>Witnesses\<close>

text \<open>A concrete environment: a first-in first-out list as free list, and a heap that grows upwards.\<close>

definition fifo_env :: "addr list pool_env" where
  "fifo_env = \<lparr>pe_new = (\<lambda>h n. Suc (sum_list (map (\<lambda>b. fst b + unat (snd b)) h))),
     pe_enqueue = (\<lambda>p bs q. (True, q @ bs)), pe_dequeue = (\<lambda>p n q. (take n q, drop n q))\<rparr>"

lemma fifo_env_ok: "pool_env_ok fifo_env mset"
proof -
  have le: "fst b + unat (snd b) \<le> sum_list (map (\<lambda>b. fst b + unat (snd b)) h)" if "b \<in> set h" for b and h :: heap
    using that by (induction h) auto
  have fresh: "pe_new fifo_env h n \<notin> fst ` set h" for h n
  proof
    assume "pe_new fifo_env h n \<in> fst ` set h"
    then obtain b where "b \<in> set h" "fst b = pe_new fifo_env h n" by auto
    with le [of b h] show False by (simp add: fifo_env_def)
  qed
  have "apart (pe_new fifo_env h n, n) b" if "b \<in> set h" for h n b
    using le [OF that] by (simp add: apart_def fifo_env_def)
  moreover have "mset q = mset (drop n q) + mset (take n q)" for n and q :: "addr list"
    by (metis append_take_drop_id mset_append union_commute)
  ultimately show ?thesis
    using fresh by (auto simp: pool_env_ok_def fifo_env_def)
qed

definition pool_world0 :: "addr list pool_world" where
  "pool_world0 = \<lparr>pw_pool = pool_init [], pw_hdr = (\<lambda>_. 0), pw_live = []\<rparr>"

definition pool_world1 :: "addr list pool_world" where
  "pool_world1 = (let (ptr, s, hdr) = message_new fifo_env 1 32 (pw_pool pool_world0) (pw_hdr pool_world0)
     in pool_world0\<lparr>pw_pool := s, pw_hdr := hdr, pw_live := [(ptr - unat HEADER_OVERHEAD, HEADER_OVERHEAD + 32)]\<rparr>)"

lemma pool_world1_reachable: "reachable (pool_world_init mset) (pool_step fifo_env) pool_world1"
proof (rule reachable_step)
  show "reachable (pool_world_init mset) (pool_step fifo_env) pool_world0"
    by (rule reachable_init) (auto simp: pool_world_init_def pool_world0_def)
  obtain ptr s hdr where r: "message_new fifo_env 1 32 (pw_pool pool_world0) (pw_hdr pool_world0) = (ptr, s, hdr)"
    by (cases "message_new fifo_env 1 32 (pw_pool pool_world0) (pw_hdr pool_world0)") auto
  from ps_new [OF _ r] show "pool_step fifo_env pool_world0 pool_world1"
    unfolding pool_world1_def r by (simp add: pool_world0_def)
qed

theorem pool_ownership_witness:
  "pw_live pool_world1 = [(1, 48)] \<and> pw_hdr pool_world1 1 = 48"
proof -
  have live: "pw_live pool_world1 = [(1, 48)]"
    by (simp add: pool_world1_def pool_world0_def message_new_def allocate_def MAX_POOLED_SIZE_def
        HEADER_OVERHEAD_16 size_class_index_def SIZE_CLASSES_def current_cache_def pool_init_def
        thread_cache_init_def refill_cache_def fifo_env_def pool_miss_def op_new_def put_cache_def
        bump_stats_def sub_count_def)
  with pool_ownership [OF fifo_env_ok pool_world1_reachable] show ?thesis by simp
qed

definition pool_full :: "addr list pool_state" where
  "pool_full = (pool_init [])\<lparr>max_blocks_per_class := 1, pool_heap := [(100, 64), (200, 64)]\<rparr>"

theorem release_respects_cap_witness:
  "size (mset (free_blocks (release_to_shared fifo_env 0 [100, 200] None pool_full) 0)) \<le> 1"
  using release_respects_cap [OF fifo_env_ok, of pool_full 0 "[100, 200]" _ None]
  by (simp add: pool_full_def pool_init_def)

theorem size_classes_agree_witness:
  "size_class_for_payload 48 = 64 \<and> size_class_for_payload 49 = 128 \<and> size_class_for_payload 2000 = 0"
  using size_classes_agree [of 48 64] size_classes_agree [of 49 128] size_classes_agree [of 2000 64]
  by (simp add: HEADER_OVERHEAD_16 MAX_POOLED_SIZE_def block_size_def size_class_index_def SIZE_CLASSES_def
      max_payload_for_class_def)

end
