(* ===== verification/Message_Alloc.thy ===== *)
theory Message_Alloc
  imports Message_Pool
begin

text \<open>
  All four allocation functions of \<open>message_base\<close> together (include/cas/message_base.h). The pooled \<open>operator new\<close>
  and \<open>operator delete\<close> are those of \<open>Message_Pool\<close>; a message type whose alignment exceeds \<open>POOLED_ALIGNMENT\<close>
  uses the overloads with \<open>std::align_val_t\<close>, which bypass the pool.

  Both kinds of block come from the same \<open>::operator new\<close>, so each call sees the blocks of the other kind: the
  environment of the pool is a function of the over-aligned blocks, and the aligned \<open>::operator new\<close> (\<open>na\<close>) sees the
  heap of the pool. \<open>alloc_env_ok\<close> states what the C++ standard promises of the two: fresh storage, and the
  alignment asked for, which is \<open>POOLED_ALIGNMENT\<close> when none is.
\<close>

section \<open>The over-aligned allocation functions\<close>

text \<open>An over-aligned block is its address, its size and its alignment.\<close>

type_synonym over_block = "addr \<times> size_t \<times> size_t"

type_synonym aligned_new = "heap \<Rightarrow> over_block list \<Rightarrow> size_t \<Rightarrow> size_t \<Rightarrow> addr"

definition message_new_aligned ::
  "aligned_new \<Rightarrow> size_t \<Rightarrow> size_t \<Rightarrow> heap \<Rightarrow> over_block list \<Rightarrow> addr \<times> over_block list" where
  "message_new_aligned na sz al h over = (let p = na h over sz al in (p, (p, sz, al) # over))"

definition message_delete_aligned :: "addr \<Rightarrow> size_t \<Rightarrow> over_block list \<Rightarrow> over_block list" where
  "message_delete_aligned ptr al over = filter (\<lambda>b. fst b \<noteq> ptr) over"

record 'q alloc_world =
  aw_pool :: "'q pool_world"
  aw_over :: "over_block list"

definition alloc_init :: "('q \<Rightarrow> addr multiset) \<Rightarrow> 'q alloc_world \<Rightarrow> bool" where
  "alloc_init contents w \<longleftrightarrow> pool_world_init contents (aw_pool w) \<and> aw_over w = []"

inductive alloc_step ::
  "(over_block list \<Rightarrow> 'q pool_env) \<Rightarrow> aligned_new \<Rightarrow> 'q alloc_world \<Rightarrow> 'q alloc_world \<Rightarrow> bool" for env na where
  as_pool: "pool_step (env (aw_over w)) (aw_pool w) p \<Longrightarrow> alloc_step env na w (w\<lparr>aw_pool := p\<rparr>)"
| as_new_aligned: "POOLED_ALIGNMENT < al \<Longrightarrow>
    message_new_aligned na sz al (pool_heap (pw_pool (aw_pool w))) (aw_over w) = (ptr, over) \<Longrightarrow>
    alloc_step env na w (w\<lparr>aw_over := over\<rparr>)"
| as_delete_aligned: "(ptr, sz, al) \<in> set (aw_over w) \<Longrightarrow>
    alloc_step env na w (w\<lparr>aw_over := message_delete_aligned ptr al (aw_over w)\<rparr>)"

definition plain :: "over_block \<Rightarrow> addr \<times> size_t" where
  "plain b = (fst b, fst (snd b))"

definition alloc_env_ok ::
  "(over_block list \<Rightarrow> 'q pool_env) \<Rightarrow> aligned_new \<Rightarrow> ('q \<Rightarrow> addr multiset) \<Rightarrow> bool" where
  "alloc_env_ok env na contents \<longleftrightarrow>
     (\<forall>over. pool_env_ok (env over) contents
        \<and> (\<forall>h n. unat POOLED_ALIGNMENT dvd pe_new (env over) h n
             \<and> (\<forall>b \<in> set over. apart (pe_new (env over) h n, n) (plain b))))
   \<and> (\<forall>h over n al. POOLED_ALIGNMENT < al \<longrightarrow> unat al dvd na h over n al
        \<and> (\<forall>b \<in> set h. apart (na h over n al, n) b)
        \<and> (\<forall>b \<in> set over. fst b \<noteq> na h over n al \<and> apart (na h over n al, n) (plain b)))"

section \<open>Heap blocks of the pool\<close>

text \<open>
  Every heap block of the pool comes from the environment: what holds of each block \<open>pe_new\<close> returns, and of the
  blocks before an operation, holds of the blocks after it.
\<close>

definition heap_all :: "(addr \<times> size_t \<Rightarrow> bool) \<Rightarrow> 'q pool_state \<Rightarrow> bool" where
  "heap_all Q s \<longleftrightarrow> (\<forall>b \<in> set (pool_heap s). Q b)"

definition news :: "(addr \<times> size_t \<Rightarrow> bool) \<Rightarrow> 'q pool_env \<Rightarrow> bool" where
  "news Q env \<longleftrightarrow> (\<forall>h n. Q (pe_new env h n, n))"

named_theorems heap_keeps

lemma heap_all_frame [heap_keeps]:
  "heap_all Q (s\<lparr>free_blocks := f\<rparr>) \<longleftrightarrow> heap_all Q s"
  "heap_all Q (s\<lparr>t_cache := c\<rparr>) \<longleftrightarrow> heap_all Q s"
  "heap_all Q (s\<lparr>t_cache := c, t_cache_released := r\<rparr>) \<longleftrightarrow> heap_all Q s"
  "heap_all Q (add_count k n s) \<longleftrightarrow> heap_all Q s"
  "heap_all Q (sub_count k n s) \<longleftrightarrow> heap_all Q s"
  "heap_all Q (bump_stats g s) \<longleftrightarrow> heap_all Q s"
  "heap_all Q (put_cache tid tc k c' s) \<longleftrightarrow> heap_all Q s"
  "heap_all Q (set_max_pool_size m s) \<longleftrightarrow> heap_all Q s"
  "heap_all Q (reset_stats s) \<longleftrightarrow> heap_all Q s"
  by (simp_all add: heap_all_def add_count_def sub_count_def bump_stats_def put_cache_def
      set_max_pool_size_def reset_stats_def)

lemma heap_all_delete [heap_keeps]: "heap_all Q s \<Longrightarrow> heap_all Q (op_delete b s)"
  by (simp add: heap_all_def op_delete_def)

lemma heap_all_fold: "(\<And>x s. heap_all Q s \<Longrightarrow> heap_all Q (f x s)) \<Longrightarrow> heap_all Q s \<Longrightarrow> heap_all Q (fold f xs s)"
  by (induction xs arbitrary: s) auto

lemma heap_all_deletes [heap_keeps]: "heap_all Q s \<Longrightarrow> heap_all Q (fold op_delete bs s)"
  by (rule heap_all_fold) (simp_all add: heap_keeps)

lemma heap_all_new [heap_keeps]: "news Q env \<Longrightarrow> heap_all Q s \<Longrightarrow> heap_all Q (snd (op_new env n s))"
  by (simp add: heap_all_def op_new_def news_def Let_def)

lemma heap_all_miss [heap_keeps]: "news Q env \<Longrightarrow> heap_all Q s \<Longrightarrow> heap_all Q (snd (pool_miss env k s))"
  by (simp add: pool_miss_def heap_keeps)

lemma heap_all_release [heap_keeps]: "heap_all Q s \<Longrightarrow> heap_all Q (release_to_shared env k bs pr s)"
  by (auto simp: release_to_shared_def Let_def heap_keeps split: prod.splits)

lemma heap_all_current_cache [heap_keeps]: "heap_all Q (snd (current_cache tid s)) \<longleftrightarrow> heap_all Q s"
  by (simp add: current_cache_def Let_def heap_keeps)

lemma heap_all_refill [heap_keeps]: "heap_all Q (snd (refill_cache env tid k c s)) \<longleftrightarrow> heap_all Q s"
  by (simp add: refill_cache_def heap_keeps split: prod.split)

lemma heap_all_allocate [heap_keeps]:
  assumes new: "news Q env" and all: "heap_all Q s"
  shows "heap_all Q (snd (allocate env tid sz s))"
proof -
  obtain cache s1 where c: "current_cache tid s = (cache, s1)" by fastforce
  then have s1: "heap_all Q s1" using all heap_all_current_cache [of Q tid s] by simp
  have "heap_all Q s2" if "refill_cache env tid k cc s1 = (c', s2)" for k cc c' s2
    using heap_all_refill [of Q env tid k cc s1] s1 that by simp
  then show ?thesis
    using new all s1 by (auto simp: allocate_def c Let_def heap_keeps split: option.split prod.split list.split)
qed

lemma heap_all_deallocate [heap_keeps]:
  assumes all: "heap_all Q s"
  shows "heap_all Q (deallocate env tid ptr sz s)"
proof -
  obtain cache s1 where c: "current_cache tid s = (cache, s1)" by fastforce
  then have s1: "heap_all Q s1" using all heap_all_current_cache [of Q tid s] by simp
  with all show ?thesis
    by (auto simp: deallocate_def c Let_def heap_keeps split: option.split)
qed

lemma heap_all_new_blocks [heap_keeps]:
  "news Q env \<Longrightarrow> heap_all Q s \<Longrightarrow> heap_all Q (snd (new_blocks env sz n s))"
proof (induction n arbitrary: s)
  case (Suc n)
  obtain a s1 where op: "op_new env sz s = (a, s1)" by fastforce
  with heap_all_new [OF Suc.prems, of sz] have "heap_all Q s1" by simp
  with Suc op show ?case by (simp add: case_prod_beta)
qed simp

lemma heap_all_prewarm_class [heap_keeps]:
  "news Q env \<Longrightarrow> heap_all Q s \<Longrightarrow> heap_all Q (prewarm_class env k n s)"
proof (induction env k n s rule: prewarm_class.induct)
  case (1 env k remaining s)
  obtain batch s1 where nb: "new_blocks env (block_size k) (min remaining k_transfer_batch) s = (batch, s1)"
    by fastforce
  with heap_all_new_blocks [OF "1.prems"] have "heap_all Q s1" by (metis snd_conv)
  with 1 nb show ?case
    by (subst prewarm_class.simps) (simp add: heap_keeps)
qed

lemma heap_all_prewarm [heap_keeps]: "news Q env \<Longrightarrow> heap_all Q s \<Longrightarrow> heap_all Q (prewarm env n s)"
  unfolding prewarm_def by (rule heap_all_fold) (simp_all add: heap_keeps)

lemma heap_all_thread_exit [heap_keeps]:
  assumes "heap_all Q s"
  shows "heap_all Q (thread_cache_release env tid s)"
proof -
  have "heap_all Q u \<Longrightarrow> heap_all Q (flush_class env tid tc k u)" for tc k u
    by (simp add: flush_class_def heap_keeps)
  with assms show ?thesis
    unfolding thread_cache_release_def Let_def
    by (auto simp: heap_keeps intro!: heap_all_fold split: option.split)
qed

lemma pool_step_heap_all:
  assumes "news Q env" "pool_step env w w'" "heap_all Q (pw_pool w)"
  shows "heap_all Q (pw_pool w')"
  using assms(2)
proof cases
  case (ps_new sz tid ptr s hdr)
  then have "s = snd (allocate env tid (HEADER_OVERHEAD + sz) (pw_pool w))"
    by (auto simp: message_new_def Let_def split: prod.splits)
  with ps_new assms(1,3) show ?thesis by (simp add: heap_keeps)
qed (use assms(1,3) in \<open>auto simp: message_delete_def Let_def heap_keeps\<close>)

section \<open>Alignment\<close>

definition over_ok :: "over_block list \<Rightarrow> bool" where
  "over_ok over \<longleftrightarrow> distinct (map fst over)
     \<and> (\<forall>b \<in> set over. unat (snd (snd b)) dvd fst b \<and> POOLED_ALIGNMENT < snd (snd b))
     \<and> (\<forall>b \<in> set over. \<forall>c \<in> set over. b \<noteq> c \<longrightarrow> apart (plain b) (plain c))"

definition pool_block_ok :: "over_block list \<Rightarrow> addr \<times> size_t \<Rightarrow> bool" where
  "pool_block_ok over b \<longleftrightarrow> unat POOLED_ALIGNMENT dvd fst b \<and> (\<forall>c \<in> set over. apart b (plain c))"

definition alloc_inv :: "('q \<Rightarrow> addr multiset) \<Rightarrow> 'q alloc_world \<Rightarrow> bool" where
  "alloc_inv contents w \<longleftrightarrow> pool_world_inv contents (aw_pool w) \<and> over_ok (aw_over w)
     \<and> heap_all (pool_block_ok (aw_over w)) (pw_pool (aw_pool w))"

lemma plain_pair [simp]: "plain (p, sz, al) = (p, sz)"
  by (simp add: plain_def)

lemma alloc_step_inv:
  assumes env: "alloc_env_ok env na contents" and inv: "alloc_inv contents w" and st: "alloc_step env na w w'"
  shows "alloc_inv contents w'"
  using st
proof cases
  case (as_pool p)
  have "news (pool_block_ok (aw_over w)) (env (aw_over w))"
    using env by (simp add: alloc_env_ok_def news_def pool_block_ok_def)
  then have "heap_all (pool_block_ok (aw_over w)) (pw_pool p)"
    using pool_step_heap_all as_pool(2) inv by (metis alloc_inv_def)
  moreover have "pool_world_inv contents p"
    using pool_step_inv as_pool(2) inv env by (metis alloc_inv_def alloc_env_ok_def)
  ultimately show ?thesis using inv by (simp add: alloc_inv_def as_pool(1))
next
  case (as_new_aligned al sz ptr over)
  let ?h = "pool_heap (pw_pool (aw_pool w))"
  have over: "over = (ptr, sz, al) # aw_over w" and ptr: "ptr = na ?h (aw_over w) sz al"
    using as_new_aligned(3) by (auto simp: message_new_aligned_def Let_def)
  have new: "unat al dvd ptr" "\<forall>b \<in> set ?h. apart b (ptr, sz)"
    "\<forall>b \<in> set (aw_over w). fst b \<noteq> ptr \<and> apart (ptr, sz) (plain b)"
    using env as_new_aligned(2) unfolding ptr alloc_env_ok_def by (auto simp: apart_sym)
  then have "ptr \<notin> fst ` set (aw_over w)" by auto
  then have "over_ok over"
    using new inv as_new_aligned(2) by (auto simp: over alloc_inv_def over_ok_def apart_sym)
  moreover have "heap_all (pool_block_ok over) (pw_pool (aw_pool w))"
    using new inv by (auto simp: over alloc_inv_def heap_all_def pool_block_ok_def)
  ultimately show ?thesis using inv by (simp add: alloc_inv_def as_new_aligned(1))
next
  case (as_delete_aligned ptr sz al)
  have "over_ok (message_delete_aligned ptr al (aw_over w))"
    using inv by (auto simp: alloc_inv_def over_ok_def message_delete_aligned_def intro: distinct_map_filter)
  moreover have "heap_all (pool_block_ok (message_delete_aligned ptr al (aw_over w))) (pw_pool (aw_pool w))"
    using inv by (auto simp: alloc_inv_def heap_all_def pool_block_ok_def message_delete_aligned_def)
  ultimately show ?thesis using inv by (simp add: alloc_inv_def as_delete_aligned(1))
qed

lemma heap_all_init: "heap_all Q (pool_init q0)"
  by (simp add: heap_all_def pool_init_def)

lemma alloc_init_inv: "alloc_init contents w \<Longrightarrow> alloc_inv contents w"
  by (auto simp: alloc_init_def pool_world_init_def alloc_inv_def pool_world_inv_def pool_init_inv headers_ok_def
      over_ok_def heap_all_init)

lemma reachable_alloc_inv:
  assumes "alloc_env_ok env na contents" "reachable (alloc_init contents) (alloc_step env na) w"
  shows "alloc_inv contents w"
  using assms(2)
  by (induction rule: reachable.induct) (auto intro: alloc_init_inv alloc_step_inv [OF assms(1)])

lemma live_apart_over:
  assumes inv: "alloc_inv contents w" and raw: "(raw, tot) \<in> set (pw_live (aw_pool w))"
    and over: "(ptr, sz, al) \<in> set (aw_over w)"
  shows "unat POOLED_ALIGNMENT dvd raw" "raw + unat tot \<le> ptr \<or> ptr + unat sz \<le> raw"
proof -
  have "(raw, capacity tot) \<in> set (pool_heap (pw_pool (aw_pool w)))"
    using inv raw by (auto simp: alloc_inv_def pool_world_inv_def pool_inv_def live_ok_def)
  then have ok: "pool_block_ok (aw_over w) (raw, capacity tot)"
    using inv by (auto simp: alloc_inv_def heap_all_def)
  then show "unat POOLED_ALIGNMENT dvd raw" by (simp add: pool_block_ok_def)
  have "apart (raw, capacity tot) (ptr, sz)" using ok over by (force simp: pool_block_ok_def)
  then show "raw + unat tot \<le> ptr \<or> ptr + unat sz \<le> raw"
    using capacity_ge [of tot] by (auto simp: apart_def word_le_nat_alt)
qed

lemma live_aligned:
  assumes inv: "alloc_inv contents w" and raw: "(raw, tot) \<in> set (pw_live (aw_pool w))"
  shows "unat POOLED_ALIGNMENT dvd raw + unat HEADER_OVERHEAD"
proof -
  have "(raw, capacity tot) \<in> set (pool_heap (pw_pool (aw_pool w)))"
    using inv raw by (auto simp: alloc_inv_def pool_world_inv_def pool_inv_def live_ok_def)
  then have "unat POOLED_ALIGNMENT dvd raw"
    using inv by (auto simp: alloc_inv_def heap_all_def pool_block_ok_def)
  then show ?thesis by (simp add: POOLED_ALIGNMENT_def)
qed

text \<open>
  Property C12. Every message object has the alignment its type requires, and the storage of no two messages overlaps:
  under every interleaving of pooled and over-aligned allocation, destruction, prewarming, thread exit and
  changes of the cap, the object of a pooled message (behind its header) lies at a multiple of
  \<open>POOLED_ALIGNMENT\<close>, an over-aligned object at a multiple of its own alignment, and an over-aligned object shares
  no byte with another one nor with the block of a pooled message.
\<close>

theorem messages_aligned:
  assumes "alloc_env_ok env na contents" "reachable (alloc_init contents) (alloc_step env na) w"
  shows "(\<forall>(raw, tot) \<in> set (pw_live (aw_pool w)). unat POOLED_ALIGNMENT dvd raw + unat HEADER_OVERHEAD)
    \<and> (\<forall>(ptr, sz, al) \<in> set (aw_over w). unat al dvd ptr
         \<and> (\<forall>(raw, tot) \<in> set (pw_live (aw_pool w)). raw + unat tot \<le> ptr \<or> ptr + unat sz \<le> raw)
         \<and> (\<forall>(ptr', sz', al') \<in> set (aw_over w). ptr = ptr' \<or> ptr + unat sz \<le> ptr' \<or> ptr' + unat sz' \<le> ptr))"
proof (intro conjI)
  have inv: "alloc_inv contents w" by (rule reachable_alloc_inv [OF assms])
  then have over: "over_ok (aw_over w)" by (simp add: alloc_inv_def)
  show "\<forall>(raw, tot) \<in> set (pw_live (aw_pool w)). unat POOLED_ALIGNMENT dvd raw + unat HEADER_OVERHEAD"
    using live_aligned [OF inv] by blast
  show "\<forall>(ptr, sz, al) \<in> set (aw_over w). unat al dvd ptr
         \<and> (\<forall>(raw, tot) \<in> set (pw_live (aw_pool w)). raw + unat tot \<le> ptr \<or> ptr + unat sz \<le> raw)
         \<and> (\<forall>(ptr', sz', al') \<in> set (aw_over w). ptr = ptr' \<or> ptr + unat sz \<le> ptr' \<or> ptr' + unat sz' \<le> ptr)"
  proof (clarify, intro conjI)
    fix ptr sz al assume b: "(ptr, sz, al) \<in> set (aw_over w)"
    show "unat al dvd ptr" using over b by (force simp: over_ok_def)
    show "\<forall>(raw, tot) \<in> set (pw_live (aw_pool w)). raw + unat tot \<le> ptr \<or> ptr + unat sz \<le> raw"
      using live_apart_over(2) [OF inv _ b] by blast
    have "apart (ptr, sz) (ptr', sz')" if "(ptr', sz', al') \<in> set (aw_over w)" "ptr \<noteq> ptr'" for ptr' sz' al'
      using over b that unfolding over_ok_def by (metis fst_conv plain_pair)
    then show "\<forall>(ptr', sz', al') \<in> set (aw_over w). ptr = ptr' \<or> ptr + unat sz \<le> ptr' \<or> ptr' + unat sz' \<le> ptr"
      by (auto simp: apart_def)
  qed
qed

section \<open>Witness\<close>

text \<open>A heap that grows upwards: the next block lies above all the others, at the next multiple of its alignment.\<close>

definition heap_top :: "heap \<Rightarrow> nat" where
  "heap_top h = sum_list (map (\<lambda>b. fst b + unat (snd b)) h)"

definition upward_env :: "over_block list \<Rightarrow> addr list pool_env" where
  "upward_env over = fifo_env\<lparr>pe_new := (\<lambda>h n. 16 * Suc (heap_top h + heap_top (map plain over)))\<rparr>"

definition upward_new :: aligned_new where
  "upward_new h over n al = unat al * Suc (heap_top h + heap_top (map plain over))"

lemma heap_top_ge: "b \<in> set h \<Longrightarrow> fst b + unat (snd b) \<le> heap_top h"
  unfolding heap_top_def by (induction h) auto

lemma above_heap_top:
  assumes "0 < k" "b \<in> set h" "heap_top h \<le> m"
  shows "apart (k * Suc m, n) b" "k * Suc m \<noteq> fst b"
proof -
  have "m < k * Suc m" using assms(1) by (cases k) auto
  with heap_top_ge [OF assms(2)] assms(3) show "apart (k * Suc m, n) b" "k * Suc m \<noteq> fst b"
    by (auto simp: apart_def)
qed

lemma upward_env_ok: "alloc_env_ok upward_env upward_new mset"
proof -
  have in_over: "plain b \<in> set (map plain over)" if "b \<in> set over" for b and over :: "over_block list"
    using that by simp
  have "pool_env_ok (upward_env over) mset" for over
    using fifo_env_ok above_heap_top [of 16 _ _ "heap_top _ + heap_top (map plain over)"]
    unfolding pool_env_ok_def upward_env_def by (auto simp del: mult_Suc_right)
  moreover have "apart (pe_new (upward_env over) h n, n) (plain b)" if "b \<in> set over" for over h n b
    using above_heap_top(1) [OF _ in_over [OF that], of 16 "heap_top h + heap_top (map plain over)" n]
    by (simp add: upward_env_def)
  moreover have "16 dvd pe_new (upward_env over) h n" for over h n
    by (simp add: upward_env_def del: mult_Suc_right)
  moreover have "apart (upward_new h over n al, n) b" if "16 < al" "b \<in> set h" for h over n al b
    unfolding upward_new_def using that by (intro above_heap_top) (auto simp: word_less_nat_alt)
  moreover have "fst b \<noteq> upward_new h over n al \<and> apart (upward_new h over n al, n) (plain b)"
    if "16 < al" "b \<in> set over" for h over n al b
    unfolding upward_new_def using above_heap_top
      [OF _ in_over [OF that(2)], where k = "unat al" and m = "heap_top h + heap_top (map plain over)"] that(1)
    by (auto simp: word_less_nat_alt plain_def)
  ultimately show ?thesis
    by (auto simp: alloc_env_ok_def POOLED_ALIGNMENT_def upward_new_def)
qed

text \<open>One cache-line aligned message of 100 bytes after a pooled one of 32 bytes.\<close>

definition alloc_world1 :: "addr list alloc_world" where
  "alloc_world1 = \<lparr>aw_pool = (let (ptr, s, hdr) = message_new (upward_env []) 1 32 (pw_pool pool_world0) (pw_hdr pool_world0)
      in pool_world0\<lparr>pw_pool := s, pw_hdr := hdr, pw_live := [(ptr - unat HEADER_OVERHEAD, HEADER_OVERHEAD + 32)]\<rparr>),
    aw_over = []\<rparr>"

definition alloc_world2 :: "addr list alloc_world" where
  "alloc_world2 = alloc_world1\<lparr>aw_over :=
     snd (message_new_aligned upward_new 100 64 (pool_heap (pw_pool (aw_pool alloc_world1))) (aw_over alloc_world1))\<rparr>"

lemma alloc_world2_reachable: "reachable (alloc_init mset) (alloc_step upward_env upward_new) alloc_world2"
proof (rule reachable_step)
  show "alloc_step upward_env upward_new alloc_world1 alloc_world2"
    unfolding alloc_world2_def
    by (rule as_new_aligned [where al = 64 and sz = 100]) (simp_all add: POOLED_ALIGNMENT_def message_new_aligned_def Let_def)
  show "reachable (alloc_init mset) (alloc_step upward_env upward_new) alloc_world1"
  proof (rule reachable_step)
    let ?w0 = "\<lparr>aw_pool = pool_world0, aw_over = []\<rparr>"
    show "reachable (alloc_init mset) (alloc_step upward_env upward_new) ?w0"
      by (rule reachable_init) (auto simp: alloc_init_def pool_world_init_def pool_world0_def)
    obtain ptr s hdr where r: "message_new (upward_env []) 1 32 (pw_pool pool_world0) (pw_hdr pool_world0) = (ptr, s, hdr)"
      by (cases "message_new (upward_env []) 1 32 (pw_pool pool_world0) (pw_hdr pool_world0)") auto
    have "pool_step (upward_env []) pool_world0 (aw_pool alloc_world1)"
      using ps_new [OF _ r] unfolding alloc_world1_def r by (simp add: pool_world0_def)
    then show "alloc_step upward_env upward_new ?w0 alloc_world1"
      using as_pool [of upward_env ?w0 "aw_pool alloc_world1" upward_new] by (simp add: alloc_world1_def)
  qed
qed

theorem messages_aligned_witness:
  "\<exists>ptr. (ptr, 100, 64) \<in> set (aw_over alloc_world2) \<and> 64 dvd ptr"
proof -
  obtain ptr where p: "(ptr, 100, 64) \<in> set (aw_over alloc_world2)"
    by (auto simp: alloc_world2_def message_new_aligned_def Let_def)
  with messages_aligned [OF upward_env_ok alloc_world2_reachable] have "64 dvd ptr" by force
  with p show ?thesis by blast
qed

end
