(* ===== verification/Fixed_String.thy ===== *)
theory Fixed_String
  imports Prelude "HOL-Library.Char_ord"
begin

text \<open>
  The fixed-capacity string of messages (include/cas/fixed_string.h). \<open>m_data\<close> is the whole array of
  \<open>Capacity + 1\<close> characters, with whatever bytes lie beyond the terminator; \<open>m_size\<close> is the length. The
  template parameter is an argument \<open>cap\<close>. The flag \<open>ce\<close> is \<open>std::is_constant_evaluated()\<close>: the code
  then writes the whole array instead of only the characters and the terminator. A \<open>const char*\<close> is
  the memory it points to, \<open>None\<close> the null pointer.

  Shown: what each operation does to the contents on every branch (truncation included), that the
  terminator stays in place and no index leaves the array, that comparison never depends on the
  bytes behind the terminator or on constant evaluation and orders strings lexicographically by
  unsigned bytes, and the round trip through C strings.
\<close>

section \<open>State and construction\<close>

definition NUL :: char where
  "NUL = CHR 0x00"

record fixed_string =
  m_data :: "char list"
  m_size :: nat

definition fill_data :: "nat \<Rightarrow> string \<Rightarrow> nat \<Rightarrow> char list" where
  "fill_data cap str len = map (\<lambda>i. if i < len then str ! i else NUL) [0..<Suc cap]"

text \<open>\<open>char_traits<char>::copy(m_data + pos, str, n)\<close> for a source outside the array.\<close>

definition copy_to :: "nat \<Rightarrow> string \<Rightarrow> nat \<Rightarrow> char list \<Rightarrow> char list" where
  "copy_to pos str n data = take pos data @ take n str @ drop (pos + n) data"

definition fs_init :: "bool \<Rightarrow> nat \<Rightarrow> char list \<Rightarrow> fixed_string" where
  "fs_init ce cap junk =
     \<lparr>m_data = (if ce then fill_data cap [] 0 else junk[0 := NUL]), m_size = 0\<rparr>"

definition fs_clear :: "bool \<Rightarrow> nat \<Rightarrow> fixed_string \<Rightarrow> fixed_string" where
  "fs_clear ce cap fs =
     (if ce then fs\<lparr>m_data := fill_data cap [] 0, m_size := 0\<rparr>
      else fs\<lparr>m_size := 0, m_data := (m_data fs)[0 := NUL]\<rparr>)"

definition fs_assign :: "bool \<Rightarrow> nat \<Rightarrow> string \<Rightarrow> nat \<Rightarrow> fixed_string \<Rightarrow> fixed_string" where
  "fs_assign ce cap str len0 fs =
     (let len = (if len0 > cap then cap else len0)
      in if ce then fs\<lparr>m_data := fill_data cap str len, m_size := len\<rparr>
         else fs\<lparr>m_data := (copy_to 0 str len (m_data fs))[len := NUL], m_size := len\<rparr>)"

definition c_length :: "string \<Rightarrow> nat" where
  "c_length mem = length (takeWhile (\<lambda>c. c \<noteq> NUL) mem)"

definition fs_assign_cstr :: "bool \<Rightarrow> nat \<Rightarrow> string option \<Rightarrow> fixed_string \<Rightarrow> fixed_string" where
  "fs_assign_cstr ce cap p fs =
     (case p of None \<Rightarrow> fs_clear ce cap fs | Some mem \<Rightarrow> fs_assign ce cap mem (c_length mem) fs)"

definition fs_from_cstr :: "bool \<Rightarrow> nat \<Rightarrow> string option \<Rightarrow> fixed_string \<Rightarrow> fixed_string" where
  "fs_from_cstr ce cap p raw = fs_assign_cstr ce cap p raw"

definition fs_from_buffer :: "bool \<Rightarrow> nat \<Rightarrow> string \<Rightarrow> nat \<Rightarrow> fixed_string \<Rightarrow> fixed_string" where
  "fs_from_buffer ce cap str len raw = fs_assign ce cap str len raw"

section \<open>Access and modification\<close>

definition fs_empty :: "fixed_string \<Rightarrow> bool" where
  "fs_empty fs \<longleftrightarrow> m_size fs = 0"

definition fs_at :: "fixed_string \<Rightarrow> nat \<Rightarrow> string + char" where
  "fs_at fs pos = (if pos \<ge> m_size fs then Inl ''fixed_string::at'' else Inr (m_data fs ! pos))"

definition fs_front :: "fixed_string \<Rightarrow> char" where
  "fs_front fs = m_data fs ! 0"

definition fs_back :: "fixed_string \<Rightarrow> char" where
  "fs_back fs = m_data fs ! (m_size fs - 1)"

definition fs_view :: "fixed_string \<Rightarrow> string" where
  "fs_view fs = take (m_size fs) (m_data fs)"

definition fs_push_back :: "nat \<Rightarrow> char \<Rightarrow> fixed_string \<Rightarrow> fixed_string" where
  "fs_push_back cap c fs =
     (if m_size fs < cap
      then fs\<lparr>m_data := (m_data fs)[m_size fs := c, Suc (m_size fs) := NUL], m_size := Suc (m_size fs)\<rparr>
      else fs)"

definition fs_pop_back :: "fixed_string \<Rightarrow> fixed_string" where
  "fs_pop_back fs =
     (if m_size fs > 0
      then fs\<lparr>m_size := m_size fs - 1, m_data := (m_data fs)[m_size fs - 1 := NUL]\<rparr>
      else fs)"

definition fs_append :: "nat \<Rightarrow> string \<Rightarrow> nat \<Rightarrow> fixed_string \<Rightarrow> fixed_string" where
  "fs_append cap str len fs =
     (let to_copy = min len (cap - m_size fs);
          sz = m_size fs + to_copy
      in fs\<lparr>m_data := (copy_to (m_size fs) str to_copy (m_data fs))[sz := NUL], m_size := sz\<rparr>)"

definition fs_append_cstr :: "nat \<Rightarrow> string \<Rightarrow> fixed_string \<Rightarrow> fixed_string" where
  "fs_append_cstr cap mem fs = fs_append cap mem (c_length mem) fs"

section \<open>Comparison and conversion\<close>

fun traits_compare :: "string \<Rightarrow> string \<Rightarrow> int" where
  "traits_compare (a # as) (b # bs) =
     (if a < b then -1 else if b < a then 1 else traits_compare as bs)"
| "traits_compare _ _ = 0"

definition view_compare :: "string \<Rightarrow> string \<Rightarrow> int" where
  "view_compare s t =
     (let n = min (length s) (length t); r = traits_compare (take n s) (take n t)
      in if r \<noteq> 0 then r
         else if length s < length t then -1 else if length s > length t then 1 else 0)"

definition fs_compare :: "fixed_string \<Rightarrow> string \<Rightarrow> int" where
  "fs_compare fs other = view_compare (fs_view fs) other"

definition fs_eq :: "fixed_string \<Rightarrow> fixed_string \<Rightarrow> bool" where
  "fs_eq l r \<longleftrightarrow> fs_view l = fs_view r"

definition fs_less :: "fixed_string \<Rightarrow> fixed_string \<Rightarrow> bool" where
  "fs_less l r \<longleftrightarrow> view_compare (fs_view l) (fs_view r) < 0"

text \<open>The overloads with a \<open>string_view\<close>, and the unchecked element access; beyond the array its result is unspecified.\<close>

definition fs_eq_view :: "fixed_string \<Rightarrow> string \<Rightarrow> bool" where
  "fs_eq_view l r \<longleftrightarrow> fs_view l = r"

definition fs_less_view :: "fixed_string \<Rightarrow> string \<Rightarrow> bool" where
  "fs_less_view l r \<longleftrightarrow> view_compare (fs_view l) r < 0"

definition fs_index :: "fixed_string \<Rightarrow> size_t \<Rightarrow> char" where
  "fs_index fs pos = m_data fs ! unat pos"

definition fs_concat_view :: "string \<Rightarrow> fixed_string \<Rightarrow> string" where
  "fs_concat_view l r = l @ fs_view r"

definition fs_concat :: "fixed_string \<Rightarrow> string \<Rightarrow> string" where
  "fs_concat l r = fs_view l @ r"

definition fs_hash :: "(string \<Rightarrow> size_t) \<Rightarrow> fixed_string \<Rightarrow> size_t" where
  "fs_hash string_hash fs = string_hash (fs_view fs)"

section \<open>Invariant\<close>

definition fs_inv :: "nat \<Rightarrow> fixed_string \<Rightarrow> bool" where
  "fs_inv cap fs \<longleftrightarrow> length (m_data fs) = Suc cap \<and> m_size fs \<le> cap \<and> m_data fs ! m_size fs = NUL"

lemma length_fill_data [simp]: "length (fill_data cap str len) = Suc cap"
  by (simp add: fill_data_def)

lemma nth_fill_data: "i \<le> cap \<Longrightarrow> fill_data cap str len ! i = (if i < len then str ! i else NUL)"
  unfolding fill_data_def by (subst nth_map) (simp_all del: upt_Suc)

lemma take_fill_data: "len \<le> cap \<Longrightarrow> len \<le> length str \<Longrightarrow> take len (fill_data cap str len) = take len str"
  by (rule nth_equalityI) (auto simp: nth_fill_data)

lemma length_copy_to:
  "pos + n \<le> length data \<Longrightarrow> n \<le> length str \<Longrightarrow> length (copy_to pos str n data) = length data"
  by (simp add: copy_to_def)

lemma take_copy_to:
  "pos + n \<le> length data \<Longrightarrow> n \<le> length str \<Longrightarrow> take (pos + n) (copy_to pos str n data) = take pos data @ take n str"
  by (simp add: copy_to_def)

lemma fs_init_spec: "length junk = Suc cap \<Longrightarrow> fs_inv cap (fs_init ce cap junk) \<and> fs_view (fs_init ce cap junk) = []"
  by (auto simp: fs_inv_def fs_init_def fs_view_def nth_fill_data)

lemma fs_clear_spec:
  "length (m_data fs) = Suc cap \<Longrightarrow> fs_inv cap (fs_clear ce cap fs) \<and> fs_view (fs_clear ce cap fs) = []"
  by (auto simp: fs_inv_def fs_clear_def fs_view_def nth_fill_data)

lemma fs_assign_spec:
  assumes "length (m_data fs) = Suc cap" "len \<le> length str"
  shows "fs_inv cap (fs_assign ce cap str len fs) \<and> fs_view (fs_assign ce cap str len fs) = take cap (take len str)"
proof -
  let ?n = "if len > cap then cap else len"
  have n: "?n \<le> cap" "?n \<le> length str" "take ?n str = take cap (take len str)"
    using assms(2) by (auto simp: min_def)
  show ?thesis
    using assms(1) n length_copy_to [of 0 ?n "m_data fs" str] take_copy_to [of 0 ?n "m_data fs" str]
    by (auto simp: fs_inv_def fs_view_def fs_assign_def Let_def nth_fill_data take_fill_data)
qed

lemma fs_push_back_spec:
  assumes "fs_inv cap fs"
  shows "fs_inv cap (fs_push_back cap c fs) \<and> fs_view (fs_push_back cap c fs) = take cap (fs_view fs @ [c])"
  using assms
  by (auto simp: fs_inv_def fs_push_back_def fs_view_def take_Suc_conv_app_nth)

lemma fs_pop_back_spec:
  assumes "fs_inv cap fs"
  shows "fs_inv cap (fs_pop_back fs) \<and> fs_view (fs_pop_back fs) = butlast (fs_view fs)"
  using assms
  by (auto simp: fs_inv_def fs_pop_back_def fs_view_def butlast_take)

lemma fs_append_spec:
  assumes "fs_inv cap fs" "len \<le> length str"
  shows "fs_inv cap (fs_append cap str len fs)
    \<and> fs_view (fs_append cap str len fs) = take cap (fs_view fs @ take len str)"
proof -
  let ?n = "min len (cap - m_size fs)"
  have n: "m_size fs + ?n \<le> cap" "?n \<le> length str" "length (m_data fs) = Suc cap"
    using assms by (auto simp: fs_inv_def)
  have "take cap (fs_view fs @ take len str) = fs_view fs @ take ?n str"
    using assms by (simp add: fs_view_def fs_inv_def min.commute)
  then show ?thesis
    using n length_copy_to [of "m_size fs" ?n "m_data fs" str] take_copy_to [of "m_size fs" ?n "m_data fs" str]
    by (auto simp: fs_inv_def fs_append_def fs_view_def Let_def)
qed

section \<open>A bounded string as specification\<close>

datatype fs_op =
    Op_assign bool string nat
  | Op_assign_cstr bool "string option"
  | Op_append string nat
  | Op_append_cstr string
  | Op_push_back char
  | Op_pop_back
  | Op_clear bool

fun fs_exec :: "nat \<Rightarrow> fs_op \<Rightarrow> fixed_string \<Rightarrow> fixed_string" where
  "fs_exec cap (Op_assign ce str len) fs = fs_assign ce cap str len fs"
| "fs_exec cap (Op_assign_cstr ce p) fs = fs_assign_cstr ce cap p fs"
| "fs_exec cap (Op_append str len) fs = fs_append cap str len fs"
| "fs_exec cap (Op_append_cstr mem) fs = fs_append_cstr cap mem fs"
| "fs_exec cap (Op_push_back c) fs = fs_push_back cap c fs"
| "fs_exec cap Op_pop_back fs = fs_pop_back fs"
| "fs_exec cap (Op_clear ce) fs = fs_clear ce cap fs"

fun op_in_bounds :: "fs_op \<Rightarrow> bool" where
  "op_in_bounds (Op_assign ce str len) = (len \<le> length str)"
| "op_in_bounds (Op_append str len) = (len \<le> length str)"
| "op_in_bounds _ = True"

fun bounded_exec :: "nat \<Rightarrow> fs_op \<Rightarrow> string \<Rightarrow> string" where
  "bounded_exec cap (Op_assign ce str len) s = take cap (take len str)"
| "bounded_exec cap (Op_assign_cstr ce None) s = []"
| "bounded_exec cap (Op_assign_cstr ce (Some mem)) s = take cap (takeWhile (\<lambda>c. c \<noteq> NUL) mem)"
| "bounded_exec cap (Op_append str len) s = take cap (s @ take len str)"
| "bounded_exec cap (Op_append_cstr mem) s = take cap (s @ takeWhile (\<lambda>c. c \<noteq> NUL) mem)"
| "bounded_exec cap (Op_push_back c) s = take cap (s @ [c])"
| "bounded_exec cap Op_pop_back s = butlast s"
| "bounded_exec cap (Op_clear ce) s = []"

lemma c_length_le: "c_length mem \<le> length mem"
  by (simp add: c_length_def length_takeWhile_le)

lemma take_c_length: "take (c_length mem) mem = takeWhile (\<lambda>c. c \<noteq> NUL) mem"
  unfolding c_length_def by (rule takeWhile_eq_take [symmetric])

lemma fs_exec_spec:
  assumes "fs_inv cap fs" "op_in_bounds op"
  shows "fs_inv cap (fs_exec cap op fs) \<and> fs_view (fs_exec cap op fs) = bounded_exec cap op (fs_view fs)"
proof -
  have len: "length (m_data fs) = Suc cap" using assms(1) by (simp add: fs_inv_def)
  show ?thesis
  proof (cases op)
    case (Op_assign_cstr ce p)
    show ?thesis
    proof (cases p)
      case None
      with Op_assign_cstr fs_clear_spec [OF len, where ce = ce] show ?thesis
        by (simp add: fs_assign_cstr_def)
    next
      case (Some mem)
      with Op_assign_cstr fs_assign_spec [OF len c_length_le, of ce mem] show ?thesis
        by (simp add: fs_assign_cstr_def take_c_length)
    qed
  next
    case (Op_append_cstr mem)
    then show ?thesis
      using fs_append_spec [OF assms(1) c_length_le, of mem] by (simp add: fs_append_cstr_def take_c_length)
  qed (use assms(2) fs_assign_spec [OF len] fs_append_spec [OF assms(1)] fs_push_back_spec [OF assms(1)]
      fs_pop_back_spec [OF assms(1)] fs_clear_spec [OF len] in simp_all)
qed

section \<open>Ordering\<close>

lemma view_compare_Cons:
  "view_compare (a # s) (b # t) = (if a < b then -1 else if b < a then 1 else view_compare s t)"
  by (auto simp: view_compare_def Let_def)

lemma view_compare_Nil: "view_compare [] t = (if t = [] then 0 else -1)" "view_compare (a # s) [] = 1"
  by (auto simp: view_compare_def)

lemma view_compare_zero: "view_compare s t = 0 \<longleftrightarrow> s = t"
  by (induction s t rule: list_induct2') (auto simp: view_compare_Cons view_compare_Nil)

lemma view_compare_neg: "view_compare s t < 0 \<longleftrightarrow> (s, t) \<in> lexord {(a, b). a < b}"
  by (induction s t rule: list_induct2') (auto simp: view_compare_Cons view_compare_Nil)

lemma view_compare_sym: "view_compare t s = - view_compare s t"
  by (induction s t rule: list_induct2') (auto simp: view_compare_Cons view_compare_Nil)

section \<open>Properties\<close>

text \<open>
  Property C28. Every sequence of modifications of a fixed string behaves like the same sequence on a string
  that is cut off at the capacity, whether or not it is evaluated at compile time; the terminator
  stays right behind the contents and the array keeps its size. The constructors start from the
  given characters, cut off likewise, whatever the memory held before.
\<close>

theorem fs_run_refines:
  assumes "length junk = Suc cap" "list_all op_in_bounds ops"
  shows "fs_view (fold (fs_exec cap) ops (fs_init ce cap junk)) = fold (bounded_exec cap) ops []
    \<and> fs_inv cap (fold (fs_exec cap) ops (fs_init ce cap junk))
    \<and> fs_view (fs_from_buffer ce cap str (length str) \<lparr>m_data = junk, m_size = n\<rparr>) = take cap str
    \<and> fs_view (fs_from_cstr ce cap (Some mem) \<lparr>m_data = junk, m_size = n\<rparr>) =
        take cap (takeWhile (\<lambda>c. c \<noteq> NUL) mem)"
proof -
  have "fs_view (fold (fs_exec cap) ops fs) = fold (bounded_exec cap) ops (fs_view fs)
      \<and> fs_inv cap (fold (fs_exec cap) ops fs)" if "fs_inv cap fs" for fs
    using assms(2) that by (induction ops arbitrary: fs) (auto simp: fs_exec_spec)
  moreover have "fs_view (fs_from_buffer ce cap str (length str) \<lparr>m_data = junk, m_size = n\<rparr>) = take cap str"
    using fs_assign_spec [of "\<lparr>m_data = junk, m_size = n\<rparr>" cap "length str" str ce] assms(1)
    by (simp add: fs_from_buffer_def)
  moreover have "fs_view (fs_from_cstr ce cap (Some mem) \<lparr>m_data = junk, m_size = n\<rparr>) =
      take cap (takeWhile (\<lambda>c. c \<noteq> NUL) mem)"
    using fs_assign_spec [of "\<lparr>m_data = junk, m_size = n\<rparr>" cap "c_length mem" mem ce] assms(1) c_length_le
    by (simp add: fs_from_cstr_def fs_assign_cstr_def take_c_length)
  ultimately show ?thesis
    using fs_init_spec [OF assms(1)] by auto
qed

text \<open>
  Fact. Comparison is lexicographic on the contents, by unsigned bytes: exactly one of less, equal and
  greater holds for any two fixed strings of any capacities, \<open>operator<=>\<close> agrees with the
  lexicographic order, equality with equal contents, and \<open>compare\<close> with both; equal strings hash
  equally.
\<close>

theorem fs_order:
  "(fs_less l r \<longleftrightarrow> (fs_view l, fs_view r) \<in> lexord {(a, b). a < b})
   \<and> (fs_eq l r \<longleftrightarrow> fs_compare l (fs_view r) = 0) \<and> (fs_less l r \<longleftrightarrow> fs_compare l (fs_view r) < 0)
   \<and> ((fs_less l r \<and> \<not> fs_eq l r \<and> \<not> fs_less r l) \<or> (\<not> fs_less l r \<and> fs_eq l r \<and> \<not> fs_less r l)
      \<or> (\<not> fs_less l r \<and> \<not> fs_eq l r \<and> fs_less r l))
   \<and> (fs_eq l r \<longrightarrow> fs_hash h l = fs_hash h r)"
  using view_compare_zero [of "fs_view l" "fs_view r"] view_compare_neg [of "fs_view l" "fs_view r"]
    view_compare_sym [of "fs_view r" "fs_view l"]
  by (auto simp: fs_less_def fs_eq_def fs_compare_def fs_hash_def)

text \<open>
  Fact. Round trip through \<open>c_str()\<close>: a fixed string without embedded NUL, read back as a C string into
  a fixed string that has room for it, gives an equal string; and \<open>at\<close> returns the character of the
  contents in range and throws exactly out of range.
\<close>

theorem fs_cstr_roundtrip:
  assumes "fs_inv cap fs" "fs_inv cap' fs'"
  shows "(NUL \<notin> set (fs_view fs) \<and> m_size fs \<le> cap' \<longrightarrow>
      fs_eq (fs_assign_cstr ce cap' (Some (m_data fs)) fs') fs)
    \<and> (fs_at fs i = Inr c \<longleftrightarrow> i < length (fs_view fs) \<and> c = fs_view fs ! i)"
proof
  show "NUL \<notin> set (fs_view fs) \<and> m_size fs \<le> cap' \<longrightarrow>
      fs_eq (fs_assign_cstr ce cap' (Some (m_data fs)) fs') fs"
  proof
    assume a: "NUL \<notin> set (fs_view fs) \<and> m_size fs \<le> cap'"
    have d: "m_data fs = fs_view fs @ NUL # drop (Suc (m_size fs)) (m_data fs)"
      using assms(1) id_take_nth_drop [of "m_size fs" "m_data fs"] by (simp add: fs_inv_def fs_view_def)
    have "takeWhile (\<lambda>c. c \<noteq> NUL) (m_data fs) = fs_view fs"
      using a by (subst d) (auto simp: takeWhile_append)
    then show "fs_eq (fs_assign_cstr ce cap' (Some (m_data fs)) fs') fs"
      using fs_exec_spec [OF assms(2), of "Op_assign_cstr ce (Some (m_data fs))"] a
      by (simp add: fs_eq_def fs_view_def)
  qed
  show "fs_at fs i = Inr c \<longleftrightarrow> i < length (fs_view fs) \<and> c = fs_view fs ! i"
    using assms(1) by (auto simp: fs_at_def fs_view_def fs_inv_def)
qed

section \<open>Witnesses\<close>

theorem fs_run_refines_witness:
  "fs_view (fold (fs_exec 4) [Op_assign False ''abc'' 3, Op_append_cstr ''xyz'', Op_pop_back]
     (fs_init False 4 ''?????'')) = ''abc''"
  using fs_run_refines [of "''?????''" 4 "[Op_assign False ''abc'' 3, Op_append_cstr ''xyz'', Op_pop_back]" False]
  by (simp add: NUL_def)

theorem fs_order_witness:
  "fs_less (fs_assign False 2 ''ab'' 2 (fs_init False 2 ''???'')) (fs_assign False 3 ''abc'' 3 (fs_init False 3 ''!!!!''))"
  using fs_order [of "fs_assign False 2 ''ab'' 2 (fs_init False 2 ''???'')"
      "fs_assign False 3 ''abc'' 3 (fs_init False 3 ''!!!!'')"]
  by (simp add: fs_assign_def fs_init_def fs_view_def copy_to_def)

theorem fs_cstr_roundtrip_witness:
  "fs_eq (fs_assign_cstr False 3 (Some (m_data (fs_assign False 2 ''ab'' 2 (fs_init False 2 ''???''))))
     (fs_init False 3 ''!!!!'')) (fs_assign False 2 ''ab'' 2 (fs_init False 2 ''???''))"
proof -
  have "fs_inv 2 (fs_assign False 2 ''ab'' 2 (fs_init False 2 ''???''))" "fs_inv 3 (fs_init False 3 ''!!!!'')"
    "fs_view (fs_assign False 2 ''ab'' 2 (fs_init False 2 ''???'')) = ''ab''"
    "m_size (fs_assign False 2 ''ab'' 2 (fs_init False 2 ''???'')) = 2"
    by (simp_all add: fs_assign_def fs_init_def fs_view_def copy_to_def fs_inv_def)
  with fs_cstr_roundtrip [OF this(1,2)] show ?thesis by (simp add: NUL_def)
qed

end
