(* ===== verification/Ready_Queue.thy ===== *)
theory Ready_Queue
  imports Prelude
begin

text \<open>
  A worker's queue of ready actors (include/cas/detail/ready_queue.h, source/ready_queue.cpp),
  twice:

  \<^item> \<open>ready_queue\<close>: the consumer's cache (oldest first) and the producers' stack (newest first) as
    lists. It interprets \<open>fifo_queue\<close>: FIFO across all producers.
  \<^item> \<open>heap_queue\<close>: the code's own representation, the intrusive links \<open>m_ready_next\<close> and the
    self-references \<open>m_ready_self\<close> of the actor objects with head, tail and stack pointers; the
    pointer-reversing loop of \<open>fetch_more()\<close> is \<open>reverse_links\<close>, whose result is \<open>None\<close> if it does
    not end. Every heap operation returns and simulates the list operation, provided an actor is
    pushed only while it is not queued, which is the precondition in ready_queue.h.
\<close>

section \<open>The queue as lists\<close>

record ready_queue =
  rq_cache :: "actor_ptr list"
  rq_stack :: "actor_ptr list"

definition ready_init :: ready_queue where
  "ready_init = \<lparr>rq_cache = [], rq_stack = []\<rparr>"

definition ready_push :: "actor_ptr \<Rightarrow> ready_queue \<Rightarrow> ready_queue" where
  "ready_push a q = q\<lparr>rq_stack := a # rq_stack q\<rparr>"

definition ready_fetch_more :: "ready_queue \<Rightarrow> bool \<times> ready_queue" where
  "ready_fetch_more q =
     (if rq_stack q = [] then (False, q)
      else (True, \<lparr>rq_cache = rq_cache q @ rev (rq_stack q), rq_stack = []\<rparr>))"

definition ready_pop :: "ready_queue \<Rightarrow> actor_ptr option \<times> ready_queue" where
  "ready_pop q =
     (let (ok, q1) = (if rq_cache q = [] then ready_fetch_more q else (True, q))
      in if \<not> ok then (None, q1)
         else (case rq_cache q1 of
                 [] \<Rightarrow> (None, q1)
               | a # rest \<Rightarrow> (Some a, q1\<lparr>rq_cache := rest\<rparr>)))"

definition ready_maybe_nonempty :: "ready_queue \<Rightarrow> bool" where
  "ready_maybe_nonempty q \<longleftrightarrow> rq_cache q \<noteq> [] \<or> rq_stack q \<noteq> []"

definition ready_clear :: "ready_queue \<Rightarrow> ready_queue option" where
  "ready_clear q = map_option snd (drain ready_pop q)"

definition ready_contents :: "ready_queue \<Rightarrow> actor_ptr list" where
  "ready_contents q = rq_cache q @ rev (rq_stack q)"

lemma ready_maybe_nonempty_iff: "ready_maybe_nonempty q \<longleftrightarrow> ready_contents q \<noteq> []"
  by (auto simp: ready_maybe_nonempty_def ready_contents_def)

lemma ready_pop_contents:
  "fst (ready_pop q) = (case ready_contents q of [] \<Rightarrow> None | a # _ \<Rightarrow> Some a)"
  "ready_contents (snd (ready_pop q)) = tl (ready_contents q)"
  by (auto simp: ready_pop_def ready_fetch_more_def ready_contents_def split: list.splits)

interpretation ready_fifo: fifo_queue ready_pop ready_contents "\<lambda>_. True" ready_push
  by unfold_locales
    (auto simp: ready_pop_contents, auto simp: ready_push_def ready_contents_def)

section \<open>The queue as linked actor objects\<close>

record heap_queue =
  m_ready_next :: "actor_ptr \<Rightarrow> actor_ptr option"
  m_ready_self :: "actor_ptr \<Rightarrow> actor_ptr option"
  hq_head :: "actor_ptr option"
  hq_tail :: "actor_ptr option"
  hq_stack :: "actor_ptr option"

definition heap_push :: "actor_ptr \<Rightarrow> heap_queue \<Rightarrow> heap_queue" where
  "heap_push a h = h\<lparr>m_ready_self := (m_ready_self h)(a := Some a),
     m_ready_next := (m_ready_next h)(a := hq_stack h), hq_stack := Some a\<rparr>"

partial_function (option) reverse_links ::
  "actor_ptr option \<Rightarrow> actor_ptr option \<Rightarrow> (actor_ptr \<Rightarrow> actor_ptr option) \<Rightarrow>
   (actor_ptr option \<times> (actor_ptr \<Rightarrow> actor_ptr option)) option" where
  "reverse_links node first nxt =
     (case node of
        None \<Rightarrow> Some (first, nxt)
      | Some n \<Rightarrow> reverse_links (nxt n) (Some n) (nxt(n := first)))"

definition heap_fetch_more :: "heap_queue \<Rightarrow> (bool \<times> heap_queue) option" where
  "heap_fetch_more h =
     (case hq_stack h of
        None \<Rightarrow> Some (False, h)
      | Some node \<Rightarrow>
          Option.bind (reverse_links (Some node) None (m_ready_next h)) (\<lambda>(first, nxt).
            Some (True,
              (case hq_tail h of
                 None \<Rightarrow> h\<lparr>m_ready_next := nxt, hq_stack := None, hq_head := first, hq_tail := Some node\<rparr>
               | Some t \<Rightarrow> h\<lparr>m_ready_next := nxt(t := first), hq_stack := None, hq_tail := Some node\<rparr>))))"

definition heap_take_head :: "heap_queue \<Rightarrow> (actor_ptr option \<times> heap_queue) option" where
  "heap_take_head h =
     (case hq_head h of
        None \<Rightarrow> None
      | Some node \<Rightarrow>
          (let head' = m_ready_next h node
           in Some (m_ready_self h node,
                h\<lparr>hq_head := head', hq_tail := (if head' = None then None else hq_tail h),
                  m_ready_next := (m_ready_next h)(node := None),
                  m_ready_self := (m_ready_self h)(node := None)\<rparr>)))"

definition heap_pop :: "heap_queue \<Rightarrow> (actor_ptr option \<times> heap_queue) option" where
  "heap_pop h =
     (if hq_head h = None
      then Option.bind (heap_fetch_more h) (\<lambda>(ok, h1). if ok then heap_take_head h1 else Some (None, h1))
      else heap_take_head h)"

section \<open>The heap queue implements the list queue\<close>

fun linked :: "(actor_ptr \<Rightarrow> actor_ptr option) \<Rightarrow> actor_ptr option \<Rightarrow> actor_ptr list \<Rightarrow> bool" where
  "linked nxt p [] \<longleftrightarrow> p = None"
| "linked nxt p (x # xs) \<longleftrightarrow> p = Some x \<and> linked nxt (nxt x) xs"

definition represents :: "heap_queue \<Rightarrow> ready_queue \<Rightarrow> bool" where
  "represents h q \<longleftrightarrow>
     linked (m_ready_next h) (hq_head h) (rq_cache q)
   \<and> hq_tail h = (if rq_cache q = [] then None else Some (last (rq_cache q)))
   \<and> linked (m_ready_next h) (hq_stack h) (rq_stack q)
   \<and> distinct (rq_cache q @ rq_stack q)
   \<and> (\<forall>a \<in> set (rq_cache q @ rq_stack q). m_ready_self h a = Some a)"

lemma linked_frame: "x \<notin> set xs \<Longrightarrow> linked (nxt(x := y)) p xs = linked nxt p xs"
  by (induction xs arbitrary: p) auto

lemma linked_append_null:
  "linked nxt p (xs @ ys) \<Longrightarrow> distinct (xs @ ys) \<Longrightarrow> \<exists>q. linked nxt q ys"
  by (induction xs arbitrary: p) auto

lemma reverse_links_returns:
  assumes "linked nxt p xs" "linked nxt acc ys" "distinct (xs @ ys)"
  shows "\<exists>first nxt'. reverse_links p acc nxt = Some (first, nxt')
    \<and> linked nxt' first (rev xs @ ys) \<and> (\<forall>z. z \<notin> set xs \<longrightarrow> nxt' z = nxt z)"
  using assms
proof (induction xs arbitrary: p acc nxt ys)
  case Nil
  then show ?case by (simp add: reverse_links.simps)
next
  case (Cons x xs)
  let ?nxt = "nxt(x := acc)"
  from Cons.prems have p: "p = Some x" and l: "linked ?nxt (nxt x) xs" "linked ?nxt (Some x) (x # ys)"
    and d: "distinct (xs @ x # ys)"
    by (auto simp: linked_frame)
  from Cons.IH [OF l d] obtain first nxt' where
    "reverse_links (nxt x) (Some x) ?nxt = Some (first, nxt')" "linked nxt' first (rev xs @ x # ys)"
    "\<forall>z. z \<notin> set xs \<longrightarrow> nxt' z = ?nxt z"
    by blast
  with p show ?case
    by (subst reverse_links.simps) auto
qed

lemma linked_cong: "(\<forall>x \<in> set xs. f x = g x) \<Longrightarrow> linked f p xs = linked g p xs"
  by (induction xs arbitrary: p) auto

lemma linked_append:
  assumes "linked nxt p xs" "xs \<noteq> []" "linked nxt q ys" "distinct (xs @ ys)"
  shows "linked (nxt(last xs := q)) p (xs @ ys)"
  using assms
proof (induction xs arbitrary: p)
  case Nil
  then show ?case by simp
next
  case (Cons x xs)
  show ?case
  proof (cases "xs = []")
    case True
    with Cons.prems linked_frame [of x ys nxt q q] show ?thesis by (simp add: fun_upd_def)
  next
    case False
    then have "x \<noteq> last xs"
      using Cons.prems(4) by auto
    with False Cons show ?thesis by simp
  qed
qed

lemma heap_push_represents:
  assumes "represents h q" "a \<notin> set (ready_contents q)"
  shows "represents (heap_push a h) (ready_push a q)"
  using assms
  by (auto simp: represents_def heap_push_def ready_push_def ready_contents_def linked_frame)

lemma heap_fetch_more_represents:
  assumes "represents h q"
  shows "\<exists>h'. heap_fetch_more h = Some (fst (ready_fetch_more q), h')
    \<and> represents h' (snd (ready_fetch_more q))"
proof (cases "rq_stack q")
  case Nil
  with assms show ?thesis
    by (auto simp: represents_def heap_fetch_more_def ready_fetch_more_def)
next
  case (Cons n ns)
  from assms have r: "linked (m_ready_next h) (hq_head h) (rq_cache q)"
    "linked (m_ready_next h) (hq_stack h) (rq_stack q)" "distinct (rq_cache q @ rq_stack q)"
    by (auto simp: represents_def)
  from r(2) Cons have st: "hq_stack h = Some n" by simp
  from reverse_links_returns [OF r(2), of None "[]"] r(3) obtain first nxt' where
    rev: "reverse_links (hq_stack h) None (m_ready_next h) = Some (first, nxt')"
    and l: "linked nxt' first (rev (rq_stack q))"
    and frame: "\<forall>z. z \<notin> set (rq_stack q) \<longrightarrow> nxt' z = m_ready_next h z"
    by auto
  have c: "linked nxt' (hq_head h) (rq_cache q)"
    using r(1,3) frame by (subst linked_cong [of _ _ "m_ready_next h"]) auto
  have d: "distinct (rq_cache q @ rev (rq_stack q))"
    using r(3) by auto
  show ?thesis
  proof (cases "rq_cache q = []")
    case True
    with assms st rev l Cons r(3) show ?thesis
      by (auto simp: represents_def heap_fetch_more_def ready_fetch_more_def)
  next
    case False
    with linked_append [OF c False l d] assms st rev Cons r(3) show ?thesis
      by (auto simp: represents_def heap_fetch_more_def ready_fetch_more_def)
  qed
qed

lemma heap_take_head_represents:
  assumes "represents h q" "rq_cache q = a # rest"
  shows "\<exists>h'. heap_take_head h = Some (Some a, h') \<and> represents h' (q\<lparr>rq_cache := rest\<rparr>)"
  using assms
  by (cases rest) (auto simp: represents_def heap_take_head_def Let_def linked_frame)

lemma heap_pop_represents:
  assumes "represents h q"
  shows "\<exists>h'. heap_pop h = Some (fst (ready_pop q), h') \<and> represents h' (snd (ready_pop q))"
proof (cases "rq_cache q")
  case (Cons a rest)
  with assms have "hq_head h \<noteq> None"
    by (auto simp: represents_def)
  with heap_take_head_represents [OF assms Cons] Cons show ?thesis
    by (auto simp: heap_pop_def ready_pop_def)
next
  case Nil
  with assms have hd: "hq_head h = None"
    by (auto simp: represents_def)
  obtain h1 where h1: "heap_fetch_more h = Some (fst (ready_fetch_more q), h1)"
    "represents h1 (snd (ready_fetch_more q))"
    using heap_fetch_more_represents [OF assms] by blast
  show ?thesis
  proof (cases "rq_stack q = []")
    case True
    with Nil hd h1 show ?thesis
      by (auto simp: heap_pop_def ready_pop_def ready_fetch_more_def)
  next
    case False
    then obtain a rest where "rq_cache (snd (ready_fetch_more q)) = a # rest"
      using Nil by (cases "rev (rq_stack q)") (auto simp: ready_fetch_more_def)
    with heap_take_head_represents [OF h1(2) this] Nil False hd h1 show ?thesis
      by (auto simp: heap_pop_def ready_pop_def ready_fetch_more_def)
  qed
qed


section \<open>Whole runs\<close>

datatype rq_op = Rq_push actor_ptr | Rq_pop

fun run_ready :: "rq_op list \<Rightarrow> ready_queue \<Rightarrow> actor_ptr option list \<times> ready_queue" where
  "run_ready [] q = ([], q)"
| "run_ready (Rq_push a # ops) q = run_ready ops (ready_push a q)"
| "run_ready (Rq_pop # ops) q =
     (let (r, q') = ready_pop q; (rs, q'') = run_ready ops q' in (r # rs, q''))"

fun run_heap :: "rq_op list \<Rightarrow> heap_queue \<Rightarrow> (actor_ptr option list \<times> heap_queue) option" where
  "run_heap [] h = Some ([], h)"
| "run_heap (Rq_push a # ops) h = run_heap ops (heap_push a h)"
| "run_heap (Rq_pop # ops) h =
     Option.bind (heap_pop h) (\<lambda>(r, h').
       Option.bind (run_heap ops h') (\<lambda>(rs, h''). Some (r # rs, h'')))"

text \<open>The precondition of \<open>push()\<close> along a run: the actor is not queued.\<close>

fun pushes_unqueued :: "rq_op list \<Rightarrow> ready_queue \<Rightarrow> bool" where
  "pushes_unqueued [] q \<longleftrightarrow> True"
| "pushes_unqueued (Rq_push a # ops) q \<longleftrightarrow>
     a \<notin> set (ready_contents q) \<and> pushes_unqueued ops (ready_push a q)"
| "pushes_unqueued (Rq_pop # ops) q \<longleftrightarrow> pushes_unqueued ops (snd (ready_pop q))"

definition heap_init :: heap_queue where
  "heap_init = \<lparr>m_ready_next = (\<lambda>_. None), m_ready_self = (\<lambda>_. None),
     hq_head = None, hq_tail = None, hq_stack = None\<rparr>"

lemma heap_init_represents: "represents heap_init ready_init"
  by (simp add: represents_def heap_init_def ready_init_def)

text \<open>
  Property C21. The intrusive ready queue refines the list queue: for every sequence of pushes and pops
  in which an actor is pushed only while it is not queued, the linked representation returns
  (the pointer-reversal loop of \<open>fetch_more()\<close> ends each time), yields the same actors in the
  same order as the FIFO list queue, and ends in a heap that represents its final state.
\<close>

theorem heap_run_refines:
  assumes "represents h q" "pushes_unqueued ops q"
  shows "\<exists>h'. run_heap ops h = Some (fst (run_ready ops q), h') \<and> represents h' (snd (run_ready ops q))"
  using assms
proof (induction ops q arbitrary: h rule: run_ready.induct)
  case (1 q)
  then show ?case by simp
next
  case (2 a ops q)
  then show ?case using heap_push_represents [of h q a] by simp
next
  case (3 ops q)
  obtain h1 where h1: "heap_pop h = Some (fst (ready_pop q), h1)" "represents h1 (snd (ready_pop q))"
    using heap_pop_represents [OF 3(2)] by blast
  then obtain h2 where "run_heap ops h1 = Some (fst (run_ready ops (snd (ready_pop q))), h2)"
    "represents h2 (snd (run_ready ops (snd (ready_pop q))))"
    using "3.IH" [of "(fst (ready_pop q), snd (ready_pop q))"] 3(3) by fastforce
  with h1 show ?case by (auto simp: Let_def split: prod.splits)
qed

theorem heap_run_refines_witness:
  "\<exists>h'. run_heap [Rq_push 1, Rq_push 2, Rq_pop, Rq_push 1, Rq_pop, Rq_pop] heap_init =
     Some ([Some 1, Some 2, Some 1], h')"
  using heap_run_refines [OF heap_init_represents,
      of "[Rq_push 1, Rq_push 2, Rq_pop, Rq_push 1, Rq_pop, Rq_pop]"]
  by (auto simp: ready_init_def ready_push_def ready_pop_def ready_fetch_more_def ready_contents_def)

text \<open>
  Fact. \<open>clear()\<close> always returns and leaves an empty queue, and what it drops is exactly what was
  queued, in FIFO order.
\<close>

theorem ready_clear_empties:
  "\<exists>q'. drain ready_pop q = Some (ready_contents q, q') \<and> ready_clear q = Some q'
     \<and> \<not> ready_maybe_nonempty q'"
  using ready_fifo.drain_returns [of q] by (auto simp: ready_clear_def ready_maybe_nonempty_iff)

end
