(* ===== verification/Actor_Registry.thy ===== *)
theory Actor_Registry
  imports Prelude "HOL-Library.Mapping"
begin

text \<open>
  The name registry (include/cas/actor_registry.h, source/actor_registry.cpp). The map holds weak
  references: \<open>alive a\<close> says whether locking a weak reference to actor \<open>a\<close> succeeds, and is an
  argument of every operation that locks one. Each operation runs under the registry's mutex, so
  operations are atomic.

  The locale \<open>name_service\<close> states what the rest of the framework relies on, in terms of the
  names a client can observe; the registry interprets it for every \<open>alive\<close>.
\<close>

type_synonym registry = "(string, actor_ptr) mapping"

section \<open>Operations\<close>

definition registry_register :: "string \<Rightarrow> actor_ptr \<Rightarrow> registry \<Rightarrow> registry" where
  "registry_register name a reg = Mapping.update name a reg"

definition registry_unregister_name :: "string \<Rightarrow> registry \<Rightarrow> registry" where
  "registry_unregister_name name reg = Mapping.delete name reg"

definition registry_unregister :: "(actor_ptr \<Rightarrow> bool) \<Rightarrow> string \<Rightarrow> actor_ptr \<Rightarrow> registry \<Rightarrow> registry" where
  "registry_unregister alive name expected reg =
     (case Mapping.lookup reg name of
        None \<Rightarrow> reg
      | Some current \<Rightarrow>
          if \<not> alive current \<or> current = expected then Mapping.delete name reg else reg)"

definition registry_get :: "(actor_ptr \<Rightarrow> bool) \<Rightarrow> string \<Rightarrow> registry \<Rightarrow> actor_ptr option \<times> registry" where
  "registry_get alive name reg =
     (case Mapping.lookup reg name of
        None \<Rightarrow> (None, reg)
      | Some a \<Rightarrow> if alive a then (Some a, reg) else (None, Mapping.delete name reg))"

definition registry_exists :: "(actor_ptr \<Rightarrow> bool) \<Rightarrow> string \<Rightarrow> registry \<Rightarrow> bool" where
  "registry_exists alive name reg =
     (case Mapping.lookup reg name of None \<Rightarrow> False | Some a \<Rightarrow> alive a)"

definition registry_clear :: "registry \<Rightarrow> registry" where
  "registry_clear reg = Mapping.empty"

definition registry_count :: "(actor_ptr \<Rightarrow> bool) \<Rightarrow> registry \<Rightarrow> nat \<times> registry" where
  "registry_count alive reg =
     (let reg' = Mapping.filter (\<lambda>_ a. alive a) reg in (Mapping.size reg', reg'))"

section \<open>What clients observe\<close>

lemma lookup_delete_if: "Mapping.lookup (Mapping.delete k m) x = (if x = k then None else Mapping.lookup m x)"
  by transfer simp

definition visible :: "(actor_ptr \<Rightarrow> bool) \<Rightarrow> registry \<Rightarrow> string \<Rightarrow> actor_ptr option" where
  "visible alive reg name =
     (case Mapping.lookup reg name of None \<Rightarrow> None | Some a \<Rightarrow> if alive a then Some a else None)"

locale name_service =
  fixes live :: "'a \<Rightarrow> bool"
    and view :: "'r \<Rightarrow> 'n \<Rightarrow> 'a option"
    and register :: "'n \<Rightarrow> 'a \<Rightarrow> 'r \<Rightarrow> 'r"
    and unregister :: "'n \<Rightarrow> 'a \<Rightarrow> 'r \<Rightarrow> 'r"
    and get :: "'n \<Rightarrow> 'r \<Rightarrow> 'a option \<times> 'r"
  assumes view_live: "view r n = Some a \<Longrightarrow> live a"
    and view_register: "view (register n a r) = (view r)(n := (if live a then Some a else None))"
    and view_unregister: "view (unregister n a r) =
      (if view r n = Some a then (view r)(n := None) else view r)"
    and get_result: "fst (get n r) = view r n"
    and view_get: "view (snd (get n r)) = view r"
begin

lemma get_after_register: "live a \<Longrightarrow> fst (get n (register n a r)) = Some a"
  by (simp add: get_result view_register)

lemma get_other: "n \<noteq> k \<Longrightarrow> fst (get k (register n a r)) = fst (get k r)"
  by (simp add: get_result view_register)

text \<open>A stopping actor releases its own name only: a replacement keeps it.\<close>

lemma replacement_survives:
  "live b \<Longrightarrow> a \<noteq> b \<Longrightarrow> fst (get n (unregister n a (register n b r))) = Some b"
  by (simp add: get_result view_register view_unregister)

lemma unregister_own: "view r n = Some a \<Longrightarrow> fst (get n (unregister n a r)) = None"
  by (simp add: get_result view_unregister)

lemma unregister_never_shows: "fst (get n (unregister n a r)) \<noteq> Some a"
  by (simp add: get_result view_unregister)

text \<open>A rename: the new name is taken, the old one released unless someone else holds it.\<close>

lemma rename_view:
  assumes "live a" "old \<noteq> new"
  shows "fst (get new (register new a (unregister old a r))) = Some a"
    and "fst (get old (register new a (unregister old a r))) \<noteq> Some a"
  using assms by (auto simp: get_result view_register view_unregister)

end

interpretation registry: name_service alive "visible alive" registry_register
    "registry_unregister alive" "registry_get alive"
  for alive
proof unfold_locales
  fix r n a
  show "alive a" if "visible alive r n = Some a"
    using that by (auto simp: visible_def split: option.splits if_splits)
  show "visible alive (registry_register n a r) = (visible alive r)(n := if alive a then Some a else None)"
    by (auto simp: visible_def registry_register_def lookup_update' fun_eq_iff)
  show "visible alive (registry_unregister alive n a r) =
      (if visible alive r n = Some a then (visible alive r)(n := None) else visible alive r)"
    by (auto simp: visible_def registry_unregister_def lookup_delete_if fun_eq_iff
        split: option.splits if_splits)
  show "fst (registry_get alive n r) = visible alive r n"
    by (auto simp: registry_get_def visible_def split: option.splits)
  show "visible alive (snd (registry_get alive n r)) = visible alive r"
    by (auto simp: registry_get_def visible_def lookup_delete_if fun_eq_iff split: option.splits)
qed

lemma registry_exists_iff: "registry_exists alive name reg \<longleftrightarrow> visible alive reg name \<noteq> None"
  by (auto simp: registry_exists_def visible_def split: option.splits)

lemma registry_count_view:
  "fst (registry_count alive reg) = card (dom (visible alive reg))"
  "visible alive (snd (registry_count alive reg)) = visible alive reg"
proof -
  have l: "Mapping.lookup (snd (registry_count alive reg)) = visible alive reg"
    by (auto simp: registry_count_def Let_def lookup_filter visible_def fun_eq_iff split: option.splits)
  have "fst (registry_count alive reg) = card (Mapping.keys (snd (registry_count alive reg)))"
    by (simp add: registry_count_def Let_def Mapping.size_def)
  also have "\<dots> = card (dom (visible alive reg))"
    by (simp add: keys_dom_lookup l)
  finally show "fst (registry_count alive reg) = card (dom (visible alive reg))" .
  show "visible alive (snd (registry_count alive reg)) = visible alive reg"
    by (auto simp: visible_def [of _ "snd (registry_count alive reg)"] l fun_eq_iff
        visible_def [of _ reg] split: option.splits if_splits)
qed

section \<open>Properties\<close>

text \<open>
  Fact. A replacement keeps its name: if another live actor has been registered under a name,
  the conditional unregistration of the stopping predecessor leaves the lookup at the
  replacement, and in no case does a lookup after it still return the predecessor.
\<close>

theorem registry_replacement:
  "(alive b \<and> a \<noteq> b \<longrightarrow>
     fst (registry_get alive n (registry_unregister alive n a (registry_register n b reg))) = Some b)
   \<and> fst (registry_get alive n (registry_unregister alive n a reg)) \<noteq> Some a"
  using registry.replacement_survives registry.unregister_never_shows by blast

theorem registry_replacement_witness:
  "fst (registry_get (\<lambda>_. True) ''db'' (registry_unregister (\<lambda>_. True) ''db'' 1
     (registry_register ''db'' 2 (registry_register ''db'' 1 Mapping.empty)))) = Some 2"
  using registry_replacement [of "\<lambda>_. True" 2 1 "''db''" "registry_register ''db'' 1 Mapping.empty"]
  by simp

text \<open>
  Fact. Lookups never show a destroyed actor and do not disturb other names: \<open>get\<close>, \<open>exists\<close> and
  \<open>count\<close> agree on the names whose actor is alive, and pruning dead entries changes nothing a
  client can observe.
\<close>

theorem registry_observations_agree:
  "(fst (registry_get alive n reg) \<noteq> None \<longleftrightarrow> registry_exists alive n reg)
   \<and> fst (registry_count alive reg) = card {k. registry_exists alive k reg}
   \<and> fst (registry_get alive k (snd (registry_get alive n reg))) = fst (registry_get alive k reg)
   \<and> fst (registry_get alive k (snd (registry_count alive reg))) = fst (registry_get alive k reg)"
  using registry_count_view [of alive reg] registry.get_result [of alive] registry.view_get [of alive]
  by (auto simp: registry_exists_iff dom_def)

end
