(* ===== verification/Selective_Stash.thy ===== *)
theory Selective_Stash
  imports Mailbox
begin

text \<open>
  Selective receive (include/cas/detail/selective_stash.h, source/selective_stash.cpp), used by
  \<open>stateful_actor\<close> and \<open>stateful_fast_actor\<close>. \<open>stash_pull\<close> is the first loop of \<open>process_next()\<close>: it
  takes messages from the mailbox in delivery order until a framework message appears, holding the
  ordinary ones. \<open>stash_select\<close> is the scan for the oldest held message the filter accepts.
  \<open>stash_next\<close> is \<open>process_next()\<close> up to the message it runs; running it is the actor's
  \<open>dispatch_message\<close>. The pull loop returns \<open>None\<close> if it does not end.

  Shown: the counters mirror the held messages, the loop ends, framework messages are never held
  back, the message chosen is the oldest acceptable one, and nothing is lost.
\<close>

section \<open>State and filter\<close>

record stash =
  st_held :: "message list"
  st_accepted :: "type_index set"
  st_accept_all :: bool
  st_held_count :: size_t
  st_acceptable_count :: size_t

definition stash_init :: stash where
  "stash_init = \<lparr>st_held = [], st_accepted = {}, st_accept_all = True,
     st_held_count = 0, st_acceptable_count = 0\<rparr>"

definition accepts :: "stash \<Rightarrow> message \<Rightarrow> bool" where
  "accepts st m \<longleftrightarrow> st_accept_all st \<or> message_type_of m \<in> st_accepted st"

definition recount_acceptable :: "stash \<Rightarrow> stash" where
  "recount_acceptable st =
     st\<lparr>st_acceptable_count := fold (\<lambda>m n. if accepts st m then n + 1 else n) (st_held st) 0\<rparr>"

definition stash_accept :: "type_index \<Rightarrow> stash \<Rightarrow> stash" where
  "stash_accept t st =
     recount_acceptable (st\<lparr>st_accept_all := False, st_accepted := insert t (st_accepted st)\<rparr>)"

definition stash_reject :: "type_index \<Rightarrow> stash \<Rightarrow> stash" where
  "stash_reject t st =
     (if st_accept_all st then st
      else recount_acceptable (st\<lparr>st_accepted := st_accepted st - {t}\<rparr>))"

definition stash_accept_all :: "stash \<Rightarrow> stash" where
  "stash_accept_all st = recount_acceptable (st\<lparr>st_accept_all := True, st_accepted := {}\<rparr>)"

definition stash_reject_all :: "stash \<Rightarrow> stash" where
  "stash_reject_all st = recount_acceptable (st\<lparr>st_accept_all := False, st_accepted := {}\<rparr>)"

section \<open>Processing\<close>

definition is_user :: "message \<Rightarrow> bool" where
  "is_user m \<longleftrightarrow> cas_framework_kind m = FK_user"

definition stash_hold :: "message \<Rightarrow> stash \<Rightarrow> stash" where
  "stash_hold m st = st\<lparr>
     st_acceptable_count := (if accepts st m then st_acceptable_count st + 1 else st_acceptable_count st),
     st_held := st_held st @ [m],
     st_held_count := st_held_count st + 1\<rparr>"

partial_function (option) stash_pull ::
  "stash \<Rightarrow> mailbox \<Rightarrow> (message option \<times> stash \<times> mailbox) option" where
  "stash_pull st mb =
     (case mailbox_pop mb of
        (None, mb') \<Rightarrow> Some (None, st, mb')
      | (Some m, mb') \<Rightarrow>
          (if \<not> is_user m then Some (Some m, st, mb') else stash_pull (stash_hold m st) mb'))"

fun take_first :: "(message \<Rightarrow> bool) \<Rightarrow> message list \<Rightarrow> (message \<times> message list) option" where
  "take_first P [] = None"
| "take_first P (m # ms) =
     (if P m then Some (m, ms)
      else (case take_first P ms of None \<Rightarrow> None | Some (x, rest) \<Rightarrow> Some (x, m # rest)))"

definition stash_select :: "stash \<Rightarrow> message option \<times> stash" where
  "stash_select st =
     (case take_first (accepts st) (st_held st) of
        None \<Rightarrow> (None, st)
      | Some (m, rest) \<Rightarrow>
          (Some m, st\<lparr>st_held := rest, st_held_count := st_held_count st - 1,
             st_acceptable_count := st_acceptable_count st - 1\<rparr>))"

definition stash_next :: "stash \<Rightarrow> mailbox \<Rightarrow> (message option \<times> stash \<times> mailbox) option" where
  "stash_next st mb =
     Option.bind (stash_pull st mb) (\<lambda>(r, st', mb').
       case r of
         Some m \<Rightarrow> Some (Some m, st', mb')
       | None \<Rightarrow> (let (r', st'') = stash_select st' in Some (r', st'', mb')))"

definition stash_has_work :: "stash \<Rightarrow> mailbox \<Rightarrow> bool" where
  "stash_has_work st mb \<longleftrightarrow> 0 < mailbox_size mb \<or> 0 < st_acceptable_count st"

definition stash_queued :: "stash \<Rightarrow> mailbox \<Rightarrow> size_t" where
  "stash_queued st mb = mailbox_size mb + st_held_count st"

definition stash_drop_held :: "stash \<Rightarrow> message list \<times> stash" where
  "stash_drop_held st =
     (st_held st, st\<lparr>st_held := [], st_held_count := 0, st_acceptable_count := 0\<rparr>)"

section \<open>The invariant\<close>

definition stash_inv :: "stash \<Rightarrow> bool" where
  "stash_inv st \<longleftrightarrow> list_all is_user (st_held st)
     \<and> st_held_count st = of_nat (length (st_held st))
     \<and> st_acceptable_count st = of_nat (length (filter (accepts st) (st_held st)))"

lemma accepts_cong [simp]:
  "accepts (st\<lparr>st_held := h\<rparr>) = accepts st"
  "accepts (st\<lparr>st_held_count := c\<rparr>) = accepts st"
  "accepts (st\<lparr>st_acceptable_count := c\<rparr>) = accepts st"
  by (auto simp: accepts_def fun_eq_iff)

lemma recount_fold:
  "fold (\<lambda>m n. if P m then n + 1 else n) ms (c :: size_t) = c + of_nat (length (filter P ms))"
  by (induction ms arbitrary: c) (auto simp: algebra_simps)

lemma recount_inv:
  assumes "list_all is_user (st_held st)" "st_held_count st = of_nat (length (st_held st))"
  shows "stash_inv (recount_acceptable st)"
  using assms by (simp add: stash_inv_def recount_acceptable_def recount_fold)

lemma stash_init_inv: "stash_inv stash_init"
  by (simp add: stash_inv_def stash_init_def)

lemma stash_filter_inv:
  assumes "stash_inv st"
  shows "stash_inv (stash_accept t st)" "stash_inv (stash_reject t st)"
    "stash_inv (stash_accept_all st)" "stash_inv (stash_reject_all st)"
proof -
  from assms have "list_all is_user (st_held st)" "st_held_count st = of_nat (length (st_held st))"
    by (auto simp: stash_inv_def)
  with assms show "stash_inv (stash_accept t st)" "stash_inv (stash_reject t st)"
    "stash_inv (stash_accept_all st)" "stash_inv (stash_reject_all st)"
    by (auto simp: stash_accept_def stash_reject_def stash_accept_all_def stash_reject_all_def
        intro!: recount_inv)
qed

lemma stash_hold_accepts [simp]: "accepts (stash_hold m st) = accepts st"
  by (auto simp: stash_hold_def accepts_def fun_eq_iff)

lemma stash_hold_inv: "stash_inv st \<Longrightarrow> is_user m \<Longrightarrow> stash_inv (stash_hold m st)"
proof -
  assume a: "stash_inv st" "is_user m"
  have "accepts (stash_hold m st) = accepts st" by simp
  then show ?thesis
    using a by (auto simp: stash_inv_def) (auto simp: stash_hold_def)
qed

lemma take_first_None: "take_first P ms = None \<longleftrightarrow> (\<forall>m \<in> set ms. \<not> P m)"
  by (induction ms) (auto split: option.splits)

lemma take_first_Some:
  "take_first P ms = Some (m, rest) \<Longrightarrow>
     \<exists>xs ys. ms = xs @ m # ys \<and> rest = xs @ ys \<and> P m \<and> (\<forall>x \<in> set xs. \<not> P x)"
proof (induction ms arbitrary: rest)
  case Nil
  then show ?case by simp
next
  case (Cons a ms)
  show ?case
  proof (cases "P a")
    case True
    with Cons.prems show ?thesis by (intro exI [of _ "[]"] exI [of _ ms]) auto
  next
    case False
    with Cons.prems obtain rest' where "take_first P ms = Some (m, rest')" "rest = a # rest'"
      by (auto split: option.splits)
    moreover from Cons.IH [OF this(1)] obtain xs ys where
      "ms = xs @ m # ys" "rest' = xs @ ys" "P m" "\<forall>x \<in> set xs. \<not> P x" by blast
    ultimately show ?thesis
      using False by (intro exI [of _ "a # xs"] exI [of _ ys]) auto
  qed
qed

lemma stash_select_inv:
  assumes "stash_inv st"
  shows "stash_inv (snd (stash_select st))"
proof (cases "take_first (accepts st) (st_held st)")
  case None
  with assms show ?thesis by (simp add: stash_select_def)
next
  case (Some p)
  then obtain m rest where "take_first (accepts st) (st_held st) = Some (m, rest)"
    by (cases p) auto
  moreover from take_first_Some [OF this] obtain xs ys where
    "st_held st = xs @ m # ys" "rest = xs @ ys" "accepts st m"
    by auto
  ultimately show ?thesis
    using assms by (auto simp: stash_inv_def stash_select_def)
qed

section \<open>The pull loop\<close>

lemma stash_pull_returns:
  assumes "mailbox_inv mb"
  shows "\<exists>mb'. stash_pull st mb =
      Some (find (\<lambda>m. \<not> is_user m) (queued mb), fold stash_hold (takeWhile is_user (queued mb)) st, mb')
    \<and> mailbox_inv mb' \<and> queued mb' = tl (dropWhile is_user (queued mb))"
  using assms
proof (induction "queued mb" arbitrary: mb st)
  case Nil
  then show ?case
    using mailbox_queue.pop_Nil [of mb] mailbox_pop_inv [of mb]
    by (subst stash_pull.simps) (cases "mailbox_pop mb"; auto)
next
  case (Cons m ms)
  from Cons.hyps(2) have q: "queued mb = m # ms" by simp
  obtain mb1 where p: "mailbox_pop mb = (Some m, mb1)" "queued mb1 = ms" "mailbox_inv mb1"
    using mailbox_queue.pop_Cons [OF Cons.prems q] mailbox_pop_inv [OF Cons.prems]
    by (cases "mailbox_pop mb") auto
  show ?case
  proof (cases "is_user m")
    case False
    with p q show ?thesis by (subst stash_pull.simps) simp
  next
    case True
    with Cons.hyps(1) [of mb1 "stash_hold m st"] p q show ?thesis
      by (subst stash_pull.simps) simp
  qed
qed

lemma fold_hold_held [simp]:
  "st_held (fold stash_hold ms st) = st_held st @ ms" "accepts (fold stash_hold ms st) = accepts st"
proof -
  show "accepts (fold stash_hold ms st) = accepts st"
    by (induction ms arbitrary: st) auto
  show "st_held (fold stash_hold ms st) = st_held st @ ms"
    by (induction ms arbitrary: st) (auto simp: stash_hold_def)
qed

lemma fold_hold_inv: "stash_inv st \<Longrightarrow> list_all is_user ms \<Longrightarrow> stash_inv (fold stash_hold ms st)"
  by (induction ms arbitrary: st) (auto intro: stash_hold_inv)

lemma list_all_takeWhile: "list_all P (takeWhile P xs)"
  by (induction xs) auto


lemma find_take_first: "find P ms = map_option fst (take_first P ms)"
  by (induction ms) (auto split: option.splits)

lemma find_None_takeWhile: "find (\<lambda>m. \<not> P m) ms = None \<Longrightarrow> takeWhile P ms = ms \<and> dropWhile P ms = []"
  by (induction ms) (auto split: if_splits)

lemma find_Some_split:
  "find (\<lambda>m. \<not> P m) ms = Some f \<Longrightarrow> ms = takeWhile P ms @ f # tl (dropWhile P ms)"
  by (induction ms) (auto split: if_splits)

lemma stash_select_result:
  "fst (stash_select st) = find (accepts st) (st_held st)"
  "take_first (accepts st) (st_held st) = Some (m, rest) \<Longrightarrow> st_held (snd (stash_select st)) = rest"
  "take_first (accepts st) (st_held st) = None \<Longrightarrow> snd (stash_select st) = st"
  by (auto simp: stash_select_def find_take_first split: option.splits)

lemma stash_next_framework:
  assumes "mailbox_inv mb" "find (\<lambda>m. \<not> is_user m) (queued mb) = Some f"
  shows "\<exists>mb'. stash_next st mb = Some (Some f, fold stash_hold (takeWhile is_user (queued mb)) st, mb')
    \<and> mailbox_inv mb' \<and> queued mb' = tl (dropWhile is_user (queued mb))"
  using stash_pull_returns [OF assms(1), of st] assms(2) by (auto simp: stash_next_def)

lemma stash_next_ordinary:
  assumes "mailbox_inv mb" "find (\<lambda>m. \<not> is_user m) (queued mb) = None"
  shows "\<exists>mb'. stash_next st mb =
      Some (fst (stash_select (fold stash_hold (queued mb) st)),
            snd (stash_select (fold stash_hold (queued mb) st)), mb')
    \<and> mailbox_inv mb' \<and> queued mb' = []"
  using stash_pull_returns [OF assms(1), of st] assms(2) find_None_takeWhile [OF assms(2)]
  by (auto simp: stash_next_def Let_def split: prod.splits)

section \<open>Properties\<close>

text \<open>
  Property C22. Framework messages are never held back: if the mailbox holds a call or a shutdown
  request, \<open>process_next()\<close> runs the first of them in delivery order; the ordinary messages ahead
  of it are held behind those already held, in order, and the rest stays in the mailbox.
\<close>

theorem stash_framework_first:
  assumes "mailbox_inv mb" "stash_inv st" "find (\<lambda>m. \<not> is_user m) (queued mb) = Some f"
  shows "\<exists>st' mb'. stash_next st mb = Some (Some f, st', mb') \<and> stash_inv st' \<and> mailbox_inv mb'
    \<and> st_held st @ queued mb = st_held st' @ f # queued mb'"
proof -
  from stash_next_framework [OF assms(1,3), of st] obtain mb' where
    n: "stash_next st mb = Some (Some f, fold stash_hold (takeWhile is_user (queued mb)) st, mb')"
    "mailbox_inv mb'" "queued mb' = tl (dropWhile is_user (queued mb))"
    by blast
  show ?thesis
    by (intro exI conjI, rule n(1))
      (use n assms fold_hold_inv [OF assms(2) list_all_takeWhile] find_Some_split [OF assms(3)] in auto)
qed

text \<open>
  Fact. Selective receive: with only ordinary messages about, \<open>process_next()\<close> returns and runs
  the oldest message (held ones before newly arrived ones) whose type the current state accepts,
  if there is one; all others stay held in their order and the mailbox is empty.
\<close>

theorem stash_selects_oldest:
  assumes "mailbox_inv mb" "stash_inv st" "find (\<lambda>m. \<not> is_user m) (queued mb) = None"
  shows "\<exists>st' mb'. stash_next st mb = Some (find (accepts st) (st_held st @ queued mb), st', mb')
    \<and> stash_inv st' \<and> queued mb' = []
    \<and> (case find (accepts st) (st_held st @ queued mb) of
         None \<Rightarrow> st_held st' = st_held st @ queued mb
       | Some m \<Rightarrow> \<exists>xs ys. st_held st @ queued mb = xs @ m # ys \<and> st_held st' = xs @ ys
           \<and> accepts st m \<and> (\<forall>x \<in> set xs. \<not> accepts st x))"
proof -
  let ?st = "fold stash_hold (queued mb) st"
  have users: "list_all is_user (queued mb)"
    using assms(3) by (simp add: find_None_iff list_all_iff)
  from stash_next_ordinary [OF assms(1,3), of st] obtain mb' where
    n: "stash_next st mb = Some (fst (stash_select ?st), snd (stash_select ?st), mb')" "queued mb' = []"
    by blast
  have r: "fst (stash_select ?st) = find (accepts st) (st_held st @ queued mb)"
    by (simp add: stash_select_result)
  have "stash_inv (snd (stash_select ?st))"
    by (rule stash_select_inv [OF fold_hold_inv [OF assms(2) users]])
  moreover have "case find (accepts st) (st_held st @ queued mb) of
         None \<Rightarrow> st_held (snd (stash_select ?st)) = st_held st @ queued mb
       | Some m \<Rightarrow> \<exists>xs ys. st_held st @ queued mb = xs @ m # ys
           \<and> st_held (snd (stash_select ?st)) = xs @ ys
           \<and> accepts st m \<and> (\<forall>x \<in> set xs. \<not> accepts st x)"
  proof (cases "take_first (accepts st) (st_held st @ queued mb)")
    case None
    then show ?thesis
      by (simp add: find_take_first stash_select_result)
  next
    case (Some p)
    then obtain m rest where "take_first (accepts st) (st_held st @ queued mb) = Some (m, rest)"
      by (cases p) auto
    with take_first_Some [OF this] stash_select_result(2) [of ?st m rest] show ?thesis
      by (auto simp: find_take_first)
  qed
  ultimately show ?thesis
    using n r by auto
qed

text \<open>
  Fact. The work test matches the filter: with a consistent stash and fewer than \<open>2 ^ 64\<close>
  messages, \<open>has_work()\<close> is true exactly when the mailbox holds a message or some held message is
  acceptable now, so an actor is never idle while a held message could run.
\<close>

theorem stash_has_work_iff:
  assumes "mailbox_inv mb" "stash_inv st" "length (st_held st) < 2 ^ 64"
  shows "stash_has_work st mb \<longleftrightarrow> queued mb \<noteq> [] \<or> (\<exists>m \<in> set (st_held st). accepts st m)"
proof -
  have "length (filter (accepts st) (st_held st)) < 2 ^ 64"
    using assms(3) length_filter_le le_less_trans by blast
  then have "0 < st_acceptable_count st \<longleftrightarrow> (\<exists>m \<in> set (st_held st). accepts st m)"
    using assms(2) by (simp add: stash_inv_def of_nat_length_pos filter_empty_conv)
  moreover have "mailbox_size mb = of_nat (length (queued mb))" "length (queued mb) < 2 ^ 64"
    using assms(1) by (auto simp: mailbox_inv_def mailbox_size_def call_size_def other_size_def queued_def)
  ultimately show ?thesis
    by (simp add: stash_has_work_def of_nat_length_pos)
qed

section \<open>Witnesses\<close>

definition sample_shutdown :: message where
  "sample_shutdown = \<lparr>m_addr = 9, sender = None, message_id = 0, correlation_id = 0, body = System_shutdown\<rparr>"

lemma push_init_inv: "mailbox_inv (snd (mailbox_push m mailbox_init))"
  by (rule mailbox_push_inv [OF mailbox_init_inv]) (simp add: mailbox_init_def lane_defs)

lemma queued_push_init: "queued (snd (mailbox_push m mailbox_init)) = [m]"
  by (simp add: lane_defs mailbox_push_def mailbox_init_def Let_def)

theorem stash_framework_first_witness:
  "\<exists>st' mb'. stash_next stash_init (snd (mailbox_push sample_shutdown mailbox_init)) =
     Some (Some sample_shutdown, st', mb')"
  using stash_framework_first [OF push_init_inv stash_init_inv, of sample_shutdown sample_shutdown]
  by (auto simp: queued_push_init is_user_def cas_framework_kind_def sample_shutdown_def)

theorem stash_selects_oldest_witness:
  "\<exists>st' mb'. stash_next stash_init (snd (mailbox_push (sample_user 1) mailbox_init)) =
     Some (Some (sample_user 1), st', mb')"
  using stash_selects_oldest [OF push_init_inv stash_init_inv, of "sample_user 1"]
  by (auto simp: queued_push_init is_user_def cas_framework_kind_def sample_user_def accepts_def
      stash_init_def)

theorem stash_has_work_iff_witness:
  "stash_has_work stash_init (snd (mailbox_push (sample_user 1) mailbox_init))"
  using stash_has_work_iff [OF push_init_inv stash_init_inv, of "sample_user 1"]
  by (simp add: queued_push_init stash_init_def)

end
