(* ===== verification/Timer_Manager.thy ===== *)
theory Timer_Manager
  imports Prelude
begin

text \<open>
  The timer manager (include/cas/timer.h, include/cas/timer_manager.h, source/timer_manager.cpp).
  \<open>tm_timers\<close> is the store of \<open>scheduled_timer\<close> objects: the priority queue and the lookup map
  share them through \<open>shared_ptr\<close>, so \<open>cancel()\<close> marks the very object the queue holds. A timer
  object is addressed by its id. \<open>std::priority_queue\<close> promises only that \<open>top()\<close> is an element
  none precedes, so a turn of the timer thread takes any such element (\<open>is_top\<close>).

  \<open>timer_turn\<close> is one iteration of \<open>timer_thread_func\<close> up to the callback, under the mutex, for the
  time it reads from the clock. \<open>timer_step\<close> interleaves turns with schedule, cancel and the
  passing of time; \<open>tm_fired\<close> records each firing with the time and the deadline it honoured.
\<close>

type_synonym timer_id = uint64

definition INVALID_TIMER_ID :: timer_id where
  "INVALID_TIMER_ID = 0"

record scheduled_timer =
  next_fire_time :: time_point
  interval :: millis
  timer_msg :: nat
  cancelled :: bool

record timer_manager =
  tm_timers :: "timer_id \<Rightarrow> scheduled_timer option"
  tm_queue :: "timer_id list"
  tm_lookup :: "timer_id set"
  tm_callbacks :: "timer_id set"
  m_next_timer_id :: timer_id
  tm_running :: bool
  tm_thread :: bool

definition timer_init :: timer_manager where
  "timer_init = \<lparr>tm_timers = (\<lambda>_. None), tm_queue = [], tm_lookup = {}, tm_callbacks = {},
     m_next_timer_id = 1, tm_running = False, tm_thread = False\<rparr>"

section \<open>Operations\<close>

definition timer_start :: "timer_manager \<Rightarrow> timer_manager" where
  "timer_start s = (if tm_thread s then s else s\<lparr>tm_running := True, tm_thread := True\<rparr>)"

definition timer_stop :: "timer_manager \<Rightarrow> timer_manager" where
  "timer_stop s = s\<lparr>tm_running := False, tm_thread := False, tm_queue := [], tm_lookup := {}, tm_callbacks := {}\<rparr>"

definition timer_destroy :: "timer_manager \<Rightarrow> timer_manager" where
  "timer_destroy s = timer_stop s"

definition timer_is_running :: "timer_manager \<Rightarrow> bool" where
  "timer_is_running s \<longleftrightarrow> tm_running s"

definition timer_schedule ::
  "time_point \<Rightarrow> nat \<Rightarrow> millis \<Rightarrow> millis \<Rightarrow> timer_manager \<Rightarrow> timer_id \<times> timer_manager" where
  "timer_schedule now msg delay ivl s =
     (let tid = m_next_timer_id s;
          t = \<lparr>next_fire_time = now + delay, interval = ivl, timer_msg = msg, cancelled = False\<rparr>
      in (tid, s\<lparr>m_next_timer_id := tid + 1, tm_timers := (tm_timers s)(tid \<mapsto> t),
            tm_queue := tid # tm_queue s, tm_lookup := insert tid (tm_lookup s),
            tm_callbacks := insert tid (tm_callbacks s)\<rparr>))"

definition timer_cancel :: "timer_id \<Rightarrow> timer_manager \<Rightarrow> timer_manager" where
  "timer_cancel tid s =
     (let s1 = (if tid \<in> tm_lookup s
                then s\<lparr>tm_timers := (tm_timers s)(tid := map_option (cancelled_update (\<lambda>_. True)) (tm_timers s tid)),
                       tm_lookup := tm_lookup s - {tid}\<rparr>
                else s)
      in s1\<lparr>tm_callbacks := tm_callbacks s1 - {tid}\<rparr>)"

definition active_count :: "timer_manager \<Rightarrow> nat" where
  "active_count s = card (tm_lookup s)"

definition retain_active :: "timer_manager \<Rightarrow> timer_id set \<Rightarrow> timer_id set" where
  "retain_active s ids = {tid \<in> ids. tid \<in> tm_callbacks s}"

definition fire_time :: "timer_manager \<Rightarrow> timer_id \<Rightarrow> time_point" where
  "fire_time s tid = (case tm_timers s tid of Some t \<Rightarrow> next_fire_time t | None \<Rightarrow> 0)"

definition is_top :: "timer_manager \<Rightarrow> timer_id \<Rightarrow> bool" where
  "is_top s tid \<longleftrightarrow> tid \<in> set (tm_queue s) \<and> (\<forall>k \<in> set (tm_queue s). fire_time s tid \<le> fire_time s k)"

datatype turn_result =
    Turn_dropped
  | Turn_wait time_point
  | Turn_fire timer_id nat

definition timer_turn :: "time_point \<Rightarrow> timer_id \<Rightarrow> timer_manager \<Rightarrow> turn_result \<times> timer_manager" where
  "timer_turn now tid s =
     (case tm_timers s tid of
        None \<Rightarrow> (Turn_dropped, s\<lparr>tm_queue := remove1 tid (tm_queue s)\<rparr>)
      | Some t \<Rightarrow>
          if cancelled t then (Turn_dropped, s\<lparr>tm_queue := remove1 tid (tm_queue s)\<rparr>)
          else if now < next_fire_time t then (Turn_wait (next_fire_time t), s)
          else
            (let s1 = s\<lparr>tm_queue := remove1 tid (tm_queue s)\<rparr>
             in if tid \<notin> tm_callbacks s1 then (Turn_dropped, s1)
                else if interval t > 0
                then (Turn_fire tid (timer_msg t),
                      s1\<lparr>tm_timers := (tm_timers s1)(tid \<mapsto> t\<lparr>next_fire_time := next_fire_time t + interval t\<rparr>),
                         tm_queue := tid # tm_queue s1\<rparr>)
                else (Turn_fire tid (timer_msg t),
                      s1\<lparr>tm_lookup := tm_lookup s1 - {tid}, tm_callbacks := tm_callbacks s1 - {tid}\<rparr>)))"

section \<open>Invariant\<close>

definition is_pending :: "timer_manager \<Rightarrow> timer_id \<Rightarrow> bool" where
  "is_pending s tid \<longleftrightarrow> tid \<in> set (tm_queue s) \<and> (\<exists>t. tm_timers s tid = Some t \<and> \<not> cancelled t)"

definition timer_inv :: "timer_manager \<Rightarrow> bool" where
  "timer_inv s \<longleftrightarrow> distinct (tm_queue s) \<and> (\<forall>tid \<in> set (tm_queue s). tm_timers s tid \<noteq> None)
     \<and> tm_lookup s = {tid. is_pending s tid} \<and> tm_callbacks s = tm_lookup s"

lemma timer_init_inv: "timer_inv timer_init"
  by (simp add: timer_inv_def timer_init_def is_pending_def)

lemma timer_stop_inv: "timer_inv s \<Longrightarrow> timer_inv (timer_stop s)"
  by (simp add: timer_inv_def timer_stop_def is_pending_def)

lemma timer_start_inv: "timer_inv s \<Longrightarrow> timer_inv (timer_start s)"
  by (simp add: timer_inv_def timer_start_def is_pending_def)

lemma timer_schedule_inv:
  assumes "timer_inv s" "m_next_timer_id s \<notin> set (tm_queue s)"
  shows "timer_inv (snd (timer_schedule now msg delay ivl s))"
  using assms by (auto simp: timer_inv_def timer_schedule_def is_pending_def Let_def)

lemma timer_cancel_inv: "timer_inv s \<Longrightarrow> timer_inv (timer_cancel tid s)"
  by (auto simp: timer_inv_def timer_cancel_def is_pending_def Let_def split: if_splits)

lemma timer_turn_inv:
  assumes "timer_inv s" "is_top s tid"
  shows "timer_inv (snd (timer_turn now tid s))"
  using assms
  by (auto simp: timer_inv_def timer_turn_def is_pending_def is_top_def Let_def split: option.splits)

lemma active_count_pending: "timer_inv s \<Longrightarrow> active_count s = card {tid. is_pending s tid}"
  by (simp add: active_count_def timer_inv_def)


section \<open>Turns of the timer thread\<close>

lemma timer_turn_fire_iff:
  assumes "timer_inv s" "is_top s tid"
  shows "(\<exists>m. fst (timer_turn now tid s) = Turn_fire tid m) \<longleftrightarrow> is_pending s tid \<and> fire_time s tid \<le> now"
  using assms
  by (auto simp: timer_inv_def timer_turn_def is_pending_def is_top_def fire_time_def Let_def
      split: option.splits)

lemma timer_turn_only_head: "fst (timer_turn now tid s) = Turn_fire k m \<Longrightarrow> k = tid"
  by (auto simp: timer_turn_def Let_def split: option.splits if_splits)

lemma timer_turn_frame:
  "k \<noteq> tid \<Longrightarrow> tm_timers (snd (timer_turn now tid s)) k = tm_timers s k"
  "k \<noteq> tid \<Longrightarrow> k \<in> set (tm_queue (snd (timer_turn now tid s))) \<longleftrightarrow> k \<in> set (tm_queue s)"
  by (auto simp: timer_turn_def Let_def split: option.splits)

lemma is_pending_frame:
  assumes "k \<noteq> tid"
  shows "is_pending (snd (timer_turn now tid s)) k = is_pending s k"
    "fire_time (snd (timer_turn now tid s)) k = fire_time s k"
  using timer_turn_frame [OF assms, of now s]
  by (auto simp: is_pending_def fire_time_def)

lemma exists_top: "tm_queue s \<noteq> [] \<Longrightarrow> \<exists>tid. is_top s tid"
proof -
  assume "tm_queue s \<noteq> []"
  then have "finite (fire_time s ` set (tm_queue s))" "fire_time s ` set (tm_queue s) \<noteq> {}" by auto
  from Min_in [OF this] Min_le [OF this(1)] show ?thesis
    by (force simp: is_top_def)
qed

section \<open>Interleaved executions\<close>

record timer_world =
  tw_now :: time_point
  tw_tm :: timer_manager
  tw_fired :: "(timer_id \<times> time_point \<times> time_point) list"
  tw_cancelled :: "timer_id set"
  tw_periods :: "timer_id \<Rightarrow> (time_point \<times> millis) option"

definition timer_world_init :: "timer_world \<Rightarrow> bool" where
  "timer_world_init w \<longleftrightarrow> tw_tm w = timer_init \<and> tw_fired w = [] \<and> tw_cancelled w = {}
     \<and> tw_periods w = (\<lambda>_. None)"

text \<open>
  \<open>ts_schedule\<close> has the one bound of the model: the 64-bit id counter has not wrapped onto an id that
  was handed out before.
\<close>

inductive timer_step :: "timer_world \<Rightarrow> timer_world \<Rightarrow> bool" where
  ts_tick: "tw_now w \<le> n \<Longrightarrow> timer_step w (w\<lparr>tw_now := n\<rparr>)"
| ts_schedule: "tw_periods w (m_next_timer_id (tw_tm w)) = None \<Longrightarrow>
    timer_schedule (tw_now w) msg delay ivl (tw_tm w) = (tid, s) \<Longrightarrow>
    timer_step w (w\<lparr>tw_tm := s, tw_periods := (tw_periods w)(tid \<mapsto> (tw_now w + delay, ivl))\<rparr>)"
| ts_cancel: "timer_step w (w\<lparr>tw_tm := timer_cancel tid (tw_tm w),
    tw_cancelled := (if tw_periods w tid = None then tw_cancelled w else insert tid (tw_cancelled w))\<rparr>)"
| ts_turn: "is_top (tw_tm w) tid \<Longrightarrow> timer_turn (tw_now w) tid (tw_tm w) = (r, s) \<Longrightarrow>
    timer_step w (w\<lparr>tw_tm := s, tw_fired :=
      (case r of Turn_fire k m \<Rightarrow> tw_fired w @ [(k, tw_now w, fire_time (tw_tm w) k)] | _ \<Rightarrow> tw_fired w)\<rparr>)"

definition firings :: "timer_id \<Rightarrow> timer_world \<Rightarrow> (time_point \<times> time_point) list" where
  "firings tid w = map snd (filter (\<lambda>f. fst f = tid) (tw_fired w))"

text \<open>
  The firings of a timer, the deadlines they honoured and its state: the n-th firing of a timer
  honours the deadline \<open>first + n * interval\<close>, a pending timer waits for the next of these, and a
  one-shot timer that fired is not pending any more.
\<close>

definition schedule_ok :: "timer_world \<Rightarrow> timer_id \<Rightarrow> bool" where
  "schedule_ok w tid \<longleftrightarrow>
     (case tw_periods w tid of
        None \<Rightarrow> firings tid w = [] \<and> tid \<notin> set (tm_queue (tw_tm w))
      | Some (first, ivl) \<Rightarrow>
          map snd (firings tid w) = map (\<lambda>n. first + int n * ivl) [0..<length (firings tid w)]
        \<and> (\<forall>f \<in> set (firings tid w). snd f \<le> fst f)
        \<and> (ivl \<le> 0 \<longrightarrow> length (firings tid w) \<le> 1)
        \<and> (is_pending (tw_tm w) tid \<longrightarrow>
             fire_time (tw_tm w) tid = first + int (length (firings tid w)) * ivl
           \<and> (ivl \<le> 0 \<longrightarrow> firings tid w = [])
           \<and> (\<exists>t. tm_timers (tw_tm w) tid = Some t \<and> interval t = ivl)))"

definition timer_world_inv :: "timer_world \<Rightarrow> bool" where
  "timer_world_inv w \<longleftrightarrow> timer_inv (tw_tm w) \<and> (\<forall>tid. schedule_ok w tid)
     \<and> (\<forall>tid \<in> tw_cancelled w. \<not> is_pending (tw_tm w) tid \<and> tw_periods w tid \<noteq> None)"


lemma timer_cancel_effect:
  assumes "timer_inv s"
  shows "\<not> is_pending (timer_cancel tid s) tid"
    "k \<noteq> tid \<Longrightarrow> is_pending (timer_cancel tid s) k = is_pending s k"
    "k \<noteq> tid \<Longrightarrow> tm_timers (timer_cancel tid s) k = tm_timers s k"
    "tm_queue (timer_cancel tid s) = tm_queue s"
  using assms by (auto simp: timer_cancel_def is_pending_def timer_inv_def Let_def)

lemma timer_schedule_effect:
  assumes "timer_schedule now msg delay ivl s = (tid, s')"
  shows "tid = m_next_timer_id s" "tm_queue s' = tid # tm_queue s"
    "tm_timers s' = (tm_timers s)(tid \<mapsto> \<lparr>next_fire_time = now + delay, interval = ivl,
       timer_msg = msg, cancelled = False\<rparr>)"
  using assms by (auto simp: timer_schedule_def Let_def)

lemma timer_turn_fire_effect:
  assumes "timer_inv s" "is_top s tid" "timer_turn now tid s = (Turn_fire k m, s')"
  shows "k = tid" "is_pending s tid" "fire_time s tid \<le> now"
    "is_pending s' tid \<Longrightarrow> 0 < interval (the (tm_timers s tid))
       \<and> fire_time s' tid = fire_time s tid + interval (the (tm_timers s tid))
       \<and> (\<exists>t. tm_timers s' tid = Some t \<and> interval t = interval (the (tm_timers s tid)))"
  using assms
  by (auto simp: timer_turn_def is_pending_def is_top_def timer_inv_def fire_time_def Let_def
      split: option.splits if_splits)

lemma timer_turn_quiet_effect:
  assumes "timer_inv s" "is_top s tid" "timer_turn now tid s = (r, s')" "\<And>k m. r \<noteq> Turn_fire k m"
  shows "is_pending s' k \<Longrightarrow> is_pending s k" "tm_timers s' = tm_timers s"
    "set (tm_queue s') \<subseteq> set (tm_queue s)"
  using assms
  by (auto simp: timer_turn_def is_pending_def is_top_def timer_inv_def Let_def
      split: option.splits if_splits dest: notin_set_remove1 set_remove1_subset [THEN subsetD])

lemma firings_append:
  "firings tid (w\<lparr>tw_tm := s, tw_fired := tw_fired w @ [(k, now, d)]\<rparr>) =
     firings tid w @ (if k = tid then [(now, d)] else [])"
  by (simp add: firings_def)

lemma firings_frame [simp]:
  "firings tid (w\<lparr>tw_now := n\<rparr>) = firings tid w"
  "firings tid (w\<lparr>tw_tm := s\<rparr>) = firings tid w"
  "firings tid (w\<lparr>tw_tm := s, tw_cancelled := c\<rparr>) = firings tid w"
  "firings tid (w\<lparr>tw_tm := s, tw_periods := p\<rparr>) = firings tid w"
  "firings tid (w\<lparr>tw_tm := s, tw_fired := tw_fired w\<rparr>) = firings tid w"
  by (simp_all add: firings_def)

lemma schedule_ok_cong:
  assumes "schedule_ok w tid" "firings tid w' = firings tid w" "tw_periods w' tid = tw_periods w tid"
    "tid \<in> set (tm_queue (tw_tm w')) \<Longrightarrow> tid \<in> set (tm_queue (tw_tm w))"
    "is_pending (tw_tm w') tid \<Longrightarrow> is_pending (tw_tm w) tid \<and> tm_timers (tw_tm w') tid = tm_timers (tw_tm w) tid"
  shows "schedule_ok w' tid"
  using assms by (auto simp: schedule_ok_def fire_time_def split: option.splits)

lemma schedule_ok_fire:
  assumes "schedule_ok w tid" "tw_periods w tid = Some (first, ivl)" "is_pending (tw_tm w) tid"
    "fire_time (tw_tm w) tid \<le> tw_now w" "interval (the (tm_timers (tw_tm w) tid)) = ivl"
    "is_pending s tid \<Longrightarrow> 0 < ivl \<and> fire_time s tid = fire_time (tw_tm w) tid + ivl
       \<and> (\<exists>t. tm_timers s tid = Some t \<and> interval t = ivl)"
  shows "schedule_ok (w\<lparr>tw_tm := s,
    tw_fired := tw_fired w @ [(tid, tw_now w, fire_time (tw_tm w) tid)]\<rparr>) tid"
proof -
  let ?F = "firings tid w"
  have ok: "map snd ?F = map (\<lambda>n. first + int n * ivl) [0..<length ?F]" "\<forall>f \<in> set ?F. snd f \<le> fst f"
    "fire_time (tw_tm w) tid = first + int (length ?F) * ivl" "ivl \<le> 0 \<longrightarrow> ?F = []"
    using assms(1-3) by (simp_all add: schedule_ok_def)
  have next_time: "first + int (length ?F) * ivl + ivl = first + int (Suc (length ?F)) * ivl"
    by (simp add: algebra_simps)
  have pend: "is_pending s tid \<longrightarrow> 0 < ivl \<and> fire_time s tid = fire_time (tw_tm w) tid + ivl
       \<and> (\<exists>t. tm_timers s tid = Some t \<and> interval t = ivl)"
    using assms(6) by blast
  show ?thesis
    unfolding schedule_ok_def firings_append
    using ok assms(2,4) pend next_time by (cases "ivl \<le> 0") auto
qed

lemma schedule_step_inv:
  assumes inv: "timer_world_inv w" and new: "tw_periods w (m_next_timer_id (tw_tm w)) = None"
    and sch: "timer_schedule (tw_now w) msg delay ivl (tw_tm w) = (tid, s)"
    and w': "w' = w\<lparr>tw_tm := s, tw_periods := (tw_periods w)(tid \<mapsto> (tw_now w + delay, ivl))\<rparr>"
  shows "timer_world_inv w'"
proof -
  note e = timer_schedule_effect [OF sch]
  have fresh: "tid \<notin> set (tm_queue (tw_tm w))" "firings tid w = []"
    using inv [unfolded timer_world_inv_def, THEN conjunct2, THEN conjunct1, rule_format, of tid]
      new e(1) by (auto simp: schedule_ok_def)
  have "timer_inv s"
    using timer_schedule_inv [of "tw_tm w" "tw_now w" msg delay ivl] inv sch fresh e(1)
    by (simp add: timer_world_inv_def)
  moreover have "schedule_ok w' k" for k
  proof (cases "k = tid")
    case True
    with fresh e show ?thesis by (simp add: w' schedule_ok_def fire_time_def)
  next
    case False
    show ?thesis
      by (rule schedule_ok_cong [of w]) (use inv False e in \<open>auto simp: w' timer_world_inv_def is_pending_def\<close>)
  qed
  moreover have "\<not> is_pending s k" if "k \<in> tw_cancelled w" for k
    using that inv new e by (auto simp: timer_world_inv_def is_pending_def)
  ultimately show ?thesis
    using inv sch new by (auto simp: timer_world_inv_def w')
qed

lemma cancel_step_inv:
  assumes inv: "timer_world_inv w"
    and w': "w' = w\<lparr>tw_tm := timer_cancel tid (tw_tm w),
      tw_cancelled := (if tw_periods w tid = None then tw_cancelled w else insert tid (tw_cancelled w))\<rparr>"
  shows "timer_world_inv w'"
proof -
  have ti: "timer_inv (tw_tm w)" using inv by (simp add: timer_world_inv_def)
  note e = timer_cancel_effect [OF ti, where tid = tid]
  have pend: "is_pending (timer_cancel tid (tw_tm w)) k \<Longrightarrow>
      is_pending (tw_tm w) k \<and> tm_timers (timer_cancel tid (tw_tm w)) k = tm_timers (tw_tm w) k" for k
    using e by metis
  have "schedule_ok w' k" for k
    by (rule schedule_ok_cong [of w]) (use inv e(4) pend in \<open>auto simp: w' timer_world_inv_def\<close>)
  then show ?thesis
    using inv w' timer_cancel_inv [OF ti, of tid] e
    by (auto simp: timer_world_inv_def split: if_splits) metis+
qed

lemma quiet_turn_inv:
  assumes inv: "timer_world_inv w" and top: "is_top (tw_tm w) tid"
    and turn: "timer_turn (tw_now w) tid (tw_tm w) = (r, s)" and r: "\<And>k m. r \<noteq> Turn_fire k m"
  shows "timer_world_inv (w\<lparr>tw_tm := s\<rparr>)"
proof -
  have ti: "timer_inv (tw_tm w)" using inv by (simp add: timer_world_inv_def)
  note e = timer_turn_quiet_effect [OF ti top turn r]
  have "schedule_ok (w\<lparr>tw_tm := s\<rparr>) k" for k
    by (rule schedule_ok_cong [of w]) (use inv e in \<open>auto simp: timer_world_inv_def\<close>)
  then show ?thesis
    using inv e timer_turn_inv [OF ti top, of "tw_now w"] turn by (auto simp: timer_world_inv_def)
qed

lemma firing_turn_inv:
  assumes inv: "timer_world_inv w" and top: "is_top (tw_tm w) tid"
    and turn: "timer_turn (tw_now w) tid (tw_tm w) = (Turn_fire tid m, s)"
    and w': "w' = w\<lparr>tw_tm := s, tw_fired := tw_fired w @ [(tid, tw_now w, fire_time (tw_tm w) tid)]\<rparr>"
  shows "timer_world_inv w'"
proof -
  have ti: "timer_inv (tw_tm w)" using inv by (simp add: timer_world_inv_def)
  note e = timer_turn_fire_effect [OF ti top turn]
  have s: "s = snd (timer_turn (tw_now w) tid (tw_tm w))" using turn by simp
  have "schedule_ok w' k" for k
  proof (cases "k = tid")
    case True
    obtain first ivl where p: "tw_periods w tid = Some (first, ivl)"
      using inv e(2) by (force simp: timer_world_inv_def schedule_ok_def is_pending_def split: option.splits)
    have ok: "schedule_ok w tid" using inv by (simp add: timer_world_inv_def)
    with p e(2) have i: "interval (the (tm_timers (tw_tm w) tid)) = ivl"
      by (auto simp: schedule_ok_def)
    show ?thesis
      using schedule_ok_fire [OF ok p e(2,3) i, of s] e(4) i by (simp add: True w')
  next
    case False
    show ?thesis
      by (rule schedule_ok_cong [of w])
        (use inv False is_pending_frame [OF False] timer_turn_frame [OF False] in
          \<open>auto simp: w' s timer_world_inv_def firings_append\<close>)
  qed
  moreover have "\<not> is_pending s k" if "k \<in> tw_cancelled w" for k
  proof -
    have "k \<noteq> tid" using that e(2) inv by (auto simp: timer_world_inv_def)
    with that inv show ?thesis by (simp add: s is_pending_frame timer_world_inv_def)
  qed
  ultimately show ?thesis
    using inv timer_turn_inv [OF ti top, of "tw_now w"] turn by (auto simp: timer_world_inv_def w')
qed

lemma timer_step_inv:
  assumes inv: "timer_world_inv w" and st: "timer_step w w'"
  shows "timer_world_inv w'"
  using st
proof cases
  case (ts_tick n)
  then show ?thesis
    using inv by (auto simp: timer_world_inv_def intro: schedule_ok_cong)
next
  case (ts_schedule msg delay ivl tid s)
  from schedule_step_inv [OF inv ts_schedule(2,3,1)] show ?thesis .
next
  case (ts_cancel tid)
  from cancel_step_inv [OF inv this] show ?thesis .
next
  case (ts_turn tid r s)
  have ti: "timer_inv (tw_tm w)" using inv by (simp add: timer_world_inv_def)
  show ?thesis
  proof (cases "\<exists>k m. r = Turn_fire k m")
    case False
    then have r: "\<And>k m. r \<noteq> Turn_fire k m" by auto
    then have "w' = w\<lparr>tw_tm := s\<rparr>" using ts_turn(1) by (auto split: turn_result.splits)
    with quiet_turn_inv [OF inv ts_turn(2,3) r] show ?thesis by simp
  next
    case True
    then obtain m where r: "r = Turn_fire tid m"
      using timer_turn_fire_effect(1) [OF ti ts_turn(2)] ts_turn(3) by blast
    from firing_turn_inv [OF inv ts_turn(2) ts_turn(3) [unfolded r]] ts_turn(1) r show ?thesis by simp
  qed
qed

interpretation timer_protocol: inductive_invariant timer_world_init timer_step timer_world_inv
proof unfold_locales
  show "timer_world_inv w" if "timer_world_init w" for w
    using that timer_init_inv
    by (auto simp: timer_world_init_def timer_world_inv_def schedule_ok_def firings_def timer_init_def)
qed (rule timer_step_inv)


section \<open>Properties\<close>

text \<open>
  Property C20. Timers fire on schedule, never early, without drift, and one-shots at most once: in every
  reachable state the n-th firing of a timer scheduled for \<open>first\<close> honours the deadline
  \<open>first + n * interval\<close>, no firing happens before its deadline, and a timer whose interval is not
  positive fires at most once.
\<close>

theorem timer_fires_on_schedule:
  assumes "reachable timer_world_init timer_step w" "tw_periods w tid = Some (first, ivl)"
  shows "map snd (firings tid w) = map (\<lambda>n. first + int n * ivl) [0..<length (firings tid w)]
    \<and> (\<forall>f \<in> set (firings tid w). snd f \<le> fst f)
    \<and> (ivl \<le> 0 \<longrightarrow> length (firings tid w) \<le> 1)"
proof -
  have "schedule_ok w tid"
    using timer_protocol.reachable_inv [OF assms(1)] by (simp add: timer_world_inv_def)
  with assms(2) show ?thesis by (simp add: schedule_ok_def)
qed

text \<open>
  Fact. A cancelled timer never fires again: once \<open>cancel()\<close> has run for a scheduled timer, no step
  adds a firing of it.
\<close>

theorem timer_cancel_is_final:
  assumes "reachable timer_world_init timer_step w" "tid \<in> tw_cancelled w" "timer_step w w'"
  shows "firings tid w' = firings tid w \<and> tid \<in> tw_cancelled w'"
proof -
  have inv: "timer_world_inv w"
    by (rule timer_protocol.reachable_inv [OF assms(1)])
  from assms(3) show ?thesis
  proof cases
    case (ts_turn k r s)
    have "r \<noteq> Turn_fire tid m" for m
    proof
      assume r: "r = Turn_fire tid m"
      have "is_pending (tw_tm w) k" "tid = k"
        using timer_turn_fire_effect(1,2) [OF _ ts_turn(2) ts_turn(3) [unfolded r]] inv
        by (auto simp: timer_world_inv_def)
      with assms(2) inv show False by (auto simp: timer_world_inv_def)
    qed
    with ts_turn assms(2) show ?thesis
      by (auto simp: firings_append split: turn_result.splits)
  qed (use assms(2) in auto)
qed

text \<open>
  Fact. The timer thread does not sleep past a due timer: when some pending timer is due, every
  choice of the queue head makes the turn either fire the head or remove a cancelled head, so it
  never goes back to waiting while a timer is due.
\<close>

theorem timer_turn_progress:
  assumes "timer_inv s" "is_pending s k" "fire_time s k \<le> now" "is_top s tid"
  shows "(\<exists>m. fst (timer_turn now tid s) = Turn_fire tid m)
    \<or> (fst (timer_turn now tid s) = Turn_dropped
       \<and> length (tm_queue (snd (timer_turn now tid s))) < length (tm_queue s))"
proof -
  have "fire_time s tid \<le> now"
    using assms by (force simp: is_top_def is_pending_def)
  moreover have "tid \<in> set (tm_queue s)" "tm_timers s tid \<noteq> None"
    using assms(1,4) by (auto simp: is_top_def timer_inv_def)
  then have "length (remove1 tid (tm_queue s)) < length (tm_queue s)"
    using length_pos_if_in_set [of tid "tm_queue s"] by (simp add: length_remove1)
  ultimately show ?thesis
    using \<open>tm_timers s tid \<noteq> None\<close>
    by (auto simp: timer_turn_def fire_time_def Let_def split: option.splits)
qed

text \<open>
  Fact. Pruning is exact: on a consistent timer manager \<open>retain_active\<close> keeps precisely the ids that
  are still going to fire, and \<open>active_count\<close> counts exactly these timers.
\<close>

theorem timer_retain_exact:
  assumes "timer_inv s"
  shows "retain_active s ids = {tid \<in> ids. is_pending s tid} \<and> active_count s = card {tid. is_pending s tid}"
  using assms by (auto simp: retain_active_def timer_inv_def active_count_def)

section \<open>Witnesses\<close>

definition tw0 :: timer_world where
  "tw0 = \<lparr>tw_now = 0, tw_tm = timer_init, tw_fired = [], tw_cancelled = {}, tw_periods = (\<lambda>_. None)\<rparr>"

definition tw1 :: timer_world where
  "tw1 = tw0\<lparr>tw_tm := snd (timer_schedule 0 5 0 10 timer_init), tw_periods := [1 \<mapsto> (0, 10)]\<rparr>"

definition tw2 :: timer_world where
  "tw2 = tw1\<lparr>tw_tm := snd (timer_turn 0 1 (tw_tm tw1)), tw_fired := [(1, 0, 0)]\<rparr>"

definition tw3 :: timer_world where
  "tw3 = tw1\<lparr>tw_tm := timer_cancel 1 (tw_tm tw1), tw_cancelled := {1}\<rparr>"

lemma tw1_reachable: "reachable timer_world_init timer_step tw1"
proof (rule reachable_step)
  show "reachable timer_world_init timer_step tw0"
    by (rule reachable_init) (simp add: timer_world_init_def tw0_def)
  show "timer_step tw0 tw1"
    using ts_schedule [of tw0 5 0 10 1 "snd (timer_schedule 0 5 0 10 timer_init)"]
    by (simp add: tw0_def tw1_def timer_schedule_def timer_init_def)
qed

lemma tw1_top: "is_top (tw_tm tw1) 1"
  by (simp add: is_top_def tw1_def tw0_def timer_schedule_def timer_init_def)

lemma tw1_turn: "timer_turn 0 1 (tw_tm tw1) = (Turn_fire 1 5, snd (timer_turn 0 1 (tw_tm tw1)))"
  by (simp add: timer_turn_def tw1_def tw0_def timer_schedule_def timer_init_def)

lemma tw2_reachable: "reachable timer_world_init timer_step tw2"
proof (rule reachable_step [OF tw1_reachable])
  have "tw_now tw1 = 0" "tw_fired tw1 = []" "fire_time (tw_tm tw1) 1 = 0"
    by (simp_all add: tw1_def tw0_def fire_time_def timer_schedule_def timer_init_def)
  with ts_turn [OF tw1_top, of "Turn_fire 1 5" "snd (timer_turn 0 1 (tw_tm tw1))"] tw1_turn
  show "timer_step tw1 tw2"
    by (simp add: tw2_def)
qed

lemma tw3_reachable: "reachable timer_world_init timer_step tw3"
  by (rule reachable_step [OF tw1_reachable])
    (use ts_cancel [of tw1 1] in \<open>simp add: tw3_def tw1_def tw0_def\<close>)

theorem timer_fires_on_schedule_witness:
  "firings 1 tw2 = [(0, 0)] \<and> map snd (firings 1 tw2) = [0]"
  using timer_fires_on_schedule [OF tw2_reachable, of 1 0 10]
  by (simp add: tw2_def tw1_def tw0_def firings_def)

theorem timer_cancel_is_final_witness:
  "firings 1 (tw3\<lparr>tw_now := 100\<rparr>) = []"
  using timer_cancel_is_final [OF tw3_reachable, of 1 "tw3\<lparr>tw_now := 100\<rparr>"] ts_tick [of tw3 100]
  by (simp add: tw3_def tw1_def tw0_def firings_def)

lemma tw1_inv: "timer_inv (tw_tm tw1)"
  using timer_protocol.reachable_inv [OF tw1_reachable] by (simp add: timer_world_inv_def)

lemma tw1_pending: "is_pending (tw_tm tw1) 1" "fire_time (tw_tm tw1) 1 = 0"
  by (simp_all add: is_pending_def fire_time_def tw1_def tw0_def timer_schedule_def timer_init_def)

theorem timer_turn_progress_witness:
  "\<exists>m. fst (timer_turn 0 1 (tw_tm tw1)) = Turn_fire 1 m"
  using timer_turn_progress [OF tw1_inv tw1_pending(1) _ tw1_top, of 0] tw1_pending(2)
    arg_cong [OF tw1_turn, of fst]
  by simp

theorem timer_retain_exact_witness: "retain_active (tw_tm tw1) {1, 2} = {1}"
  using timer_retain_exact [OF tw1_inv, of "{1, 2}"] tw1_pending(1)
  by (auto simp: is_pending_def tw1_def tw0_def timer_schedule_def timer_init_def)

end
