(* ===== verification/Actor_System.thy ===== *)
theory Actor_System
  imports Mailbox Ready_Queue Actor_Registry Selective_Stash Timer_Manager "HOL-Library.AList"
begin

text \<open>
  The state of the actor system and the services the rest of the framework calls
  (include/cas/actor.h, include/cas/system.h, source/actor.cpp, source/system.cpp): actor objects,
  the singleton \<open>system\<close>, reporting of dead letters, queue thresholds and exceptions, names,
  scheduling, the enqueue operations, timers and watches.

  \<^item> \<open>actor\<close> has the data members of class \<open>actor\<close> (and the stash of the stateful classes, the
    deferred messages and the dispatching thread of the inline ones); its class is \<open>a_kind\<close>.
    \<open>m_ready_next\<close>, \<open>m_ready_self\<close> belong to the model of the ready queue.
  \<^item> \<open>sys\<close> has the data members of class \<open>system\<close>, the name registry and the timer manager, the
    actor objects (\<open>s_actors\<close>, with \<open>s_alive\<close> telling whether a weak reference can be locked), the
    promises of calls, standard error, and the thread-local \<open>current_actor_context\<close> and
    \<open>t_worker_thread_id\<close>.
  \<^item> User code (handlers, hooks, callbacks) is the parameter \<open>user_code\<close>: arbitrary functions on the
    whole state, since user code may call back into the framework, that may throw. What the
    compiler calls a type is part of it too.
  \<^item> A function of this theory is one call made by one thread, run to its end; the interleavings of
    threads are the subject of \<open>Mailbox_Concurrent\<close>, \<open>Timer_Manager\<close> and \<open>Scheduler\<close>. A time read from
    \<open>steady_clock\<close> is the argument \<open>now\<close>.
\<close>

section \<open>Types\<close>

datatype exn_kind =
    K_runtime_error
  | K_logic_error
  | K_call_deadlock_error
  | K_on_start_violation
  | K_call_type_error
  | K_future_error
  | K_user nat

text \<open>An exception: a \<open>std::exception\<close> with its \<open>what()\<close>, or anything else that was thrown.\<close>

datatype exn = Std_exn exn_kind string | Other_exn nat

datatype exception_action = EA_resume | EA_stop

datatype actor_state = AS_running | AS_stopping | AS_stopped

datatype stop_phase = SP_none | SP_claiming | SP_requested | SP_system_shutdown

datatype stop_hook = SH_on_shutdown | SH_on_stop

datatype stop_mode = SM_drain | SM_discard

datatype actor_kind = Pooled | Stateful | Fast | Stateful_fast | Inline bool

record call_handler_entry =
  entry_args_type :: type_index
  entry_result_type :: type_index
  entry_invoke :: nat

record dead_letter_info =
  dl_target_name :: string
  dl_message_type :: type_index
  dl_message_id :: uint64
  dl_target_state :: actor_state

record queue_threshold_info =
  qt_actor_name :: string
  qt_queue_size :: size_t
  qt_threshold :: size_t

record handler_exception_info =
  he_actor_name :: string
  he_message_type :: type_index
  he_message_id :: uint64
  he_source :: string
  he_what :: string
  he_error :: exn
  he_action :: exception_action

record system_config =
  thread_pool_size :: size_t
  cfg_queue_threshold :: size_t
  log_dead_letters :: bool
  max_messages_per_turn :: size_t

record stop_config =
  stop_cfg_mode :: stop_mode
  drain_timeout :: millis
  wait_for_stop :: bool
  notify_watchers :: bool

record dead_letter_stats =
  dropped_tell :: size_t
  dropped_ask :: size_t
  dropped_to_invalid :: size_t

datatype promise_state = Pending | Fulfilled nat | Failed exn | Broken

record actor =
  a_kind :: actor_kind
  a_type_name :: string
  m_name :: "string option"
  m_names :: "string list"
  m_assigned_thread_id :: size_t
  m_state :: actor_state
  m_mailbox :: mailbox
  m_handlers :: "type_index \<Rightarrow> nat option"
  m_call_handlers :: "type_index \<Rightarrow> call_handler_entry option"
  m_instance_id :: size_t
  m_active_timers :: "timer_id set"
  m_timer_prune_at :: size_t
  m_mailbox_high_water_mark :: size_t
  m_call_queue_high_water_mark :: size_t
  m_total_high_water_mark :: size_t
  m_queue_threshold :: size_t
  m_threshold_warning_sent :: bool
  m_in_on_start :: bool
  m_started :: bool
  m_stop_phase :: stop_phase
  m_stop_discard :: bool
  m_stop_notify_watchers :: bool
  m_stop_drain_deadline :: time_point
  m_stop_executor :: "thread_id option"
  m_stash :: stash
  m_dispatching_thread :: "thread_id option"
  m_deferred :: "message list"
  m_dedicated_thread :: "thread_id option"
  m_join_claimed :: bool

definition actor_init :: "actor_kind \<Rightarrow> string \<Rightarrow> actor" where
  "actor_init kind tname = \<lparr>a_kind = kind, a_type_name = tname, m_name = None, m_names = [],
     m_assigned_thread_id = 0, m_state = AS_running, m_mailbox = mailbox_init,
     m_handlers = (\<lambda>_. None), m_call_handlers = (\<lambda>_. None), m_instance_id = 0,
     m_active_timers = {}, m_timer_prune_at = 64, m_mailbox_high_water_mark = 0,
     m_call_queue_high_water_mark = 0, m_total_high_water_mark = 0, m_queue_threshold = 0,
     m_threshold_warning_sent = False, m_in_on_start = False, m_started = False,
     m_stop_phase = SP_none, m_stop_discard = False, m_stop_notify_watchers = True,
     m_stop_drain_deadline = 0, m_stop_executor = None, m_stash = stash_init,
     m_dispatching_thread = None, m_deferred = [], m_dedicated_thread = None, m_join_claimed = False\<rparr>"

definition is_fast :: "actor \<Rightarrow> bool" where
  "is_fast A \<longleftrightarrow> a_kind A = Fast \<or> a_kind A = Stateful_fast"

definition is_stateful :: "actor \<Rightarrow> bool" where
  "is_stateful A \<longleftrightarrow> a_kind A = Stateful \<or> a_kind A = Stateful_fast"

definition runs_inline :: "actor \<Rightarrow> bool" where
  "runs_inline A \<longleftrightarrow> (\<exists>thread_safe \<in> {True, False}. a_kind A = Inline thread_safe)"

record sys =
  s_actors :: "actor_ptr \<Rightarrow> actor"
  s_alive :: "actor_ptr \<Rightarrow> bool"
  m_config :: system_config
  m_actors_per_thread :: "actor_ptr list list"
  m_thread_pool :: "nat list"
  m_running :: bool
  m_shutdown_requested :: bool
  m_shutdown_started :: bool
  m_has_run :: bool
  m_workers_active :: bool
  m_fast_actors :: "actor_ptr list"
  m_next_thread_assignment :: size_t
  m_next_message_id :: uint64
  m_next_instance_id :: size_t
  m_shutdown_log :: "string list"
  m_timer_manager :: timer_manager
  s_timer_target :: "timer_id \<Rightarrow> (actor_ptr \<times> message) option"
  m_workers :: "ready_queue list"
  m_watchers :: "size_t \<Rightarrow> (size_t \<times> actor_ptr) list"
  m_watching :: "size_t \<Rightarrow> size_t list"
  m_dead_letter_tell :: size_t
  m_dead_letter_ask :: size_t
  m_dead_letter_invalid :: size_t
  m_dead_letter_handler :: "nat option"
  m_queue_threshold_handler :: "nat option"
  m_handler_exceptions :: size_t
  m_handler_exception_handler :: "nat option"
  s_registry :: registry
  s_promises :: "nat \<Rightarrow> promise_state"
  s_stderr :: "string list"
  current_actor_context :: "thread_id \<Rightarrow> actor_ptr option"
  t_worker_thread_id :: "thread_id \<Rightarrow> size_t option"

record user_code =
  uc_handler :: "nat \<Rightarrow> actor_ptr \<Rightarrow> message \<Rightarrow> sys \<Rightarrow> exn option \<times> sys"
  uc_unhandled :: "actor_ptr \<Rightarrow> message \<Rightarrow> sys \<Rightarrow> exn option \<times> sys"
  uc_on_start :: "actor_ptr \<Rightarrow> sys \<Rightarrow> exn option \<times> sys"
  uc_on_shutdown :: "actor_ptr \<Rightarrow> sys \<Rightarrow> exn option \<times> sys"
  uc_on_stop :: "actor_ptr \<Rightarrow> sys \<Rightarrow> exn option \<times> sys"
  uc_on_handler_exception :: "actor_ptr \<Rightarrow> message \<Rightarrow> exn \<Rightarrow> sys \<Rightarrow> (exn + exception_action) \<times> sys"
  uc_call_handler :: "nat \<Rightarrow> actor_ptr \<Rightarrow> nat \<Rightarrow> sys \<Rightarrow> (exn + nat) \<times> sys"
  uc_dead_letter_cb :: "nat \<Rightarrow> dead_letter_info \<Rightarrow> sys \<Rightarrow> exn option \<times> sys"
  uc_threshold_cb :: "nat \<Rightarrow> queue_threshold_info \<Rightarrow> sys \<Rightarrow> exn option \<times> sys"
  uc_exception_cb :: "nat \<Rightarrow> handler_exception_info \<Rightarrow> sys \<Rightarrow> exn option \<times> sys"
  uc_type_id_name :: "type_index \<Rightarrow> string"

definition upd_actor :: "actor_ptr \<Rightarrow> (actor \<Rightarrow> actor) \<Rightarrow> sys \<Rightarrow> sys" where
  "upd_actor a f s = s\<lparr>s_actors := (s_actors s)(a := f (s_actors s a))\<rparr>"

section \<open>Decimal numbers\<close>

text \<open>\<open>std::to_string\<close> of an unsigned number.\<close>

fun to_string :: "nat \<Rightarrow> string" where
  "to_string n = (if n < 10 then [char_of (48 + n)] else to_string (n div 10) @ [char_of (48 + n mod 10)])"

declare to_string.simps [simp del]

section \<open>Reporting\<close>

definition exn_what :: "exn \<Rightarrow> string" where
  "exn_what e = (case e of Std_exn _ w \<Rightarrow> w | Other_exn _ \<Rightarrow> ''unknown exception'')"

definition to_stderr :: "string \<Rightarrow> sys \<Rightarrow> sys" where
  "to_stderr line s = s\<lparr>s_stderr := s_stderr s @ [line]\<rparr>"

definition exception_line :: "user_code \<Rightarrow> string \<Rightarrow> type_index \<Rightarrow> string \<Rightarrow> exn \<Rightarrow> exception_action \<Rightarrow> string" where
  "exception_line user actor_name mtype source error action =
     ''[CAS] exception in '' @ source @ '' of actor '' @ [CHR 0x27] @ actor_name @ [CHR 0x27]
     @ (if mtype \<noteq> TI_void then '' handling '' @ uc_type_id_name user mtype else [])
     @ '': '' @ exn_what error
     @ (if source = ''on_start'' then '' - fatal, terminating''
        else if action = EA_stop then '' - stopping the actor'' else [])"

definition report_handler_exception ::
  "user_code \<Rightarrow> string \<Rightarrow> type_index \<Rightarrow> uint64 \<Rightarrow> string \<Rightarrow> exn \<Rightarrow> exception_action \<Rightarrow> sys \<Rightarrow> sys" where
  "report_handler_exception user actor_name mtype mid source error action s =
     (let s1 = s\<lparr>m_handler_exceptions := m_handler_exceptions s + 1\<rparr>;
          line = exception_line user actor_name mtype source error action
      in case m_handler_exception_handler s1 of
           None \<Rightarrow> to_stderr line s1
         | Some h \<Rightarrow>
             (case uc_exception_cb user h \<lparr>he_actor_name = actor_name, he_message_type = mtype,
                       he_message_id = mid, he_source = source, he_what = exn_what error,
                       he_error = error, he_action = action\<rparr> s1 of
                (None, s2) \<Rightarrow> s2
              | (Some _, s2) \<Rightarrow>
                  to_stderr line (to_stderr ''[CAS] the handler-exception callback threw'' s2)))"

definition dead_letter_line :: "string \<Rightarrow> message \<Rightarrow> actor_state \<Rightarrow> string" where
  "dead_letter_line actor_name msg st =
     ''[DEAD LETTER] Message '' @ to_string (unat (message_id msg)) @ '' to actor '' @ [CHR 0x27]
     @ actor_name @ [CHR 0x27] @ '' dropped (state: ''
     @ (if st = AS_stopping then ''stopping'' else ''stopped'') @ '')''"

definition run_dead_letter_handler :: "user_code \<Rightarrow> dead_letter_info \<Rightarrow> sys \<Rightarrow> sys" where
  "run_dead_letter_handler user info s =
     (case m_dead_letter_handler s of
        None \<Rightarrow> s
      | Some h \<Rightarrow>
          (case uc_dead_letter_cb user h info s of
             (None, s1) \<Rightarrow> s1
           | (Some e, s1) \<Rightarrow>
               report_handler_exception user (dl_target_name info) (dl_message_type info)
                 (dl_message_id info) ''dead_letter_handler'' e EA_resume s1))"

definition report_dead_letter ::
  "user_code \<Rightarrow> string \<Rightarrow> message \<Rightarrow> actor_state \<Rightarrow> bool \<Rightarrow> sys \<Rightarrow> sys" where
  "report_dead_letter user actor_name msg st was_call s =
     (let s1 = (if was_call then s\<lparr>m_dead_letter_ask := m_dead_letter_ask s + 1\<rparr>
                else s\<lparr>m_dead_letter_tell := m_dead_letter_tell s + 1\<rparr>);
          s2 = (if log_dead_letters (m_config s1) then to_stderr (dead_letter_line actor_name msg st) s1 else s1)
      in run_dead_letter_handler user \<lparr>dl_target_name = actor_name, dl_message_type = message_type_of msg,
           dl_message_id = message_id msg, dl_target_state = st\<rparr> s2)"

definition report_invalid_target :: "user_code \<Rightarrow> type_index \<Rightarrow> sys \<Rightarrow> sys" where
  "report_invalid_target user mtype s =
     (let s1 = s\<lparr>m_dead_letter_invalid := m_dead_letter_invalid s + 1\<rparr>;
          s2 = (if log_dead_letters (m_config s1)
                then to_stderr (''[DEAD LETTER] '' @ uc_type_id_name user mtype @ '' sent to an invalid actor_ref'') s1
                else s1)
      in run_dead_letter_handler user \<lparr>dl_target_name = [], dl_message_type = mtype, dl_message_id = 0,
           dl_target_state = AS_stopped\<rparr> s2)"

definition report_queue_threshold :: "user_code \<Rightarrow> string \<Rightarrow> size_t \<Rightarrow> size_t \<Rightarrow> sys \<Rightarrow> sys" where
  "report_queue_threshold user actor_name qsize threshold s =
     (case m_queue_threshold_handler s of
        None \<Rightarrow> s
      | Some h \<Rightarrow>
          (case uc_threshold_cb user h \<lparr>qt_actor_name = actor_name, qt_queue_size = qsize, qt_threshold = threshold\<rparr> s of
             (None, s1) \<Rightarrow> s1
           | (Some e, s1) \<Rightarrow>
               report_handler_exception user actor_name TI_void 0 ''queue_threshold_handler'' e EA_resume s1))"

definition get_dead_letter_stats :: "sys \<Rightarrow> dead_letter_stats" where
  "get_dead_letter_stats s = \<lparr>dropped_tell = m_dead_letter_tell s, dropped_ask = m_dead_letter_ask s,
     dropped_to_invalid = m_dead_letter_invalid s\<rparr>"

definition reset_dead_letter_stats :: "sys \<Rightarrow> sys" where
  "reset_dead_letter_stats s = s\<lparr>m_dead_letter_tell := 0, m_dead_letter_ask := 0, m_dead_letter_invalid := 0\<rparr>"

text \<open>Setting an empty function clears the handler; \<open>None\<close> stands for the empty function.\<close>

definition set_dead_letter_handler :: "nat option \<Rightarrow> sys \<Rightarrow> sys" where
  "set_dead_letter_handler h s = s\<lparr>m_dead_letter_handler := h\<rparr>"

definition set_queue_threshold_handler :: "nat option \<Rightarrow> sys \<Rightarrow> sys" where
  "set_queue_threshold_handler h s = s\<lparr>m_queue_threshold_handler := h\<rparr>"

definition set_handler_exception_handler :: "nat option \<Rightarrow> sys \<Rightarrow> sys" where
  "set_handler_exception_handler h s = s\<lparr>m_handler_exception_handler := h\<rparr>"

definition clear_dead_letter_handler :: "sys \<Rightarrow> sys" where
  "clear_dead_letter_handler s = s\<lparr>m_dead_letter_handler := None\<rparr>"

definition clear_queue_threshold_handler :: "sys \<Rightarrow> sys" where
  "clear_queue_threshold_handler s = s\<lparr>m_queue_threshold_handler := None\<rparr>"

definition clear_handler_exception_handler :: "sys \<Rightarrow> sys" where
  "clear_handler_exception_handler s = s\<lparr>m_handler_exception_handler := None\<rparr>"

definition handler_exception_count :: "sys \<Rightarrow> size_t" where
  "handler_exception_count s = m_handler_exceptions s"

section \<open>Names\<close>

definition publish_name :: "actor_ptr \<Rightarrow> string \<Rightarrow> sys \<Rightarrow> sys" where
  "publish_name a n = upd_actor a (\<lambda>A. A\<lparr>m_names := n # m_names A, m_name := Some n\<rparr>)"

definition default_name :: "actor \<Rightarrow> string" where
  "default_name A = a_type_name A @ ''_'' @ to_string (unat (m_instance_id A))"

definition assign_default_name :: "actor_ptr \<Rightarrow> sys \<Rightarrow> sys" where
  "assign_default_name a s =
     (if m_name (s_actors s a) = None then publish_name a (default_name (s_actors s a)) s else s)"

definition actor_name :: "actor_ptr \<Rightarrow> sys \<Rightarrow> string \<times> sys" where
  "actor_name a s =
     (case m_name (s_actors s a) of
        Some n \<Rightarrow> (n, s)
      | None \<Rightarrow> (let s1 = assign_default_name a s in (the (m_name (s_actors s1 a)), s1)))"

definition set_name :: "actor_ptr \<Rightarrow> string \<Rightarrow> sys \<Rightarrow> sys" where
  "set_name a n s =
     (let previous = m_name (s_actors s a);
          s1 = publish_name a n s
      in if s_alive s1 a then
           (let s2 = (case previous of
                        Some p \<Rightarrow> if p \<noteq> n then s1\<lparr>s_registry := registry_unregister (s_alive s1) p a (s_registry s1)\<rparr> else s1
                      | None \<Rightarrow> s1)
            in s2\<lparr>s_registry := registry_register n a (s_registry s2)\<rparr>)
         else s1)"

section \<open>Scheduling\<close>

definition next_message_id :: "sys \<Rightarrow> uint64 \<times> sys" where
  "next_message_id s = (m_next_message_id s, s\<lparr>m_next_message_id := m_next_message_id s + 1\<rparr>)"

definition ensure_workers :: "nat \<Rightarrow> sys \<Rightarrow> sys" where
  "ensure_workers n s = (if m_workers s = [] then s\<lparr>m_workers := replicate n ready_init\<rparr> else s)"

definition schedule :: "actor_ptr \<Rightarrow> sys \<Rightarrow> sys" where
  "schedule a s =
     (let A = s_actors s a; w = unat (m_assigned_thread_id A)
      in if is_fast A then s
         else if \<not> s_alive s a then s
         else if w \<ge> length (m_workers s) then s
         else s\<lparr>m_workers := (m_workers s)[w := ready_push a (m_workers s ! w)]\<rparr>)"

definition activate_after_start :: "actor_ptr \<Rightarrow> sys \<Rightarrow> sys" where
  "activate_after_start a s =
     (if is_fast (s_actors s a) then s
      else (let (blocked, mb) = try_block (m_mailbox (s_actors s a));
                s1 = upd_actor a (\<lambda>A. A\<lparr>m_mailbox := mb\<rparr>) s
            in if blocked then s1 else schedule a s1))"

section \<open>Enqueueing\<close>

definition raise_to :: "size_t \<Rightarrow> size_t \<Rightarrow> size_t" where
  "raise_to hwm v = (if v > hwm then v else hwm)"

definition update_high_water_marks :: "size_t \<Rightarrow> size_t \<Rightarrow> actor \<Rightarrow> actor" where
  "update_high_water_marks mbox_size total_size A =
     A\<lparr>m_mailbox_high_water_mark := raise_to (m_mailbox_high_water_mark A) mbox_size,
       m_total_high_water_mark := raise_to (m_total_high_water_mark A) total_size\<rparr>"

text \<open>Destroying a call request that nobody answered breaks its promise.\<close>

definition destroy_message :: "message \<Rightarrow> sys \<Rightarrow> sys" where
  "destroy_message msg s =
     (case body msg of
        Call_request c \<Rightarrow>
          (if s_promises s (promise_id c) = Pending
           then s\<lparr>s_promises := (s_promises s)(promise_id c := Broken)\<rparr> else s)
      | _ \<Rightarrow> s)"

definition drop_message :: "user_code \<Rightarrow> actor_ptr \<Rightarrow> message \<Rightarrow> actor_state \<Rightarrow> bool \<Rightarrow> sys \<Rightarrow> sys" where
  "drop_message user a msg st was_call s =
     (let (n, s1) = actor_name a s in destroy_message msg (report_dead_letter user n msg st was_call s1))"

definition threshold_step :: "size_t \<Rightarrow> size_t \<Rightarrow> bool \<Rightarrow> bool \<times> bool" where
  "threshold_step threshold total_size sent =
     (if threshold > 0 then
        (if \<not> sent then (if total_size > threshold then (True, True) else (False, False))
         else if total_size \<le> threshold div 2 then (False, False)
         else (False, True))
      else (False, sent))"

definition check_threshold :: "user_code \<Rightarrow> actor_ptr \<Rightarrow> size_t \<Rightarrow> sys \<Rightarrow> sys" where
  "check_threshold user a total_size s =
     (let A = s_actors s a;
          (report, sent) = threshold_step (m_queue_threshold A) total_size (m_threshold_warning_sent A);
          s1 = upd_actor a (\<lambda>A. A\<lparr>m_threshold_warning_sent := sent\<rparr>) s
      in if report then (let (n, s2) = actor_name a s1 in report_queue_threshold user n total_size (m_queue_threshold A) s2)
         else s1)"

definition enqueue_message :: "user_code \<Rightarrow> actor_ptr \<Rightarrow> message \<Rightarrow> sys \<Rightarrow> sys" where
  "enqueue_message user a msg s =
     (let st = m_state (s_actors s a)
      in if st \<noteq> AS_running then drop_message user a msg st False s
         else
           (let (pushed, mb) = mailbox_push msg (m_mailbox (s_actors s a));
                s1 = upd_actor a (\<lambda>A. A\<lparr>m_mailbox := mb\<rparr>) s
            in if pushed = PR_closed then drop_message user a msg (m_state (s_actors s1 a)) False s1
               else
                 (let mbox_size = other_size mb;
                      total_size = mbox_size + call_size mb;
                      s2 = upd_actor a (update_high_water_marks mbox_size total_size) s1;
                      s3 = check_threshold user a total_size s2
                  in if pushed = PR_unblocked then schedule a s3 else s3)))"

definition enqueue_call_message :: "user_code \<Rightarrow> actor_ptr \<Rightarrow> message \<Rightarrow> sys \<Rightarrow> sys" where
  "enqueue_call_message user a msg s =
     (let st = m_state (s_actors s a)
      in if st \<noteq> AS_running then drop_message user a msg st True s
         else
           (let (pushed, mb) = mailbox_push msg (m_mailbox (s_actors s a));
                s1 = upd_actor a (\<lambda>A. A\<lparr>m_mailbox := mb\<rparr>) s
            in if pushed = PR_closed then drop_message user a msg (m_state (s_actors s1 a)) True s1
               else
                 (let c = call_size mb;
                      s2 = upd_actor a (\<lambda>A. A\<lparr>m_call_queue_high_water_mark := raise_to (m_call_queue_high_water_mark A) c,
                             m_total_high_water_mark := raise_to (m_total_high_water_mark A) (c + other_size mb)\<rparr>) s1
                  in if pushed = PR_unblocked then schedule a s2 else s2)))"

section \<open>Timers of an actor\<close>

definition schedule_timer :: "actor_ptr \<Rightarrow> message \<Rightarrow> millis \<Rightarrow> millis \<Rightarrow> time_point \<Rightarrow> sys \<Rightarrow> timer_id \<times> sys" where
  "schedule_timer a msg delay ivl now s =
     (if m_state (s_actors s a) \<noteq> AS_running then (INVALID_TIMER_ID, s)
      else (let (tid, tm) = timer_schedule now (m_addr msg) delay ivl (m_timer_manager s)
            in (tid, s\<lparr>m_timer_manager := tm, s_timer_target := (s_timer_target s)(tid \<mapsto> (a, msg))\<rparr>)))"

definition cancel_timer_internal :: "timer_id \<Rightarrow> sys \<Rightarrow> sys" where
  "cancel_timer_internal tid s = s\<lparr>m_timer_manager := timer_cancel tid (m_timer_manager s)\<rparr>"

definition forget_finished_timers :: "timer_id set \<Rightarrow> sys \<Rightarrow> timer_id set" where
  "forget_finished_timers ids s = retain_active (m_timer_manager s) ids"

definition cancel_actor_timers :: "actor_ptr \<Rightarrow> sys \<Rightarrow> sys" where
  "cancel_actor_timers a s =
     upd_actor a (\<lambda>A. A\<lparr>m_active_timers := {}\<rparr>)
       (fold cancel_timer_internal (sorted_list_of_set (m_active_timers (s_actors s a))) s)"

definition track_timer :: "actor_ptr \<Rightarrow> timer_id \<Rightarrow> sys \<Rightarrow> sys" where
  "track_timer a tid s =
     (if tid = INVALID_TIMER_ID then s
      else
        (let A = s_actors s a;
             s1 = (if of_nat (card (m_active_timers A)) \<ge> m_timer_prune_at A
                   then (let ids = forget_finished_timers (m_active_timers A) s
                         in upd_actor a (\<lambda>A. A\<lparr>m_active_timers := ids,
                              m_timer_prune_at := max 64 (2 * of_nat (card ids))\<rparr>) s)
                   else s)
         in upd_actor a (\<lambda>A. A\<lparr>m_active_timers := insert tid (m_active_timers A)\<rparr>) s1))"

definition cancel_timer :: "actor_ptr \<Rightarrow> timer_id \<Rightarrow> sys \<Rightarrow> sys" where
  "cancel_timer a tid s =
     (if tid = INVALID_TIMER_ID then s
      else cancel_timer_internal tid (upd_actor a (\<lambda>A. A\<lparr>m_active_timers := m_active_timers A - {tid}\<rparr>) s))"

definition schedule_once :: "actor_ptr \<Rightarrow> millis \<Rightarrow> message \<Rightarrow> time_point \<Rightarrow> sys \<Rightarrow> timer_id \<times> sys" where
  "schedule_once a delay msg now s =
     (let (tid, s1) = schedule_timer a msg delay 0 now s in (tid, track_timer a tid s1))"

definition schedule_periodic :: "actor_ptr \<Rightarrow> millis \<Rightarrow> message \<Rightarrow> time_point \<Rightarrow> sys \<Rightarrow> timer_id \<times> sys" where
  "schedule_periodic a ivl msg now s =
     (let (tid, s1) = schedule_timer a msg ivl ivl now s in (tid, track_timer a tid s1))"

section \<open>Watches\<close>

definition watch :: "actor_ptr option \<Rightarrow> actor_ptr option \<Rightarrow> sys \<Rightarrow> sys" where
  "watch watcher watched s =
     (case (watcher, watched) of
        (Some w, Some d) \<Rightarrow>
          (if m_state (s_actors s d) = AS_stopped \<or> m_state (s_actors s w) = AS_stopped then s
           else (let wid = m_instance_id (s_actors s w); did = m_instance_id (s_actors s d)
                 in s\<lparr>m_watchers := (m_watchers s)(did := AList.update wid w (m_watchers s did)),
                     m_watching := (m_watching s)(wid := List.insert did (m_watching s wid))\<rparr>))
      | _ \<Rightarrow> s)"

definition unwatch :: "actor_ptr option \<Rightarrow> actor_ptr option \<Rightarrow> sys \<Rightarrow> sys" where
  "unwatch watcher watched s =
     (case (watcher, watched) of
        (Some w, Some d) \<Rightarrow>
          (let wid = m_instance_id (s_actors s w); did = m_instance_id (s_actors s d)
           in s\<lparr>m_watchers := (m_watchers s)(did := AList.delete wid (m_watchers s did)),
               m_watching := (m_watching s)(wid := filter (\<lambda>x. x \<noteq> did) (m_watching s wid))\<rparr>)
      | _ \<Rightarrow> s)"

text \<open>The part of \<open>end_watches\<close> under the lock: it returns the watchers that are still there.\<close>

definition remove_watches :: "size_t \<Rightarrow> sys \<Rightarrow> actor_ptr list \<times> sys" where
  "remove_watches i s =
     (let entry = m_watchers s i;
          watching1 = fold (\<lambda>wid f. f(wid := filter (\<lambda>x. x \<noteq> i) (f wid))) (map fst entry) (m_watching s);
          to_notify = filter (s_alive s) (map snd entry);
          watchers1 = (m_watchers s)(i := []);
          watchers2 = fold (\<lambda>did f. f(did := AList.delete i (f did))) (watching1 i) watchers1
      in (to_notify, s\<lparr>m_watchers := watchers2, m_watching := watching1(i := [])\<rparr>))"

section \<open>Callbacks that only observe\<close>

text \<open>
  Reporting callbacks run in the middle of framework operations. Several properties are stated for
  callbacks that only observe: they may write to standard error, and may throw.
\<close>

definition quiet :: "sys \<Rightarrow> sys \<Rightarrow> bool" where
  "quiet s s' \<longleftrightarrow> (\<exists>err n. s' = s\<lparr>s_stderr := err, m_handler_exceptions := n\<rparr>)"

definition callbacks_observe :: "user_code \<Rightarrow> bool" where
  "callbacks_observe user \<longleftrightarrow>
     (\<forall>h i s. quiet s (snd (uc_dead_letter_cb user h i s)))
   \<and> (\<forall>h i s. quiet s (snd (uc_threshold_cb user h i s)))
   \<and> (\<forall>h i s. quiet s (snd (uc_exception_cb user h i s)))"

lemma quiet_refl: "quiet s s"
  unfolding quiet_def by (rule exI [of _ "s_stderr s"], rule exI [of _ "m_handler_exceptions s"]) simp

lemma quiet_trans:
  assumes "quiet s s'" "quiet s' s''"
  shows "quiet s s''"
proof -
  from assms(1) obtain err n where 1: "s' = s\<lparr>s_stderr := err, m_handler_exceptions := n\<rparr>"
    unfolding quiet_def by blast
  from assms(2) obtain err' n' where 2: "s'' = s'\<lparr>s_stderr := err', m_handler_exceptions := n'\<rparr>"
    unfolding quiet_def by blast
  have "s'' = s\<lparr>s_stderr := err', m_handler_exceptions := n'\<rparr>" by (simp add: 1 2)
  then show ?thesis unfolding quiet_def by blast
qed

lemma quiet_stderr: "quiet s (to_stderr l s)"
  unfolding quiet_def to_stderr_def
  by (rule exI [of _ "s_stderr s @ [l]"], rule exI [of _ "m_handler_exceptions s"]) simp

lemma quiet_count: "quiet s (s\<lparr>m_handler_exceptions := n\<rparr>)"
  unfolding quiet_def by (rule exI [of _ "s_stderr s"], rule exI [of _ n]) simp

lemma quiet_fields:
  assumes "quiet s s'"
  shows "s_actors s' = s_actors s" "s_alive s' = s_alive s" "m_dead_letter_tell s' = m_dead_letter_tell s"
    "m_dead_letter_ask s' = m_dead_letter_ask s" "s_promises s' = s_promises s" "m_workers s' = m_workers s"
    "m_timer_manager s' = m_timer_manager s" "m_dead_letter_invalid s' = m_dead_letter_invalid s"
    "s_registry s' = s_registry s" "m_watchers s' = m_watchers s" "m_watching s' = m_watching s"
    "m_actors_per_thread s' = m_actors_per_thread s" "m_fast_actors s' = m_fast_actors s"
    "current_actor_context s' = current_actor_context s"
  using assms by (auto simp: quiet_def)

lemma callbacks_quiet:
  assumes "callbacks_observe user"
  shows "quiet s (snd (uc_dead_letter_cb user h di s))" "quiet s (snd (uc_threshold_cb user h ti s))"
    "quiet s (snd (uc_exception_cb user h ei s))"
  using assms unfolding callbacks_observe_def by blast+

lemma report_exception_quiet:
  assumes "callbacks_observe user"
  shows "quiet s (report_handler_exception user nm t mid src e act s)"
proof (cases "m_handler_exception_handler s")
  case None
  then show ?thesis
    by (simp add: report_handler_exception_def Let_def quiet_trans [OF quiet_count quiet_stderr])
next
  case (Some h)
  let ?s1 = "s\<lparr>m_handler_exceptions := m_handler_exceptions s + 1\<rparr>"
  let ?r = "uc_exception_cb user h \<lparr>he_actor_name = nm, he_message_type = t, he_message_id = mid, he_source = src,
    he_what = exn_what e, he_error = e, he_action = act\<rparr> ?s1"
  have q: "quiet s (snd ?r)"
    by (rule quiet_trans [OF quiet_count]) (rule callbacks_quiet [OF assms])
  then have "quiet s (to_stderr l (to_stderr l' (snd ?r)))" for l l'
    using quiet_trans [OF quiet_trans [OF q quiet_stderr] quiet_stderr] by blast
  with q Some show ?thesis
    by (cases ?r) (simp add: report_handler_exception_def Let_def split: option.split)
qed

lemma dead_letter_handler_quiet:
  assumes "callbacks_observe user"
  shows "quiet s (run_dead_letter_handler user i s)"
proof (cases "m_dead_letter_handler s")
  case None
  then show ?thesis by (simp add: run_dead_letter_handler_def quiet_refl)
next
  case (Some h)
  have q: "quiet s (snd (uc_dead_letter_cb user h i s))" by (rule callbacks_quiet [OF assms])
  with Some quiet_trans [OF q report_exception_quiet [OF assms]] show ?thesis
    by (cases "uc_dead_letter_cb user h i s") (simp add: run_dead_letter_handler_def split: option.split)
qed

lemma report_threshold_quiet:
  assumes "callbacks_observe user"
  shows "quiet s (report_queue_threshold user nm q th s)"
proof (cases "m_queue_threshold_handler s")
  case None
  then show ?thesis by (simp add: report_queue_threshold_def quiet_refl)
next
  case (Some h)
  let ?r = "uc_threshold_cb user h \<lparr>qt_actor_name = nm, qt_queue_size = q, qt_threshold = th\<rparr> s"
  have q: "quiet s (snd ?r)" by (rule callbacks_quiet [OF assms])
  with Some quiet_trans [OF q report_exception_quiet [OF assms]] show ?thesis
    by (cases ?r) (simp add: report_queue_threshold_def split: option.split)
qed

definition count_dead_letter :: "bool \<Rightarrow> sys \<Rightarrow> sys" where
  "count_dead_letter was_call s =
     (if was_call then s\<lparr>m_dead_letter_ask := m_dead_letter_ask s + 1\<rparr>
      else s\<lparr>m_dead_letter_tell := m_dead_letter_tell s + 1\<rparr>)"

lemma report_dead_letter_quiet:
  assumes "callbacks_observe user"
  shows "quiet (count_dead_letter c s) (report_dead_letter user nm msg st c s)"
  unfolding report_dead_letter_def Let_def count_dead_letter_def [symmetric]
  using quiet_trans [OF quiet_stderr dead_letter_handler_quiet [OF assms]]
    dead_letter_handler_quiet [OF assms]
  by simp

section \<open>What a send does\<close>

definition mailboxes :: "sys \<Rightarrow> actor_ptr \<Rightarrow> mailbox" where
  "mailboxes s a = m_mailbox (s_actors s a)"

lemma actor_name_frame:
  "mailboxes (snd (actor_name a s)) = mailboxes s" "m_dead_letter_tell (snd (actor_name a s)) = m_dead_letter_tell s"
  "m_dead_letter_ask (snd (actor_name a s)) = m_dead_letter_ask s" "s_promises (snd (actor_name a s)) = s_promises s"
  "m_workers (snd (actor_name a s)) = m_workers s" "s_alive (snd (actor_name a s)) = s_alive s"
  "a_kind (s_actors (snd (actor_name a s)) b) = a_kind (s_actors s b)"
  "m_assigned_thread_id (s_actors (snd (actor_name a s)) b) = m_assigned_thread_id (s_actors s b)"
  "m_total_high_water_mark (s_actors (snd (actor_name a s)) b) = m_total_high_water_mark (s_actors s b)"
  by (auto simp: actor_name_def assign_default_name_def publish_name_def upd_actor_def mailboxes_def
      fun_eq_iff split: option.split)

lemma destroy_message_frame:
  "mailboxes (destroy_message msg s) = mailboxes s"
  "m_dead_letter_tell (destroy_message msg s) = m_dead_letter_tell s"
  "m_dead_letter_ask (destroy_message msg s) = m_dead_letter_ask s" "m_workers (destroy_message msg s) = m_workers s"
  by (auto simp: destroy_message_def mailboxes_def split: message_body.split)

lemma destroy_message_promise:
  "body msg = Call_request c \<Longrightarrow> s_promises (destroy_message msg s) (promise_id c) \<noteq> Pending"
  by (simp add: destroy_message_def)

lemma drop_message_spec:
  assumes "callbacks_observe user" "s' = drop_message user a msg st was_call s"
  shows "mailboxes s' = mailboxes s" "m_workers s' = m_workers s"
    "m_dead_letter_tell s' = m_dead_letter_tell s + (if was_call then 0 else 1)"
    "m_dead_letter_ask s' = m_dead_letter_ask s + (if was_call then 1 else 0)"
    "body msg = Call_request c \<Longrightarrow> s_promises s' (promise_id c) \<noteq> Pending"
proof -
  obtain n s1 where n: "actor_name a s = (n, s1)" by (cases "actor_name a s") auto
  note fr = actor_name_frame [of a s, unfolded n snd_conv]
  note q = quiet_fields [OF report_dead_letter_quiet [OF assms(1), of was_call s1 n msg st]]
  have s': "s' = destroy_message msg (report_dead_letter user n msg st was_call s1)"
    using assms(2) n by (simp add: drop_message_def)
  show "mailboxes s' = mailboxes s" "m_workers s' = m_workers s"
    "m_dead_letter_tell s' = m_dead_letter_tell s + (if was_call then 0 else 1)"
    "m_dead_letter_ask s' = m_dead_letter_ask s + (if was_call then 1 else 0)"
    unfolding s' destroy_message_frame using fr q
    by (simp_all add: count_dead_letter_def mailboxes_def fun_eq_iff)
  show "body msg = Call_request c \<Longrightarrow> s_promises s' (promise_id c) \<noteq> Pending"
    by (simp add: s' destroy_message_promise)
qed

lemma check_threshold_frame:
  assumes "callbacks_observe user" "s' = check_threshold user a n s"
  shows "mailboxes s' = mailboxes s" "m_workers s' = m_workers s" "s_alive s' = s_alive s"
    "m_dead_letter_tell s' = m_dead_letter_tell s" "m_dead_letter_ask s' = m_dead_letter_ask s"
    "a_kind (s_actors s' b) = a_kind (s_actors s b)"
    "m_assigned_thread_id (s_actors s' b) = m_assigned_thread_id (s_actors s b)"
    "m_total_high_water_mark (s_actors s' b) = m_total_high_water_mark (s_actors s b)"
proof -
  define A where "A = s_actors s a"
  obtain rep sent where t: "threshold_step (m_queue_threshold A) n (m_threshold_warning_sent A) = (rep, sent)"
    by (cases "threshold_step (m_queue_threshold A) n (m_threshold_warning_sent A)") auto
  define s1 where "s1 = upd_actor a (\<lambda>A. A\<lparr>m_threshold_warning_sent := sent\<rparr>) s"
  obtain nm s2 where nm: "actor_name a s1 = (nm, s2)" by (cases "actor_name a s1") auto
  note fr = actor_name_frame [of a s1, unfolded nm snd_conv]
  note q = quiet_fields [OF report_threshold_quiet [OF assms(1), of s2 nm n "m_queue_threshold A"]]
  have s': "s' = (if rep then report_queue_threshold user nm n (m_queue_threshold A) s2 else s1)"
    using assms(2) t nm by (simp add: check_threshold_def Let_def A_def [symmetric] s1_def [symmetric])
  have fr1: "mailboxes s1 = mailboxes s" "m_workers s1 = m_workers s" "s_alive s1 = s_alive s"
    "m_dead_letter_tell s1 = m_dead_letter_tell s" "m_dead_letter_ask s1 = m_dead_letter_ask s"
    "a_kind (s_actors s1 b) = a_kind (s_actors s b)"
    "m_assigned_thread_id (s_actors s1 b) = m_assigned_thread_id (s_actors s b)"
    "m_total_high_water_mark (s_actors s1 b) = m_total_high_water_mark (s_actors s b)"
    by (simp_all add: s1_def upd_actor_def mailboxes_def fun_eq_iff)
  show "mailboxes s' = mailboxes s" "m_workers s' = m_workers s" "s_alive s' = s_alive s"
    "m_dead_letter_tell s' = m_dead_letter_tell s" "m_dead_letter_ask s' = m_dead_letter_ask s"
    "a_kind (s_actors s' b) = a_kind (s_actors s b)"
    "m_assigned_thread_id (s_actors s' b) = m_assigned_thread_id (s_actors s b)"
    "m_total_high_water_mark (s_actors s' b) = m_total_high_water_mark (s_actors s b)"
    using fr fr1 q by (simp_all add: s' mailboxes_def fun_eq_iff)
qed

definition ready_of :: "sys \<Rightarrow> actor_ptr \<Rightarrow> actor_ptr list" where
  "ready_of s a = ready_contents (m_workers s ! unat (m_assigned_thread_id (s_actors s a)))"

definition has_worker :: "sys \<Rightarrow> actor_ptr \<Rightarrow> bool" where
  "has_worker s a \<longleftrightarrow> \<not> is_fast (s_actors s a) \<and> s_alive s a
     \<and> unat (m_assigned_thread_id (s_actors s a)) < length (m_workers s)"

lemma schedule_spec:
  "mailboxes (schedule a s) = mailboxes s" "m_dead_letter_tell (schedule a s) = m_dead_letter_tell s"
  "m_dead_letter_ask (schedule a s) = m_dead_letter_ask s" "s_actors (schedule a s) = s_actors s"
  "has_worker s a \<Longrightarrow> ready_of (schedule a s) a = ready_of s a @ [a]"
  "\<not> has_worker s a \<Longrightarrow> schedule a s = s"
  by (auto simp: schedule_def Let_def mailboxes_def has_worker_def ready_of_def ready_push_def ready_contents_def)

definition send :: "user_code \<Rightarrow> bool \<Rightarrow> actor_ptr \<Rightarrow> message \<Rightarrow> sys \<Rightarrow> sys" where
  "send user as_call = (if as_call then enqueue_call_message user else enqueue_message user)"

definition accepting :: "sys \<Rightarrow> actor_ptr \<Rightarrow> bool" where
  "accepting s a \<longleftrightarrow> m_state (s_actors s a) = AS_running \<and> \<not> mailbox_closed (mailboxes s a)"

lemma send_rejected:
  assumes obs: "callbacks_observe user" and rej: "\<not> accepting s a" and s': "s' = send user as_call a msg s"
  shows "mailboxes s' = mailboxes s" "m_workers s' = m_workers s"
    "m_dead_letter_tell s' = m_dead_letter_tell s + (if as_call then 0 else 1)"
    "m_dead_letter_ask s' = m_dead_letter_ask s + (if as_call then 1 else 0)"
    "body msg = Call_request c \<Longrightarrow> s_promises s' (promise_id c) \<noteq> Pending"
proof -
  have "\<exists>st s1. mailboxes s1 = mailboxes s \<and> m_workers s1 = m_workers s
      \<and> m_dead_letter_tell s1 = m_dead_letter_tell s \<and> m_dead_letter_ask s1 = m_dead_letter_ask s
      \<and> s' = drop_message user a msg st as_call s1"
  proof (cases "m_state (s_actors s a) = AS_running")
    case True
    let ?s1 = "upd_actor a (\<lambda>A. A\<lparr>m_mailbox := m_mailbox (s_actors s a)\<rparr>) s"
    have "s' = drop_message user a msg AS_running as_call ?s1"
      using True rej mailbox_push_closed [of "m_mailbox (s_actors s a)" msg] s'
      by (auto simp: accepting_def send_def enqueue_message_def enqueue_call_message_def mailboxes_def upd_actor_def)
    moreover have "mailboxes ?s1 = mailboxes s"
      by (simp add: upd_actor_def mailboxes_def fun_eq_iff)
    ultimately show ?thesis
      by (intro exI [of _ AS_running] exI [of _ ?s1]) (simp add: upd_actor_def)
  next
    case False
    then show ?thesis
      using s' by (intro exI [of _ "m_state (s_actors s a)"] exI [of _ s])
        (simp add: send_def enqueue_message_def enqueue_call_message_def Let_def)
  qed
  then obtain st s1 where *: "mailboxes s1 = mailboxes s" "m_workers s1 = m_workers s"
    "m_dead_letter_tell s1 = m_dead_letter_tell s" "m_dead_letter_ask s1 = m_dead_letter_ask s"
    "s' = drop_message user a msg st as_call s1" by blast
  note d = drop_message_spec [OF obs *(5)]
  show "mailboxes s' = mailboxes s" "m_workers s' = m_workers s"
    "m_dead_letter_tell s' = m_dead_letter_tell s + (if as_call then 0 else 1)"
    "m_dead_letter_ask s' = m_dead_letter_ask s + (if as_call then 1 else 0)"
    "body msg = Call_request c \<Longrightarrow> s_promises s' (promise_id c) \<noteq> Pending"
    using d * by simp_all
qed

lemma send_accepted:
  assumes obs: "callbacks_observe user" and acc: "accepting s a" and s': "s' = send user as_call a msg s"
  shows "mailboxes s' = (mailboxes s)(a := snd (mailbox_push msg (mailboxes s a)))"
    "m_dead_letter_tell s' = m_dead_letter_tell s" "m_dead_letter_ask s' = m_dead_letter_ask s"
    "has_worker s a \<Longrightarrow> ready_of s' a = ready_of s a @ (if mailbox_blocked (mailboxes s a) then [a] else [])"
    "mailbox_size (mailboxes s' a) \<le> m_total_high_water_mark (s_actors s' a)"
proof -
  define mb where "mb = snd (mailbox_push msg (mailboxes s a))"
  have push: "mailbox_push msg (m_mailbox (s_actors s a)) =
      (if mailbox_blocked (mailboxes s a) then PR_unblocked else PR_success, mb)"
    using acc mailbox_push_result [of msg "mailboxes s a"] unfolding mb_def
    by (cases "mailbox_push msg (mailboxes s a)") (simp add: accepting_def mailboxes_def)
  have run: "m_state (s_actors s a) = AS_running" using acc by (simp add: accepting_def)
  define s1 where "s1 = upd_actor a (\<lambda>A. A\<lparr>m_mailbox := mb\<rparr>) s"
  define s2 where "s2 = (if as_call
     then upd_actor a (\<lambda>A. A\<lparr>m_call_queue_high_water_mark := raise_to (m_call_queue_high_water_mark A) (call_size mb),
            m_total_high_water_mark := raise_to (m_total_high_water_mark A) (call_size mb + other_size mb)\<rparr>) s1
     else upd_actor a (update_high_water_marks (other_size mb) (other_size mb + call_size mb)) s1)"
  define s3 where "s3 = (if as_call then s2 else check_threshold user a (other_size mb + call_size mb) s2)"
  have "s' = (if mailbox_blocked (mailboxes s a) then schedule a s3 else s3)"
    using run push s' unfolding s3_def s2_def s1_def
    by (simp add: send_def enqueue_message_def enqueue_call_message_def Let_def upd_actor_def)
  moreover have s2: "mailboxes s2 = (mailboxes s)(a := mb)" "m_workers s2 = m_workers s" "s_alive s2 = s_alive s"
    "m_dead_letter_tell s2 = m_dead_letter_tell s" "m_dead_letter_ask s2 = m_dead_letter_ask s"
    "a_kind (s_actors s2 a) = a_kind (s_actors s a)"
    "m_assigned_thread_id (s_actors s2 a) = m_assigned_thread_id (s_actors s a)"
    "mailbox_size mb \<le> m_total_high_water_mark (s_actors s2 a)"
    unfolding s2_def s1_def upd_actor_def update_high_water_marks_def mailboxes_def
    by (simp_all add: fun_eq_iff raise_to_def mailbox_size_def add.commute linorder_not_less)
  moreover have "mailboxes s3 = mailboxes s2" "m_workers s3 = m_workers s2" "s_alive s3 = s_alive s2"
    "m_dead_letter_tell s3 = m_dead_letter_tell s2" "m_dead_letter_ask s3 = m_dead_letter_ask s2"
    "a_kind (s_actors s3 a) = a_kind (s_actors s2 a)"
    "m_assigned_thread_id (s_actors s3 a) = m_assigned_thread_id (s_actors s2 a)"
    "m_total_high_water_mark (s_actors s3 a) = m_total_high_water_mark (s_actors s2 a)"
    using check_threshold_frame [OF obs refl, where a = a and n = "other_size mb + call_size mb" and s = s2] unfolding s3_def by simp_all
  moreover have "has_worker s3 a = has_worker s a" "ready_of s3 a = ready_of s a"
    using calculation by (simp_all add: has_worker_def is_fast_def ready_of_def)
  ultimately show "mailboxes s' = (mailboxes s)(a := snd (mailbox_push msg (mailboxes s a)))"
    "m_dead_letter_tell s' = m_dead_letter_tell s" "m_dead_letter_ask s' = m_dead_letter_ask s"
    "has_worker s a \<Longrightarrow> ready_of s' a = ready_of s a @ (if mailbox_blocked (mailboxes s a) then [a] else [])"
    "mailbox_size (mailboxes s' a) \<le> m_total_high_water_mark (s_actors s' a)"
    using schedule_spec [where a = a and s = s3] by (simp_all add: mb_def)
qed

section \<open>Threshold reports\<close>

fun threshold_run :: "size_t \<Rightarrow> bool \<Rightarrow> size_t list \<Rightarrow> bool list" where
  "threshold_run threshold sent [] = []"
| "threshold_run threshold sent (n # ns) =
     (let (report, sent') = threshold_step threshold n sent in report # threshold_run threshold sent' ns)"

lemma length_threshold_run [simp]: "length (threshold_run th sent ns) = length ns"
  by (induction ns arbitrary: sent) (auto simp: Let_def case_prod_beta)

lemma threshold_run_report:
  "i < length ns \<Longrightarrow> threshold_run th sent ns ! i \<Longrightarrow> th > 0 \<and> ns ! i > th"
  by (induction ns arbitrary: sent i)
    (auto simp: Let_def case_prod_beta threshold_step_def nth_Cons split: nat.splits if_splits)

lemma threshold_run_sent:
  assumes "j < length ns" "threshold_run th True ns ! j"
  shows "\<exists>k < j. ns ! k \<le> th div 2"
  using assms
proof (induction ns arbitrary: j)
  case (Cons n ns)
  show ?case
  proof (cases j)
    case 0
    with Cons.prems show ?thesis by (auto simp: threshold_step_def split: if_splits)
  next
    case (Suc i)
    show ?thesis
    proof (cases "n \<le> th div 2")
      case True
      with Suc show ?thesis by (intro exI [of _ 0]) simp
    next
      case False
      with Cons.prems Suc have "i < length ns" "threshold_run th True ns ! i"
        by (auto simp: threshold_step_def split: if_splits)
      with Cons.IH obtain k where "k < i" "ns ! k \<le> th div 2" by blast
      with Suc show ?thesis by (intro exI [of _ "Suc k"]) simp
    qed
  qed
qed simp

lemma threshold_run_rearm:
  assumes "i < j" "j < length ns" "threshold_run th sent ns ! i" "threshold_run th sent ns ! j"
  shows "\<exists>k. i < k \<and> k < j \<and> ns ! k \<le> th div 2"
  using assms
proof (induction ns arbitrary: sent i j)
  case (Cons n ns)
  obtain j' where j: "j = Suc j'" using Cons.prems(1) by (cases j) auto
  show ?case
  proof (cases i)
    case 0
    with Cons.prems(3) have "snd (threshold_step th n sent)"
      by (auto simp: Let_def case_prod_beta threshold_step_def split: if_splits)
    with Cons.prems(2,4) j have "\<exists>k < j'. ns ! k \<le> th div 2"
      by (intro threshold_run_sent) (auto simp: Let_def case_prod_beta)
    then obtain k where "k < j'" "ns ! k \<le> th div 2" by blast
    with 0 j show ?thesis by (intro exI [of _ "Suc k"]) simp
  next
    case (Suc i')
    with Cons.IH [of i' j' "snd (threshold_step th n sent)"] Cons.prems j
    obtain k where "i' < k" "k < j'" "ns ! k \<le> th div 2" by (auto simp: Let_def case_prod_beta)
    with Suc j show ?thesis by (intro exI [of _ "Suc k"]) simp
  qed
qed simp

lemma threshold_run_first:
  assumes "j < length ns" "th > 0" "ns ! j > th" "\<forall>k < j. ns ! k \<le> th"
  shows "threshold_run th False ns ! j"
  using assms
proof (induction ns arbitrary: j)
  case (Cons n ns)
  show ?case
  proof (cases j)
    case 0
    with Cons.prems show ?thesis by (simp add: threshold_step_def)
  next
    case (Suc i)
    have "n \<le> th" using Cons.prems(4) [rule_format, of 0] Suc by simp
    moreover have "\<forall>k < i. ns ! k \<le> th" using Cons.prems(4) Suc by auto
    ultimately show ?thesis
      using Cons.IH [of i] Cons.prems Suc by (simp add: threshold_step_def linorder_not_less [symmetric])
  qed
qed simp

end
