(* ===== verification/Actor_Dispatch.thy ===== *)
theory Actor_Dispatch
  imports Actor_System
begin

text \<open>
  Running user code: dispatch, calls, hooks, inline actors and the stop protocol
  (source/actor.cpp, source/system.cpp, include/cas/call_message.h, include/cas/inline_actor.h,
  include/cas/actor_ref_impl.h, source/stateful_actor.cpp, source/stateful_fast_actor.cpp).

  The framework calls itself in a cycle: a dispatch may stop the actor, a stop notifies watchers,
  an inline watcher dispatches on the spot. The definitions are therefore open: \<open>framework\<close> holds the
  two operations that close the cycle, sending to an actor and running a stop to its end, and
  \<open>framework_of\<close> ties the knot with a bound on the depth of nesting. \<open>None\<close> means that the bound was
  too small, or that a loop of the code does not end. The clock is \<open>now\<close> for a single call and \<open>clk n\<close>
  for the n-th turn of a stop loop.

  A result of type \<open>exn option \<times> sys\<close> is a C++ call that may throw; where the code catches, the result
  has no exception component.
\<close>

section \<open>Calls into user code\<close>

record framework =
  fw_enqueue :: "thread_id \<Rightarrow> actor_ptr \<Rightarrow> message \<Rightarrow> sys \<Rightarrow> (exn option \<times> sys) option"
  fw_run_stop :: "thread_id \<Rightarrow> actor_ptr \<Rightarrow> sys \<Rightarrow> sys option"

definition set_context :: "thread_id \<Rightarrow> actor_ptr option \<Rightarrow> sys \<Rightarrow> sys" where
  "set_context tid c s = s\<lparr>current_actor_context := (current_actor_context s)(tid := c)\<rparr>"

definition report_actor_exception ::
  "user_code \<Rightarrow> actor_ptr \<Rightarrow> type_index \<Rightarrow> uint64 \<Rightarrow> string \<Rightarrow> exn \<Rightarrow> exception_action \<Rightarrow> sys \<Rightarrow> sys" where
  "report_actor_exception user a mtype mid source e action s =
     (let (n, s1) = actor_name a s in report_handler_exception user n mtype mid source e action s1)"

definition run_stop_hook :: "user_code \<Rightarrow> thread_id \<Rightarrow> actor_ptr \<Rightarrow> stop_hook \<Rightarrow> sys \<Rightarrow> sys" where
  "run_stop_hook user tid a hook s =
     (let prev = current_actor_context s tid;
          s1 = set_context tid (Some a) s;
          (r, s2) = (if hook = SH_on_shutdown then uc_on_shutdown user a s1 else uc_on_stop user a s1);
          s3 = (case r of
                  None \<Rightarrow> s2
                | Some e \<Rightarrow> report_actor_exception user a TI_void 0
                    (if hook = SH_on_shutdown then ''on_shutdown'' else ''on_stop'') e EA_resume s2)
      in set_context tid prev s3)"

definition run_on_start :: "user_code \<Rightarrow> thread_id \<Rightarrow> actor_ptr \<Rightarrow> sys \<Rightarrow> (exn + bool) \<times> sys" where
  "run_on_start user tid a s =
     (if m_started (s_actors s a) then (Inr False, s)
      else
        (let s1 = upd_actor a (\<lambda>A. A\<lparr>m_started := True\<rparr>) s;
             prev = current_actor_context s1 tid;
             s2 = upd_actor a (\<lambda>A. A\<lparr>m_in_on_start := True\<rparr>) (set_context tid (Some a) s1);
             (r, s3) = uc_on_start user a s2;
             s4 = set_context tid prev (upd_actor a (\<lambda>A. A\<lparr>m_in_on_start := False\<rparr>) s3)
         in (case r of None \<Rightarrow> Inr True | Some e \<Rightarrow> Inl e, s4)))"

definition settle :: "nat \<Rightarrow> promise_state \<Rightarrow> sys \<Rightarrow> sys" where
  "settle p st s = s\<lparr>s_promises := (s_promises s)(p := st)\<rparr>"

definition call_process :: "user_code \<Rightarrow> actor_ptr \<Rightarrow> call_payload \<Rightarrow> sys \<Rightarrow> sys" where
  "call_process user a c s =
     (case m_call_handlers (s_actors s a) (op_type c) of
        None \<Rightarrow> settle (promise_id c) (Failed (Std_exn K_runtime_error ''No call handler registered for operation'')) s
      | Some entry \<Rightarrow>
          if entry_result_type entry \<noteq> ret_type c then
            settle (promise_id c) (Failed (Std_exn K_call_type_error
              (''call() return type mismatch for operation '' @ uc_type_id_name user (op_type c)
               @ '': caller asked for '' @ uc_type_id_name user (ret_type c)
               @ '', handler returns '' @ uc_type_id_name user (entry_result_type entry)))) s
          else if entry_args_type entry \<noteq> args_type c then
            settle (promise_id c) (Failed (Std_exn K_call_type_error
              (''call() argument type mismatch for operation '' @ uc_type_id_name user (op_type c)
               @ '': caller passed '' @ uc_type_id_name user (args_type c)
               @ '', handler takes '' @ uc_type_id_name user (entry_args_type entry)
               @ ''. Arguments are not converted; pass exactly the parameter types.''))) s
          else
            (case uc_call_handler user (entry_invoke entry) a (call_args c) s of
               (Inr v, s1) \<Rightarrow> settle (promise_id c) (Fulfilled v) s1
             | (Inl e, s1) \<Rightarrow> settle (promise_id c) (Failed e) s1))"

section \<open>Who executes an actor\<close>

definition is_executor_of :: "thread_id \<Rightarrow> actor_ptr \<Rightarrow> sys \<Rightarrow> bool" where
  "is_executor_of tid a s \<longleftrightarrow>
     (if current_actor_context s tid = Some a then True
      else if is_fast (s_actors s a) then m_dedicated_thread (s_actors s a) = Some tid
      else t_worker_thread_id s tid = Some (m_assigned_thread_id (s_actors s a)))"

definition check_call_allowed :: "thread_id \<Rightarrow> actor_ptr \<Rightarrow> sys \<Rightarrow> exn option \<times> sys" where
  "check_call_allowed tid target s =
     (let current = current_actor_context s tid in
      if (\<exists>c \<in> set_option current. m_in_on_start (s_actors s c)) then
        (let (n, s1) = actor_name (the current) s
         in (Some (Std_exn K_on_start_violation
              (''call() is not permitted from on_start(): actor '' @ [CHR 0x27] @ n @ [CHR 0x27]
               @ '' is still initialising and no worker is guaranteed to service the request. ''
               @ ''Use tell() and handle the reply in a message handler.'')), s1))
      else if current = Some target then
        (let (n, s1) = actor_name target s
         in (Some (Std_exn K_call_deadlock_error
              (''call() would deadlock: actor '' @ [CHR 0x27] @ n @ [CHR 0x27]
               @ '' cannot call itself. Call the method directly instead.'')), s1))
      else if runs_inline (s_actors s target) then (None, s)
      else if is_executor_of tid target s then
        (let (n, s1) = actor_name target s;
             (who, s2) = (case current of
                            None \<Rightarrow> ([], s1)
                          | Some c \<Rightarrow> (let (cn, s2) = actor_name c s1 in ('' '' @ [CHR 0x27] @ cn @ [CHR 0x27], s2)))
         in (Some (Std_exn K_call_deadlock_error
              (''call() would deadlock: target actor '' @ [CHR 0x27] @ n @ [CHR 0x27]
               @ '' shares a worker thread with the caller'' @ who
               @ ''. Use tell() with an explicit reply message instead.'')), s2))
      else (None, s))"

section \<open>Stopping\<close>

definition report_rejected :: "user_code \<Rightarrow> actor_ptr \<Rightarrow> message \<Rightarrow> bool \<Rightarrow> sys \<Rightarrow> sys" where
  "report_rejected user a msg was_call s =
     (let (n, s1) = actor_name a s
      in report_dead_letter user n msg (m_state (s_actors s1 a)) was_call s1)"

definition discard_one :: "user_code \<Rightarrow> actor_ptr \<Rightarrow> message \<Rightarrow> sys \<Rightarrow> sys" where
  "discard_one user a msg s =
     destroy_message msg
       (if cas_framework_kind msg \<noteq> FK_shutdown
        then report_rejected user a msg (cas_framework_kind msg = FK_call_request) s else s)"

partial_function (option) discard_mailbox :: "user_code \<Rightarrow> actor_ptr \<Rightarrow> sys \<Rightarrow> sys option" where
  "discard_mailbox user a s =
     (case mailbox_pop (m_mailbox (s_actors s a)) of
        (None, mb) \<Rightarrow> Some (upd_actor a (\<lambda>A. A\<lparr>m_mailbox := mb\<rparr>) s)
      | (Some msg, mb) \<Rightarrow> discard_mailbox user a (discard_one user a msg (upd_actor a (\<lambda>A. A\<lparr>m_mailbox := mb\<rparr>) s)))"

definition drop_held :: "user_code \<Rightarrow> actor_ptr \<Rightarrow> sys \<Rightarrow> sys" where
  "drop_held user a s =
     (let held = st_held (m_stash (s_actors s a));
          s1 = fold (\<lambda>msg. report_rejected user a msg False) held s
      in upd_actor a (\<lambda>A. A\<lparr>m_stash := snd (stash_drop_held (m_stash A))\<rparr>) s1)"

definition discard_pending_messages :: "user_code \<Rightarrow> actor_ptr \<Rightarrow> sys \<Rightarrow> sys option" where
  "discard_pending_messages user a s =
     (if is_stateful (s_actors s a) then map_option (drop_held user a) (discard_mailbox user a s)
      else discard_mailbox user a s)"

definition has_messages :: "actor \<Rightarrow> bool" where
  "has_messages A =
     (if runs_inline A then False
      else if is_stateful A then stash_has_work (m_stash A) (m_mailbox A)
      else mailbox_size (m_mailbox A) > 0)"

definition queue_size :: "actor \<Rightarrow> size_t" where
  "queue_size A = (if is_stateful A then stash_queued (m_stash A) (m_mailbox A) else mailbox_size (m_mailbox A))"

definition close_mailbox :: "user_code \<Rightarrow> actor_ptr \<Rightarrow> actor_state \<Rightarrow> bool \<Rightarrow> sys \<Rightarrow> sys" where
  "close_mailbox user a st skip_shutdown s =
     (let (dropped, mb) = mailbox_close (m_mailbox (s_actors s a));
          s1 = upd_actor a (\<lambda>A. A\<lparr>m_mailbox := mb\<rparr>) s
      in fold (\<lambda>msg s. destroy_message msg
                 (if skip_shutdown \<and> cas_framework_kind msg = FK_shutdown then s
                  else (let (n, s2) = actor_name a s in report_dead_letter user n msg st (is_call msg) s2)))
           dropped s1)"

definition self_ref :: "thread_id \<Rightarrow> sys \<Rightarrow> exn + actor_ptr option" where
  "self_ref tid s =
     (case current_actor_context s tid of
        None \<Rightarrow> Inr None
      | Some c \<Rightarrow> if s_alive s c then Inr (Some c)
                  else Inl (Std_exn K_runtime_error ''Actor self reference is no longer valid''))"

definition tell :: "framework \<Rightarrow> user_code \<Rightarrow> thread_id \<Rightarrow> actor_ptr option \<Rightarrow> message \<Rightarrow> sys \<Rightarrow> (exn option \<times> sys) option" where
  "tell fw user tid target msg s =
     (case target of
        None \<Rightarrow> Some (None, report_invalid_target user (message_type_of msg) s)
      | Some a \<Rightarrow>
          (case self_ref tid s of
             Inl e \<Rightarrow> Some (Some e, s)
           | Inr who \<Rightarrow>
               (let (mid, s1) = next_message_id s
                in fw_enqueue fw tid a (msg\<lparr>sender := (if who = None then sender msg else who), message_id := mid\<rparr>) s1)))"

definition termination_message :: "actor_ptr \<Rightarrow> string \<Rightarrow> sys \<Rightarrow> message" where
  "termination_message a n s =
     \<lparr>m_addr = unat (m_next_message_id s), sender = None, message_id = 0, correlation_id = 0,
      body = Termination_msg n (m_instance_id (s_actors s a)) (a_type_name (s_actors s a))\<rparr>"

fun notify_all_watchers ::
  "framework \<Rightarrow> user_code \<Rightarrow> thread_id \<Rightarrow> actor_ptr \<Rightarrow> actor_ptr list \<Rightarrow> sys \<Rightarrow> sys option" where
  "notify_all_watchers fw user tid a [] s = Some s"
| "notify_all_watchers fw user tid a (w # ws) s =
     (if m_state (s_actors s w) \<noteq> AS_running then notify_all_watchers fw user tid a ws s
      else
        (let (n, s1) = actor_name a s in
         case tell fw user tid (Some w) (termination_message a n s1) s1 of
           None \<Rightarrow> None
         | Some (None, s2) \<Rightarrow> notify_all_watchers fw user tid a ws s2
         | Some (Some e, s2) \<Rightarrow>
             notify_all_watchers fw user tid a ws
               (report_actor_exception user w TI_termination_msg 0 ''handler'' e EA_resume s2)))"

definition end_watches :: "framework \<Rightarrow> user_code \<Rightarrow> thread_id \<Rightarrow> actor_ptr \<Rightarrow> bool \<Rightarrow> sys \<Rightarrow> sys option" where
  "end_watches fw user tid a notify s =
     (let (ws, s1) = remove_watches (m_instance_id (s_actors s a)) s
      in if \<not> notify then Some s1 else notify_all_watchers fw user tid a ws s1)"

definition unlist_actor :: "actor_ptr \<Rightarrow> sys \<Rightarrow> sys" where
  "unlist_actor a s =
     (let w = unat (m_assigned_thread_id (s_actors s a))
      in if \<not> is_fast (s_actors s a) \<and> w < length (m_actors_per_thread s)
         then s\<lparr>m_actors_per_thread := (m_actors_per_thread s)[w := remove1 a (m_actors_per_thread s ! w)]\<rparr>
         else s)"

definition unregister_own_name :: "actor_ptr \<Rightarrow> sys \<Rightarrow> sys" where
  "unregister_own_name a s =
     (let (n, s1) = actor_name a s
      in if n \<noteq> [] then s1\<lparr>s_registry := registry_unregister (s_alive s1) n a (s_registry s1)\<rparr> else s1)"

definition finish_stop :: "framework \<Rightarrow> user_code \<Rightarrow> thread_id \<Rightarrow> actor_ptr \<Rightarrow> sys \<Rightarrow> sys option" where
  "finish_stop fw user tid a s =
     (let s1 = run_stop_hook user tid a SH_on_stop (run_stop_hook user tid a SH_on_shutdown s);
          s2 = cancel_actor_timers a s1
      in Option.bind (discard_pending_messages user a s2) (\<lambda>s3.
         let s4 = unregister_own_name a (close_mailbox user a AS_stopping True s3)
         in Option.bind (end_watches fw user tid a (m_stop_notify_watchers (s_actors s4 a)) s4) (\<lambda>s5.
            Some (upd_actor a (\<lambda>A. A\<lparr>m_state := AS_stopped\<rparr>) (unlist_actor a s5)))))"

definition service_stop :: "framework \<Rightarrow> user_code \<Rightarrow> thread_id \<Rightarrow> time_point \<Rightarrow> actor_ptr \<Rightarrow> sys \<Rightarrow> (bool \<times> sys) option" where
  "service_stop fw user tid now a s =
     (let executor = m_stop_executor (s_actors s a) in
      if executor \<noteq> Some tid \<and> executor \<noteq> None then Some (True, s)
      else
        Option.bind
          (if executor = Some tid then Some s
           else
             (let s1 = cancel_actor_timers a (upd_actor a (\<lambda>A. A\<lparr>m_stop_executor := Some tid\<rparr>) s)
              in if m_stop_discard (s_actors s1 a) then discard_pending_messages user a s1 else Some s1))
          (\<lambda>s2.
            let A = s_actors s2 a in
            if m_state A = AS_stopped then Some (True, s2)
            else if \<not> m_stop_discard A \<and> has_messages A \<and> now < m_stop_drain_deadline A then Some (False, s2)
            else map_option (\<lambda>s3. (True, s3)) (finish_stop fw user tid a s2)))"

definition service_stop_request :: "framework \<Rightarrow> user_code \<Rightarrow> thread_id \<Rightarrow> time_point \<Rightarrow> actor_ptr \<Rightarrow> sys \<Rightarrow> (bool \<times> sys) option" where
  "service_stop_request fw user tid now a s =
     map_option (\<lambda>(done, s1).
       (done, if is_stateful (s_actors s1 a) \<and> done \<and> m_state (s_actors s1 a) = AS_stopped
              then drop_held user a s1 else s1))
     (service_stop fw user tid now a s)"

datatype stop_result = Stop_refused | Stop_completed | Stop_pending | Stop_waits

definition request_stop :: "stop_config \<Rightarrow> time_point \<Rightarrow> actor \<Rightarrow> actor" where
  "request_stop cfg now A = A\<lparr>m_stop_discard := (stop_cfg_mode cfg = SM_discard),
     m_stop_notify_watchers := notify_watchers cfg, m_stop_drain_deadline := now + drain_timeout cfg,
     m_state := AS_stopping, m_stop_phase := SP_requested\<rparr>"

text \<open>Joining a thread that was started makes its \<open>std::thread\<close> empty; whoever claims the join does it.\<close>

definition join_dedicated :: "actor_ptr \<Rightarrow> sys \<Rightarrow> sys" where
  "join_dedicated a s =
     (if m_join_claimed (s_actors s a) then s
      else upd_actor a (\<lambda>A. A\<lparr>m_join_claimed := True, m_dedicated_thread := None\<rparr>) s)"

definition keep_fast_actor :: "thread_id \<Rightarrow> actor \<Rightarrow> bool" where
  "keep_fast_actor tid A \<longleftrightarrow>
     \<not> (m_stop_phase A = SP_requested \<and> m_state A = AS_stopped) \<or> m_dedicated_thread A = Some tid"

definition reap_stopped_fast_actors :: "thread_id \<Rightarrow> sys \<Rightarrow> sys" where
  "reap_stopped_fast_actors tid s =
     (let (keep, reaped) = partition (\<lambda>a. keep_fast_actor tid (s_actors s a)) (m_fast_actors s)
      in fold join_dedicated reaped (s\<lparr>m_fast_actors := keep\<rparr>))"

text \<open>
  The end of \<open>stop_actor\<close>. When the caller waits (\<open>Stop_waits\<close>), it runs once another thread has
  stopped the actor; the other results of \<open>stop_actor\<close> include it.
\<close>

definition stop_actor_end :: "thread_id \<Rightarrow> actor_ptr \<Rightarrow> sys \<Rightarrow> sys" where
  "stop_actor_end tid a s =
     (if is_fast (s_actors s a) \<and> m_state (s_actors s a) = AS_stopped then reap_stopped_fast_actors tid s else s)"

definition stop_actor ::
  "framework \<Rightarrow> thread_id \<Rightarrow> time_point \<Rightarrow> actor_ptr option \<Rightarrow> stop_config \<Rightarrow> sys \<Rightarrow> (stop_result \<times> sys) option" where
  "stop_actor fw tid now ref cfg s =
     (case ref of
        None \<Rightarrow> Some (Stop_refused, s)
      | Some a \<Rightarrow>
          if m_state (s_actors s a) \<noteq> AS_running \<or> m_stop_phase (s_actors s a) \<noteq> SP_none then Some (Stop_refused, s)
          else
            (let s1 = upd_actor a (request_stop cfg now) s in
             if \<not> m_workers_active s1
             then map_option (\<lambda>s2. (Stop_completed, stop_actor_end tid a s2)) (fw_run_stop fw tid a s1)
             else
               (let s2 = (if is_fast (s_actors s1 a) then s1
                          else (let (unblocked, mb) = try_unblock (m_mailbox (s_actors s1 a));
                                    s2 = upd_actor a (\<lambda>A. A\<lparr>m_mailbox := mb\<rparr>) s1
                                in if unblocked then schedule a s2 else s2))
                in Some (if wait_for_stop cfg \<and> \<not> m_shutdown_requested s2 \<and> \<not> is_executor_of tid a s2
                         then (Stop_waits, s2) else (Stop_pending, stop_actor_end tid a s2)))))"

section \<open>Dispatch\<close>

definition exception_stop_config :: stop_config where
  "exception_stop_config = \<lparr>stop_cfg_mode = SM_discard, drain_timeout = 1000, wait_for_stop = False, notify_watchers = True\<rparr>"

definition handle_handler_exception ::
  "framework \<Rightarrow> user_code \<Rightarrow> thread_id \<Rightarrow> time_point \<Rightarrow> actor_ptr \<Rightarrow> message \<Rightarrow> exn \<Rightarrow> sys \<Rightarrow> sys option" where
  "handle_handler_exception fw user tid now a msg e s =
     (let (r, s1) = uc_on_handler_exception user a msg e s;
          action = (case r of Inr act \<Rightarrow> act | Inl _ \<Rightarrow> EA_stop);
          s2 = report_actor_exception user a (message_type_of msg) (message_id msg) ''handler'' e action s1
      in if action = EA_stop \<and> s_alive s2 a
         then map_option snd (stop_actor fw tid now (Some a) exception_stop_config s2)
         else Some s2)"

definition dispatch_shutdown :: "user_code \<Rightarrow> thread_id \<Rightarrow> actor_ptr \<Rightarrow> sys \<Rightarrow> sys" where
  "dispatch_shutdown user tid a s =
     (if m_stop_phase (s_actors s a) \<noteq> SP_none then s
      else
        (let s1 = upd_actor a (\<lambda>A. A\<lparr>m_stop_phase := SP_system_shutdown\<rparr>) s;
             s2 = run_stop_hook user tid a SH_on_shutdown s1
         in upd_actor a (\<lambda>A. A\<lparr>m_state := AS_stopping\<rparr>) (cancel_actor_timers a s2)))"

definition dispatch_message ::
  "framework \<Rightarrow> user_code \<Rightarrow> thread_id \<Rightarrow> time_point \<Rightarrow> actor_ptr \<Rightarrow> message \<Rightarrow> sys \<Rightarrow> (exn option \<times> sys) option" where
  "dispatch_message fw user tid now a msg s =
     (case cas_framework_kind msg of
        FK_shutdown \<Rightarrow> Some (None, dispatch_shutdown user tid a s)
      | FK_call_request \<Rightarrow>
          (case body msg of Call_request c \<Rightarrow> Some (None, call_process user a c s) | _ \<Rightarrow> Some (None, s))
      | FK_user \<Rightarrow>
          (case (case m_handlers (s_actors s a) (message_type_of msg) of
                   Some h \<Rightarrow> uc_handler user h a msg s
                 | None \<Rightarrow> uc_unhandled user a msg s) of
             (None, s1) \<Rightarrow> Some (None, s1)
           | (Some e, s1) \<Rightarrow>
               if runs_inline (s_actors s1 a) then Some (Some e, s1)
               else map_option (\<lambda>s2. (None, s2)) (handle_handler_exception fw user tid now a msg e s1)))"

section \<open>Inline actors\<close>

partial_function (option) run_deferred ::
  "framework \<Rightarrow> user_code \<Rightarrow> thread_id \<Rightarrow> time_point \<Rightarrow> actor_ptr \<Rightarrow> sys \<Rightarrow> (exn option \<times> sys) option" where
  "run_deferred fw user tid now a s =
     (case m_deferred (s_actors s a) of
        [] \<Rightarrow> Some (None, s)
      | next # rest \<Rightarrow>
          (case dispatch_message fw user tid now a next (upd_actor a (\<lambda>A. A\<lparr>m_deferred := rest\<rparr>) s) of
             None \<Rightarrow> None
           | Some (Some e, s1) \<Rightarrow> Some (Some e, destroy_message next s1)
           | Some (None, s1) \<Rightarrow> run_deferred fw user tid now a (destroy_message next s1)))"

definition end_turn :: "user_code \<Rightarrow> thread_id \<Rightarrow> actor_ptr \<Rightarrow> actor_ptr option \<Rightarrow> sys \<Rightarrow> sys" where
  "end_turn user tid a prev s =
     (let s1 = fold (\<lambda>msg. report_rejected user a msg False) (m_deferred (s_actors s a)) s
      in set_context tid prev (upd_actor a (\<lambda>A. A\<lparr>m_deferred := [], m_dispatching_thread := None\<rparr>) s1))"

definition run_turn ::
  "framework \<Rightarrow> user_code \<Rightarrow> thread_id \<Rightarrow> time_point \<Rightarrow> actor_ptr \<Rightarrow> message \<Rightarrow> sys \<Rightarrow> (exn option \<times> sys) option" where
  "run_turn fw user tid now a msg s =
     (let prev = current_actor_context s tid;
          s1 = upd_actor a (\<lambda>A. A\<lparr>m_dispatching_thread := Some tid\<rparr>) (set_context tid (Some a) s)
      in map_option (\<lambda>(r, s3). (r, end_turn user tid a prev s3))
           (case dispatch_message fw user tid now a msg s1 of
              None \<Rightarrow> None
            | Some (Some e, s2) \<Rightarrow> Some (Some e, s2)
            | Some (None, s2) \<Rightarrow> run_deferred fw user tid now a s2))"

definition dispatch_inline ::
  "framework \<Rightarrow> user_code \<Rightarrow> thread_id \<Rightarrow> time_point \<Rightarrow> actor_ptr \<Rightarrow> message \<Rightarrow> bool \<Rightarrow> sys \<Rightarrow> (exn option \<times> sys) option" where
  "dispatch_inline fw user tid now a msg was_call s =
     map_option (\<lambda>(r, s1). (r, destroy_message msg s1))
       (if m_state (s_actors s a) \<noteq> AS_running then Some (None, report_rejected user a msg was_call s)
        else run_turn fw user tid now a msg s)"

definition is_reentrant :: "thread_id \<Rightarrow> actor_ptr \<Rightarrow> sys \<Rightarrow> bool" where
  "is_reentrant tid a s \<longleftrightarrow> m_dispatching_thread (s_actors s a) = Some tid"

definition inline_enqueue_message ::
  "framework \<Rightarrow> user_code \<Rightarrow> thread_id \<Rightarrow> time_point \<Rightarrow> actor_ptr \<Rightarrow> message \<Rightarrow> sys \<Rightarrow> (exn option \<times> sys) option" where
  "inline_enqueue_message fw user tid now a msg s =
     (if is_reentrant tid a s then
        (if m_state (s_actors s a) \<noteq> AS_running
         then Some (None, destroy_message msg (report_rejected user a msg False s))
         else Some (None, upd_actor a (\<lambda>A. A\<lparr>m_deferred := m_deferred A @ [msg]\<rparr>) s))
      else dispatch_inline fw user tid now a msg False s)"

definition inline_enqueue_call_message ::
  "framework \<Rightarrow> user_code \<Rightarrow> thread_id \<Rightarrow> time_point \<Rightarrow> actor_ptr \<Rightarrow> message \<Rightarrow> sys \<Rightarrow> (exn option \<times> sys) option" where
  "inline_enqueue_call_message fw user tid now a msg s =
     (if is_reentrant tid a s then
        (let (n, s1) = actor_name a s
         in Some (Some (Std_exn K_call_deadlock_error
              (''call() would deadlock: inline actor '' @ [CHR 0x27] @ n @ [CHR 0x27]
               @ '' is already handling a message on this thread.'')), destroy_message msg s1))
      else dispatch_inline fw user tid now a msg True s)"

section \<open>Turns, and tying the knot\<close>

definition actor_enqueue ::
  "framework \<Rightarrow> user_code \<Rightarrow> time_point \<Rightarrow> thread_id \<Rightarrow> actor_ptr \<Rightarrow> message \<Rightarrow> sys \<Rightarrow> (exn option \<times> sys) option" where
  "actor_enqueue fw user now tid a msg s =
     (if runs_inline (s_actors s a) then inline_enqueue_message fw user tid now a msg s
      else Some (None, enqueue_message user a msg s))"

definition actor_enqueue_call ::
  "framework \<Rightarrow> user_code \<Rightarrow> time_point \<Rightarrow> thread_id \<Rightarrow> actor_ptr \<Rightarrow> message \<Rightarrow> sys \<Rightarrow> (exn option \<times> sys) option" where
  "actor_enqueue_call fw user now tid a msg s =
     (if runs_inline (s_actors s a) then inline_enqueue_call_message fw user tid now a msg s
      else Some (None, enqueue_call_message user a msg s))"

definition run_message ::
  "framework \<Rightarrow> user_code \<Rightarrow> thread_id \<Rightarrow> time_point \<Rightarrow> actor_ptr \<Rightarrow> message \<Rightarrow> sys \<Rightarrow> (exn option \<times> sys) option" where
  "run_message fw user tid now a msg s =
     (let prev = current_actor_context s tid in
      case dispatch_message fw user tid now a msg (set_context tid (Some a) s) of
        None \<Rightarrow> None
      | Some (Some e, s1) \<Rightarrow> Some (Some e, destroy_message msg s1)
      | Some (None, s1) \<Rightarrow> Some (None, destroy_message msg (set_context tid prev s1)))"

definition process_next_message ::
  "framework \<Rightarrow> user_code \<Rightarrow> thread_id \<Rightarrow> time_point \<Rightarrow> actor_ptr \<Rightarrow> sys \<Rightarrow> (exn option \<times> sys) option" where
  "process_next_message fw user tid now a s =
     (let A = s_actors s a in
      if runs_inline A then Some (None, s)
      else if is_stateful A then
        (case stash_next (m_stash A) (m_mailbox A) of
           None \<Rightarrow> None
         | Some (r, st, mb) \<Rightarrow>
             (let s1 = upd_actor a (\<lambda>A. A\<lparr>m_stash := st, m_mailbox := mb\<rparr>) s
              in case r of None \<Rightarrow> Some (None, s1) | Some msg \<Rightarrow> run_message fw user tid now a msg s1))
      else
        (case mailbox_pop (m_mailbox A) of
           (r, mb) \<Rightarrow>
             (let s1 = upd_actor a (\<lambda>A. A\<lparr>m_mailbox := mb\<rparr>) s
              in case r of None \<Rightarrow> Some (None, s1) | Some msg \<Rightarrow> run_message fw user tid now a msg s1)))"

partial_function (option) stop_loop ::
  "framework \<Rightarrow> user_code \<Rightarrow> (nat \<Rightarrow> time_point) \<Rightarrow> nat \<Rightarrow> thread_id \<Rightarrow> actor_ptr \<Rightarrow> sys \<Rightarrow> sys option" where
  "stop_loop fw user clk n tid a s =
     (case service_stop_request fw user tid (clk n) a s of
        None \<Rightarrow> None
      | Some (done, s1) \<Rightarrow>
          if done then Some s1
          else
            (case process_next_message fw user tid (clk n) a s1 of
               None \<Rightarrow> None
             | Some (_, s2) \<Rightarrow> stop_loop fw user clk (Suc n) tid a s2))"

definition run_stop_to_completion ::
  "framework \<Rightarrow> user_code \<Rightarrow> (nat \<Rightarrow> time_point) \<Rightarrow> thread_id \<Rightarrow> actor_ptr \<Rightarrow> sys \<Rightarrow> sys option" where
  "run_stop_to_completion fw user clk tid a s = stop_loop fw user clk 0 tid a s"

fun framework_of :: "user_code \<Rightarrow> (nat \<Rightarrow> time_point) \<Rightarrow> nat \<Rightarrow> framework" where
  "framework_of user clk 0 = \<lparr>fw_enqueue = (\<lambda>_ _ _ _. None), fw_run_stop = (\<lambda>_ _ _. None)\<rparr>"
| "framework_of user clk (Suc depth) =
     \<lparr>fw_enqueue = actor_enqueue (framework_of user clk depth) user (clk 0),
      fw_run_stop = run_stop_to_completion (framework_of user clk depth) user clk\<rparr>"

definition stop_actor_by_name ::
  "framework \<Rightarrow> thread_id \<Rightarrow> time_point \<Rightarrow> string \<Rightarrow> stop_config \<Rightarrow> sys \<Rightarrow> (stop_result \<times> sys) option" where
  "stop_actor_by_name fw tid now n cfg s =
     (let (r, reg) = registry_get (s_alive s) n (s_registry s); s1 = s\<lparr>s_registry := reg\<rparr>
      in case r of None \<Rightarrow> Some (Stop_refused, s1) | Some a \<Rightarrow> stop_actor fw tid now (Some a) cfg s1)"

definition is_actor_running :: "actor_ptr option \<Rightarrow> sys \<Rightarrow> bool" where
  "is_actor_running ref s = (case ref of None \<Rightarrow> False | Some a \<Rightarrow> m_state (s_actors s a) = AS_running)"

definition timer_callback ::
  "framework \<Rightarrow> user_code \<Rightarrow> thread_id \<Rightarrow> time_point \<Rightarrow> actor_ptr \<Rightarrow> message \<Rightarrow> sys \<Rightarrow> sys option" where
  "timer_callback fw user tid now a msg s =
     (if \<not> s_alive s a then Some s
      else
        (let (mid, s1) = next_message_id s; fired = msg\<lparr>message_id := mid\<rparr> in
         case actor_enqueue fw user now tid a fired s1 of
           None \<Rightarrow> None
         | Some (None, s2) \<Rightarrow> Some s2
         | Some (Some e, s2) \<Rightarrow>
             Some (report_actor_exception user a (message_type_of msg) mid ''handler'' e EA_resume s2)))"

text \<open>
  \<open>actor_ref::call\<close> up to the wait for the result: \<open>Inr\<close> carries the promise the caller waits for.
\<close>

definition call ::
  "framework \<Rightarrow> user_code \<Rightarrow> thread_id \<Rightarrow> time_point \<Rightarrow> actor_ptr option \<Rightarrow> message \<Rightarrow> call_payload \<Rightarrow> sys \<Rightarrow> ((exn + nat) \<times> sys) option" where
  "call fw user tid now target request c s =
     (case target of
        None \<Rightarrow> Some (Inl (Std_exn K_runtime_error ''Cannot call on invalid actor_ref''), s)
      | Some a \<Rightarrow>
          (case check_call_allowed tid a s of
             (Some e, s1) \<Rightarrow> Some (Inl e, s1)
           | (None, s1) \<Rightarrow>
               (case self_ref tid s1 of
                  Inl e \<Rightarrow> Some (Inl e, s1)
                | Inr who \<Rightarrow>
                    (let (mid, s2) = next_message_id s1;
                         msg = request\<lparr>sender := who, message_id := mid, body := Call_request c\<rparr>
                     in case actor_enqueue_call fw user now tid a msg s2 of
                          None \<Rightarrow> None
                        | Some (Some e, s3) \<Rightarrow> Some (Inl e, s3)
                        | Some (None, s3) \<Rightarrow> Some (Inr (promise_id c), s3)))))"

end
