(* ===== verification/Actor_Services.thy ===== *)
theory Actor_Services
  imports Actor_System
begin

text \<open>
  Properties of the services of \<open>Actor_System\<close>: what a send does, when a queue threshold is reported,
  the two watch tables, and the timers of an actor.
\<close>

section \<open>The watch tables\<close>

definition watch_inv :: "sys \<Rightarrow> bool" where
  "watch_inv s \<longleftrightarrow> (\<forall>w d. w \<in> fst ` set (m_watchers s d) \<longleftrightarrow> d \<in> set (m_watching s w))"

definition no_watches :: "sys \<Rightarrow> bool" where
  "no_watches s \<longleftrightarrow> m_watchers s = (\<lambda>_. []) \<and> m_watching s = (\<lambda>_. [])"

inductive watch_step :: "sys \<Rightarrow> sys \<Rightarrow> bool" where
  ws_watch: "watch_step s (watch w d s)"
| ws_unwatch: "watch_step s (unwatch w d s)"
| ws_end: "remove_watches i s = (ws, s') \<Longrightarrow> watch_step s s'"
| ws_other: "m_watchers s' = m_watchers s \<Longrightarrow> m_watching s' = m_watching s \<Longrightarrow> watch_step s s'"

lemma fold_filter_upd:
  "fold (\<lambda>k f. f(k := filter P (f k))) ks g = (\<lambda>k. if k \<in> set ks then filter P (g k) else g k)"
  by (induction ks arbitrary: g) (auto simp: fun_eq_iff filter_filter)

lemma fold_delete_upd:
  "fold (\<lambda>k f. f(k := AList.delete i (f k))) ks g = (\<lambda>k. if k \<in> set ks then AList.delete i (g k) else g k)"
  by (induction ks arbitrary: g) (auto simp: fun_eq_iff AList.delete_twist delete_idem)

lemma keys_delete: "fst ` set (AList.delete i xs) = fst ` set xs - {i}"
  by (metis delete_keys list.set_map set_removeAll)

lemma keys_update: "fst ` set (AList.update k v xs) = insert k (fst ` set xs)"
  by (simp add: AList.dom_update)

lemma watch_keeps_inv: "watch_inv s \<Longrightarrow> watch_inv (watch w d s)"
  by (auto simp: watch_inv_def watch_def Let_def keys_update split: option.split)

lemma unwatch_keeps_inv: "watch_inv s \<Longrightarrow> watch_inv (unwatch w d s)"
  by (auto simp: watch_inv_def unwatch_def Let_def keys_delete split: option.split)

lemma remove_watches_tables:
  assumes "watch_inv s" "remove_watches i s = (ws, s')"
  shows "ws = filter (s_alive s) (map snd (m_watchers s i))"
    "w \<in> fst ` set (m_watchers s' d) \<longleftrightarrow> w \<noteq> i \<and> d \<noteq> i \<and> w \<in> fst ` set (m_watchers s d)"
    "d \<in> set (m_watching s' w) \<longleftrightarrow> w \<noteq> i \<and> d \<noteq> i \<and> d \<in> set (m_watching s w)"
proof -
  let ?watching1 = "\<lambda>k. if k \<in> fst ` set (m_watchers s i) then filter (\<lambda>x. x \<noteq> i) (m_watching s k) else m_watching s k"
  have inv: "k \<in> fst ` set (m_watchers s j) \<longleftrightarrow> j \<in> set (m_watching s k)" for k j
    using assms(1) by (simp add: watch_inv_def)
  have s': "ws = filter (s_alive s) (map snd (m_watchers s i))"
    "s' = s\<lparr>m_watchers := (\<lambda>k. if k \<in> set (?watching1 i) then AList.delete i (((m_watchers s)(i := [])) k)
        else ((m_watchers s)(i := [])) k), m_watching := ?watching1(i := [])\<rparr>"
    using assms(2) by (auto simp: remove_watches_def Let_def fold_filter_upd fold_delete_upd)
  show "ws = filter (s_alive s) (map snd (m_watchers s i))" by (rule s'(1))
  show "w \<in> fst ` set (m_watchers s' d) \<longleftrightarrow> w \<noteq> i \<and> d \<noteq> i \<and> w \<in> fst ` set (m_watchers s d)"
    using inv [of i d] inv [of i i] by (force simp: s'(2) keys_delete)
  show "d \<in> set (m_watching s' w) \<longleftrightarrow> w \<noteq> i \<and> d \<noteq> i \<and> d \<in> set (m_watching s w)"
    using inv [of w i] by (auto simp: s'(2))
qed

interpretation watch_protocol: inductive_invariant no_watches watch_step watch_inv
proof unfold_locales
  show "watch_inv s" if "no_watches s" for s
    using that by (simp add: no_watches_def watch_inv_def)
  show "watch_inv t" if "watch_inv s" "watch_step s t" for s t
    using that(2)
  proof cases
    case (ws_end i ws)
    show ?thesis
      unfolding watch_inv_def remove_watches_tables(2,3) [OF that(1) ws_end]
      using that(1) by (simp add: watch_inv_def)
  qed (use that(1) in \<open>auto simp: watch_keeps_inv unwatch_keeps_inv, simp add: watch_inv_def\<close>)
qed

section \<open>Timers of an actor\<close>

definition timers_tracked :: "sys \<Rightarrow> bool" where
  "timers_tracked s \<longleftrightarrow> timer_inv (m_timer_manager s) \<and> (\<forall>a. finite (m_active_timers (s_actors s a)))
     \<and> (\<forall>tid. is_pending (m_timer_manager s) tid \<longrightarrow> tid \<noteq> INVALID_TIMER_ID \<and>
          (\<exists>a msg. s_timer_target s tid = Some (a, msg) \<and> tid \<in> m_active_timers (s_actors s a)))"

text \<open>
  The 64-bit id counter has not come round: the next id is not the invalid one and not in use.
\<close>

definition timer_ids_fresh :: "sys \<Rightarrow> bool" where
  "timer_ids_fresh s \<longleftrightarrow> m_next_timer_id (m_timer_manager s) \<noteq> INVALID_TIMER_ID
     \<and> m_next_timer_id (m_timer_manager s) \<notin> set (tm_queue (m_timer_manager s))"

inductive actor_timer_step :: "sys \<Rightarrow> sys \<Rightarrow> bool" where
  at_once: "timer_ids_fresh s \<Longrightarrow> schedule_once a delay msg now s = (tid, s') \<Longrightarrow> actor_timer_step s s'"
| at_periodic: "timer_ids_fresh s \<Longrightarrow> schedule_periodic a ivl msg now s = (tid, s') \<Longrightarrow> actor_timer_step s s'"
| at_cancel: "actor_timer_step s (cancel_timer a tid s)"
| at_cancel_all: "actor_timer_step s (cancel_actor_timers a s)"
| at_turn: "is_top (m_timer_manager s) tid \<Longrightarrow> timer_turn now tid (m_timer_manager s) = (r, tm) \<Longrightarrow>
    actor_timer_step s (s\<lparr>m_timer_manager := tm\<rparr>)"
| at_state: "actor_timer_step s (upd_actor a (\<lambda>A. A\<lparr>m_state := st\<rparr>) s)"

definition no_timers :: "sys \<Rightarrow> bool" where
  "no_timers s \<longleftrightarrow> m_timer_manager s = timer_init \<and> (\<forall>a. m_active_timers (s_actors s a) = {})"

lemma cancel_all_effect:
  assumes "timer_inv (m_timer_manager s)"
  shows "timer_inv (m_timer_manager (fold cancel_timer_internal ids s))
    \<and> (is_pending (m_timer_manager (fold cancel_timer_internal ids s)) k \<longleftrightarrow>
         is_pending (m_timer_manager s) k \<and> k \<notin> set ids)
    \<and> s_actors (fold cancel_timer_internal ids s) = s_actors s
    \<and> s_timer_target (fold cancel_timer_internal ids s) = s_timer_target s"
  using assms
proof (induction ids arbitrary: s)
  case (Cons i ids)
  have "timer_inv (m_timer_manager (cancel_timer_internal i s))"
    using Cons.prems by (simp add: cancel_timer_internal_def timer_cancel_inv)
  from Cons.IH [OF this] timer_cancel_effect(1) [OF Cons.prems, of i] timer_cancel_effect(2) [OF Cons.prems, of k i]
  show ?case
    by (cases "k = i") (auto simp: cancel_timer_internal_def)
qed simp

lemma cancel_actor_timers_effect:
  assumes "timers_tracked s"
  shows "timers_tracked (cancel_actor_timers a s)"
    "is_pending (m_timer_manager (cancel_actor_timers a s)) k \<longleftrightarrow>
       is_pending (m_timer_manager s) k \<and> k \<notin> m_active_timers (s_actors s a)"
proof -
  let ?ids = "sorted_list_of_set (m_active_timers (s_actors s a))"
  have ids: "set ?ids = m_active_timers (s_actors s a)"
    using assms by (simp add: timers_tracked_def)
  note e = cancel_all_effect [of s ?ids]
  have ti: "timer_inv (m_timer_manager s)" using assms by (simp add: timers_tracked_def)
  show p: "is_pending (m_timer_manager (cancel_actor_timers a s)) k \<longleftrightarrow>
       is_pending (m_timer_manager s) k \<and> k \<notin> m_active_timers (s_actors s a)" for k
    using e [OF ti, of k] ids by (simp add: cancel_actor_timers_def upd_actor_def)
  have "timer_inv (m_timer_manager (cancel_actor_timers a s))"
    "s_actors (cancel_actor_timers a s) = (s_actors s)(a := s_actors s a\<lparr>m_active_timers := {}\<rparr>)"
    "s_timer_target (cancel_actor_timers a s) = s_timer_target s"
    using e [OF ti] by (simp_all add: cancel_actor_timers_def upd_actor_def)
  with assms p show "timers_tracked (cancel_actor_timers a s)"
    unfolding timers_tracked_def by fastforce
qed

lemma cancel_timer_tracked:
  assumes "timers_tracked s"
  shows "timers_tracked (cancel_timer a tid s)"
proof (cases "tid = INVALID_TIMER_ID")
  case True
  with assms show ?thesis by (simp add: cancel_timer_def)
next
  case False
  have ti: "timer_inv (m_timer_manager s)" using assms by (simp add: timers_tracked_def)
  have pend: "is_pending (timer_cancel tid (m_timer_manager s)) k \<Longrightarrow> is_pending (m_timer_manager s) k \<and> k \<noteq> tid" for k
    using timer_cancel_effect(1,2) [OF ti] by metis
  show ?thesis
    unfolding timers_tracked_def
  proof (intro conjI allI impI)
    show "timer_inv (m_timer_manager (cancel_timer a tid s))"
      using False ti by (simp add: cancel_timer_def cancel_timer_internal_def upd_actor_def timer_cancel_inv)
    show "finite (m_active_timers (s_actors (cancel_timer a tid s) b))" for b
      using False assms by (simp add: cancel_timer_def cancel_timer_internal_def upd_actor_def timers_tracked_def)
    fix k assume "is_pending (m_timer_manager (cancel_timer a tid s)) k"
    then have k: "is_pending (m_timer_manager s) k" "k \<noteq> tid"
      using False pend by (auto simp: cancel_timer_def cancel_timer_internal_def upd_actor_def)
    with assms obtain b msg where "k \<noteq> INVALID_TIMER_ID" "s_timer_target s k = Some (b, msg)"
      "k \<in> m_active_timers (s_actors s b)" by (auto simp: timers_tracked_def)
    with k(2) False show "k \<noteq> INVALID_TIMER_ID"
      "\<exists>b msg. s_timer_target (cancel_timer a tid s) k = Some (b, msg) \<and> k \<in> m_active_timers (s_actors (cancel_timer a tid s) b)"
      by (auto simp: cancel_timer_def cancel_timer_internal_def upd_actor_def)
  qed
qed

text \<open>Pruning forgets only timers that will not fire again.\<close>

lemma track_timer_effect:
  assumes "tid \<noteq> INVALID_TIMER_ID" "timer_inv (m_timer_manager s)"
  shows "m_timer_manager (track_timer a tid s) = m_timer_manager s"
    "s_timer_target (track_timer a tid s) = s_timer_target s"
    "b \<noteq> a \<Longrightarrow> s_actors (track_timer a tid s) b = s_actors s b"
    "tid \<in> m_active_timers (s_actors (track_timer a tid s) a)"
    "k \<in> m_active_timers (s_actors s a) \<Longrightarrow> is_pending (m_timer_manager s) k \<Longrightarrow>
       k \<in> m_active_timers (s_actors (track_timer a tid s) a)"
    "m_active_timers (s_actors (track_timer a tid s) a) \<subseteq> insert tid (m_active_timers (s_actors s a))"
  using assms
  by (auto simp: track_timer_def Let_def upd_actor_def forget_finished_timers_def retain_active_def timer_inv_def)

lemma schedule_timer_tracked:
  assumes tr: "timers_tracked s" and fresh: "timer_ids_fresh s"
    and st: "schedule_timer a msg delay ivl now s = (tid, s1)"
  shows "timers_tracked (track_timer a tid s1)"
proof (cases "m_state (s_actors s a) = AS_running")
  case False
  with st tr show ?thesis by (auto simp: schedule_timer_def track_timer_def)
next
  case True
  obtain tm where ts: "timer_schedule now (m_addr msg) delay ivl (m_timer_manager s) = (tid, tm)"
    and s1: "s1 = s\<lparr>m_timer_manager := tm, s_timer_target := (s_timer_target s)(tid \<mapsto> (a, msg))\<rparr>"
    using True st by (auto simp: schedule_timer_def split: prod.splits)
  note e = timer_schedule_effect [OF ts]
  have ti: "timer_inv tm"
    using timer_schedule_inv [of "m_timer_manager s" now "m_addr msg" delay ivl] ts tr fresh
    by (simp add: timers_tracked_def timer_ids_fresh_def)
  have nz: "tid \<noteq> INVALID_TIMER_ID" using fresh e(1) by (simp add: timer_ids_fresh_def)
  have ti1: "timer_inv (m_timer_manager s1)" using ti s1 by simp
  note t = track_timer_effect [OF nz ti1]
  show ?thesis
    unfolding timers_tracked_def
  proof (intro conjI allI impI)
    show "timer_inv (m_timer_manager (track_timer a tid s1))" using t(1) ti1 by simp
    show "finite (m_active_timers (s_actors (track_timer a tid s1) b))" for b
    proof (cases "b = a")
      case True
      have "finite (insert tid (m_active_timers (s_actors s1 a)))"
        using tr s1 by (simp add: timers_tracked_def)
      then show ?thesis unfolding True using t(6) [of a] finite_subset by blast
    qed (use t(3) tr s1 in \<open>simp add: timers_tracked_def\<close>)
    fix k assume "is_pending (m_timer_manager (track_timer a tid s1)) k"
    then have k: "is_pending (m_timer_manager s1) k" by (simp add: t(1))
    show "k \<noteq> INVALID_TIMER_ID"
      using k tr nz e s1 by (cases "k = tid") (auto simp: timers_tracked_def is_pending_def)
    show "\<exists>b m. s_timer_target (track_timer a tid s1) k = Some (b, m) \<and> k \<in> m_active_timers (s_actors (track_timer a tid s1) b)"
    proof (cases "k = tid")
      case True
      then show ?thesis using t(2,4) s1 by simp
    next
      case False
      with k e s1 have "is_pending (m_timer_manager s) k" by (auto simp: is_pending_def)
      with tr obtain b m where "s_timer_target s k = Some (b, m)" "k \<in> m_active_timers (s_actors s b)"
        by (auto simp: timers_tracked_def)
      with False k t(2,3,5) s1 show ?thesis by (cases "b = a") auto
    qed
  qed
qed

lemma timer_turn_tracked:
  assumes "timers_tracked s" "is_top (m_timer_manager s) tid" "timer_turn now tid (m_timer_manager s) = (r, tm)"
  shows "timers_tracked (s\<lparr>m_timer_manager := tm\<rparr>)"
proof -
  have ti: "timer_inv (m_timer_manager s)" using assms(1) by (simp add: timers_tracked_def)
  have "is_pending (m_timer_manager s) k" if "is_pending tm k" for k
  proof (cases "k = tid")
    case True
    then show ?thesis
      using that assms(2,3) ti
      by (auto simp: timer_turn_def is_pending_def is_top_def Let_def timer_inv_def split: option.splits if_splits)
  qed (use that is_pending_frame(1) [of k tid now "m_timer_manager s"] assms(3) in auto)
  moreover have "timer_inv tm" using timer_turn_inv [OF ti assms(2), of now] assms(3) by simp
  ultimately show ?thesis using assms(1) by (auto simp: timers_tracked_def)
qed

interpretation actor_timers: inductive_invariant no_timers actor_timer_step timers_tracked
proof unfold_locales
  show "timers_tracked s" if "no_timers s" for s
    using that timer_init_inv by (simp add: no_timers_def timers_tracked_def is_pending_def timer_init_def)
  show "timers_tracked t" if tr: "timers_tracked s" and st: "actor_timer_step s t" for s t
    using st
  proof cases
    case (at_once a delay msg now tid)
    then show ?thesis
      using schedule_timer_tracked [OF tr at_once(1)] by (auto simp: schedule_once_def split: prod.splits)
  next
    case (at_periodic a ivl msg now tid)
    then show ?thesis
      using schedule_timer_tracked [OF tr at_periodic(1)] by (auto simp: schedule_periodic_def split: prod.splits)
  next
    case (at_state a st)
    then show ?thesis using tr by (fastforce simp: timers_tracked_def upd_actor_def)
  qed (use tr in \<open>auto simp: cancel_timer_tracked cancel_actor_timers_effect(1) timer_turn_tracked\<close>)
qed

section \<open>Properties\<close>

text \<open>
  Property C17. No send is silently lost. With callbacks that only observe, a tell or call to an actor that
  runs and whose mailbox is open appends the message to its lane and changes no other mailbox and
  no dead-letter counter; it puts the actor on its worker's ready queue exactly when the mailbox was
  blocked (the actor was idle), and the total high-water mark covers the new queue size. Any other
  send leaves every mailbox and every ready queue alone, counts exactly one dead letter of its kind,
  and breaks the promise of a call.
\<close>

theorem send_outcome:
  assumes "callbacks_observe user" "s' = send user as_call a msg s"
  shows "(accepting s a \<longrightarrow>
      call_lane (mailboxes s' a) = call_lane (mailboxes s a) @ (if is_call msg then [msg] else [])
    \<and> other_lane_of (mailboxes s' a) = other_lane_of (mailboxes s a) @ (if is_call msg then [] else [msg])
    \<and> (\<forall>b. b \<noteq> a \<longrightarrow> mailboxes s' b = mailboxes s b)
    \<and> m_dead_letter_tell s' = m_dead_letter_tell s \<and> m_dead_letter_ask s' = m_dead_letter_ask s
    \<and> (has_worker s a \<longrightarrow> ready_of s' a = ready_of s a @ (if mailbox_blocked (mailboxes s a) then [a] else []))
    \<and> mailbox_size (mailboxes s' a) \<le> m_total_high_water_mark (s_actors s' a))
  \<and> (\<not> accepting s a \<longrightarrow>
      mailboxes s' = mailboxes s \<and> m_workers s' = m_workers s
    \<and> m_dead_letter_tell s' = m_dead_letter_tell s + (if as_call then 0 else 1)
    \<and> m_dead_letter_ask s' = m_dead_letter_ask s + (if as_call then 1 else 0)
    \<and> (\<forall>c. body msg = Call_request c \<longrightarrow> s_promises s' (promise_id c) \<noteq> Pending))"
proof (intro conjI impI)
  assume acc: "accepting s a"
  note r = send_accepted [OF assms(1) acc assms(2)]
  have open_box: "\<not> mailbox_closed (mailboxes s a)" using acc by (simp add: accepting_def)
  show "call_lane (mailboxes s' a) = call_lane (mailboxes s a) @ (if is_call msg then [msg] else [])"
    "other_lane_of (mailboxes s' a) = other_lane_of (mailboxes s a) @ (if is_call msg then [] else [msg])"
    unfolding r(1) using mailbox_push_lanes [OF open_box] by simp_all
  show "\<forall>b. b \<noteq> a \<longrightarrow> mailboxes s' b = mailboxes s b" using r(1) by simp
  show "ready_of s' a = ready_of s a @ (if mailbox_blocked (mailboxes s a) then [a] else [])"
    if "has_worker s a" using r(4) that .
qed (use send_accepted(2,3,5) [OF assms(1) _ assms(2)] send_rejected [OF assms(1) _ assms(2)] in blast)+

text \<open>
  Fact. Threshold reports are once per breach: over any sequence of queue sizes seen by the sends to an
  actor, every report is for a size above the threshold, between two reports the size went down
  to half the threshold, and the first size above the threshold is reported.
\<close>

theorem threshold_once_per_breach:
  "(i < length ns \<and> threshold_run th sent ns ! i \<longrightarrow> 0 < th \<and> th < ns ! i)
   \<and> (i < j \<and> j < length ns \<and> threshold_run th sent ns ! i \<and> threshold_run th sent ns ! j \<longrightarrow>
        (\<exists>k. i < k \<and> k < j \<and> ns ! k \<le> th div 2))
   \<and> (j < length ns \<and> 0 < th \<and> th < ns ! j \<and> (\<forall>k < j. ns ! k \<le> th) \<longrightarrow> threshold_run th False ns ! j)"
proof (intro conjI)
  show "i < length ns \<and> threshold_run th sent ns ! i \<longrightarrow> 0 < th \<and> th < ns ! i"
    using threshold_run_report [of i ns th sent] by simp
  show "i < j \<and> j < length ns \<and> threshold_run th sent ns ! i \<and> threshold_run th sent ns ! j \<longrightarrow>
        (\<exists>k. i < k \<and> k < j \<and> ns ! k \<le> th div 2)"
    by (intro impI, elim conjE) (rule threshold_run_rearm)
  show "j < length ns \<and> 0 < th \<and> th < ns ! j \<and> (\<forall>k < j. ns ! k \<le> th) \<longrightarrow> threshold_run th False ns ! j"
    using threshold_run_first [of j ns th] by simp
qed

text \<open>
  When an actor ends, exactly its watchers that still exist are to be notified, and no
  entry mentions the actor any more, neither as watcher nor as watched.
\<close>

lemma watch_end_complete:
  assumes inv: "watch_inv s"
  shows "fst (remove_watches i s) = filter (s_alive s) (map snd (m_watchers s i))
    \<and> i \<notin> fst ` set (m_watchers (snd (remove_watches i s)) d) \<and> m_watchers (snd (remove_watches i s)) i = []
    \<and> i \<notin> set (m_watching (snd (remove_watches i s)) w) \<and> m_watching (snd (remove_watches i s)) i = []"
proof -
  obtain ws s' where r: "remove_watches i s = (ws, s')" by (cases "remove_watches i s") auto
  note t = remove_watches_tables [OF inv r]
  have none: "k \<notin> fst ` set (m_watchers s' i)" "i \<notin> fst ` set (m_watchers s' k)"
    "k \<notin> set (m_watching s' i)" "i \<notin> set (m_watching s' k)" for k
    by (simp_all only: t(2,3) simp_thms not_False_eq_True)
  have "m_watchers s' i = []" "m_watching s' i = []"
    using none(1) [of "fst (hd (m_watchers s' i))"] none(3) [of "hd (m_watching s' i)"]
    by (cases "m_watchers s' i"; cases "m_watching s' i"; simp)+
  with none(2,4) t(1) r show ?thesis by simp
qed

text \<open>
  Fact. The watch tables are inverse to each other after any sequence of watch, unwatch and end of an
  actor, so the end of an actor always leaves them without it.
\<close>

theorem watch_tables_consistent:
  assumes "reachable no_watches watch_step s"
  shows "(w \<in> fst ` set (m_watchers s d) \<longleftrightarrow> d \<in> set (m_watching s w))
    \<and> fst (remove_watches i s) = filter (s_alive s) (map snd (m_watchers s i))
    \<and> i \<notin> fst ` set (m_watchers (snd (remove_watches i s)) d) \<and> m_watchers (snd (remove_watches i s)) i = []
    \<and> i \<notin> set (m_watching (snd (remove_watches i s)) w) \<and> m_watching (snd (remove_watches i s)) i = []"
proof -
  have inv: "watch_inv s" by (rule watch_protocol.reachable_inv [OF assms])
  with watch_end_complete [OF inv, of i d w] show ?thesis by (simp add: watch_inv_def)
qed

lemma cancel_reaches_all:
  assumes tr: "timers_tracked s" and "is_pending (m_timer_manager (cancel_actor_timers a s)) tid"
  shows "\<exists>b msg. s_timer_target (cancel_actor_timers a s) tid = Some (b, msg) \<and> b \<noteq> a"
proof -
  note c = cancel_actor_timers_effect [OF tr]
  from c(1) [of a] assms(2) obtain b msg where b: "s_timer_target (cancel_actor_timers a s) tid = Some (b, msg)"
    "tid \<in> m_active_timers (s_actors (cancel_actor_timers a s) b)"
    by (auto simp: timers_tracked_def)
  moreover have "m_active_timers (s_actors (cancel_actor_timers a s) a) = {}"
    by (simp add: cancel_actor_timers_def upd_actor_def)
  ultimately show ?thesis by blast
qed

text \<open>
  Fact. A stopped actor gets no more timer messages: after any sequence of scheduling, cancelling,
  pruning, firing and state changes, cancelling the timers of an actor leaves no pending timer whose
  target it is, so the pruning of an actor's timer set never forgets a timer that can still fire.
\<close>

theorem cancel_reaches_every_timer:
  assumes "reachable no_timers actor_timer_step s"
    "is_pending (m_timer_manager (cancel_actor_timers a s)) tid"
  shows "\<exists>b msg. s_timer_target (cancel_actor_timers a s) tid = Some (b, msg) \<and> b \<noteq> a"
  by (rule cancel_reaches_all [OF actor_timers.reachable_inv [OF assms(1)] assms(2)])

section \<open>Witnesses\<close>

definition idle_user :: user_code where
  "idle_user = \<lparr>uc_handler = (\<lambda>_ _ _ s. (None, s)), uc_unhandled = (\<lambda>_ _ s. (None, s)),
     uc_on_start = (\<lambda>_ s. (None, s)), uc_on_shutdown = (\<lambda>_ s. (None, s)), uc_on_stop = (\<lambda>_ s. (None, s)),
     uc_on_handler_exception = (\<lambda>_ _ _ s. (Inr EA_resume, s)), uc_call_handler = (\<lambda>_ _ x s. (Inr x, s)),
     uc_dead_letter_cb = (\<lambda>_ _ s. (None, s)), uc_threshold_cb = (\<lambda>_ _ s. (None, s)),
     uc_exception_cb = (\<lambda>_ _ s. (None, s)), uc_type_id_name = (\<lambda>_. ''t'')\<rparr>"

definition sys_init :: sys where
  "sys_init = \<lparr>s_actors = (\<lambda>a. actor_init Pooled ''worker''), s_alive = (\<lambda>_. True),
     m_config = \<lparr>thread_pool_size = 2, cfg_queue_threshold = 1000, log_dead_letters = False, max_messages_per_turn = 64\<rparr>,
     m_actors_per_thread = [], m_thread_pool = [], m_running = False, m_shutdown_requested = False, m_shutdown_started = False,
     m_has_run = False, m_workers_active = False, m_fast_actors = [], m_next_thread_assignment = 0,
     m_next_message_id = 1, m_next_instance_id = 1, m_shutdown_log = [], m_timer_manager = timer_init,
     s_timer_target = (\<lambda>_. None), m_workers = [], m_watchers = (\<lambda>_. []), m_watching = (\<lambda>_. []),
     m_dead_letter_tell = 0, m_dead_letter_ask = 0, m_dead_letter_invalid = 0, m_dead_letter_handler = None,
     m_queue_threshold_handler = None, m_handler_exceptions = 0, m_handler_exception_handler = None,
     s_registry = Mapping.empty, s_promises = (\<lambda>_. Pending), s_stderr = [],
     current_actor_context = (\<lambda>_. None), t_worker_thread_id = (\<lambda>_. None)\<rparr>"

lemma idle_user_observes: "callbacks_observe idle_user"
  by (simp add: callbacks_observe_def idle_user_def quiet_refl)

theorem send_outcome_witness:
  "other_lane_of (mailboxes (send idle_user False 3 (sample_user 1) sys_init) 3) = [sample_user 1]"
  using send_outcome [OF idle_user_observes, of _ False 3 "sample_user 1" sys_init]
  by (simp add: accepting_def mailboxes_def sys_init_def actor_init_def mailbox_init_def mailbox_closed_def
      other_lane_of_def is_call_def cas_framework_kind_def sample_user_def)

theorem threshold_once_per_breach_witness:
  "threshold_run 4 False [3, 5, 6, 2, 7] = [False, True, False, False, True]
   \<and> (\<exists>k. 1 < k \<and> k < 4 \<and> [3, 5, 6, 2, 7 :: size_t] ! k \<le> 4 div 2)"
  using threshold_once_per_breach [of 1 "[3, 5, 6, 2, 7]" 4 False 4]
  by (simp add: threshold_step_def)

theorem watch_tables_consistent_witness:
  "m_watchers (snd (remove_watches 0 (watch (Some 1) (Some 2) sys_init))) 0 = []
   \<and> fst (remove_watches 0 (watch (Some 1) (Some 2) sys_init)) = [1]"
proof -
  have "reachable no_watches watch_step (watch (Some 1) (Some 2) sys_init)"
  proof (rule reachable_step)
    show "reachable no_watches watch_step sys_init"
      by (rule reachable_init) (simp add: no_watches_def sys_init_def)
  qed (rule ws_watch)
  from watch_tables_consistent [OF this, of _ _ 0] show ?thesis
    by (simp add: watch_def sys_init_def actor_init_def)
qed

theorem cancel_reaches_every_timer_witness:
  "s_timer_target (cancel_actor_timers 1 (snd (schedule_once 2 5 (sample_user 1) 0 sys_init))) 1 = Some (2, sample_user 1)"
proof -
  let ?s = "snd (schedule_once 2 5 (sample_user 1) 0 sys_init)"
  have "reachable no_timers actor_timer_step ?s"
  proof (rule reachable_step)
    show "reachable no_timers actor_timer_step sys_init"
      by (rule reachable_init) (simp add: no_timers_def sys_init_def actor_init_def)
    show "actor_timer_step sys_init ?s"
      by (rule at_once [where tid = "fst (schedule_once 2 5 (sample_user 1) 0 sys_init)"])
        (simp_all add: sys_init_def timer_ids_fresh_def timer_init_def INVALID_TIMER_ID_def)
  qed
  moreover have s: "schedule_once 2 5 (sample_user 1) 0 sys_init = (1, ?s)"
    "m_active_timers (s_actors ?s 1) = {}" "is_pending (m_timer_manager ?s) 1"
    "s_timer_target ?s 1 = Some (2, sample_user 1)"
    by (simp_all add: schedule_once_def schedule_timer_def track_timer_def sys_init_def actor_init_def
        timer_schedule_def timer_init_def INVALID_TIMER_ID_def upd_actor_def is_pending_def Let_def)
  moreover have "is_pending (m_timer_manager (cancel_actor_timers 1 ?s)) 1"
    "s_timer_target (cancel_actor_timers 1 ?s) = s_timer_target ?s"
    using s(2,3) by (simp_all add: cancel_actor_timers_def upd_actor_def)
  ultimately show ?thesis
    using cancel_reaches_every_timer [of ?s 1 1] by simp
qed

end
