(* ===== verification/Actor_Execution.thy ===== *)
theory Actor_Execution
  imports Actor_Dispatch Actor_Services
begin

text \<open>
  Properties of dispatch, calls, hooks, inline actors and the stop of an actor: exceptions of user
  code stay inside the framework, every call is answered, \<open>on_start\<close> runs once, a call that could not
  be answered is refused, inline handlers do not nest, and a stop leaves nothing behind.
\<close>

section \<open>Exceptions\<close>

text \<open>The class of an object does not change while user code runs.\<close>

definition kinds_fixed :: "user_code \<Rightarrow> bool" where
  "kinds_fixed user \<longleftrightarrow>
     (\<forall>h a m s b. a_kind (s_actors (snd (uc_handler user h a m s)) b) = a_kind (s_actors s b))
   \<and> (\<forall>a m s b. a_kind (s_actors (snd (uc_unhandled user a m s)) b) = a_kind (s_actors s b))"

lemma runs_inline_cong: "a_kind A = a_kind B \<Longrightarrow> runs_inline A = runs_inline B"
  by (simp add: runs_inline_def)

lemma dispatch_throws_inline:
  assumes "kinds_fixed user" "dispatch_message fw user tid now a msg s = Some (Some e, s')"
  shows "runs_inline (s_actors s a)"
proof -
  let ?r = "case m_handlers (s_actors s a) (message_type_of msg) of
      Some h \<Rightarrow> uc_handler user h a msg s | None \<Rightarrow> uc_unhandled user a msg s"
  have "a_kind (s_actors (snd ?r) a) = a_kind (s_actors s a)"
    using assms(1) by (simp add: kinds_fixed_def split: option.split)
  then have "runs_inline (s_actors (snd ?r) a) = runs_inline (s_actors s a)"
    by (rule runs_inline_cong)
  with assms(2) show ?thesis
    by (cases ?r) (auto simp: dispatch_message_def split: framework_kind.splits message_body.splits option.splits if_splits)
qed

lemma run_message_no_throw:
  assumes "kinds_fixed user" "\<not> runs_inline (s_actors s a)"
    "run_message fw user tid now a msg s = Some (r, s')"
  shows "r = None"
proof -
  have "\<not> runs_inline (s_actors (set_context tid (Some a) s) a)"
    using assms(2) by (simp add: set_context_def)
  with assms(3) dispatch_throws_inline [OF assms(1)] show ?thesis
    by (auto simp: run_message_def Let_def split: option.splits)
qed

section \<open>Starting\<close>

text \<open>The started flag is private: only \<open>run_on_start\<close> writes it.\<close>

definition started_private :: "user_code \<Rightarrow> bool" where
  "started_private user \<longleftrightarrow>
     (\<forall>a s b. m_started (s_actors s b) \<longrightarrow> m_started (s_actors (snd (uc_on_start user a s)) b))"

section \<open>Inline actors\<close>

lemma end_turn_state:
  "m_deferred (s_actors (end_turn user tid a prev s) a) = []"
  "m_dispatching_thread (s_actors (end_turn user tid a prev s) a) = None"
  "current_actor_context (end_turn user tid a prev s) tid = prev"
  by (simp_all add: end_turn_def Let_def set_context_def upd_actor_def)

section \<open>What a stop leaves alone\<close>

definition frame :: "sys \<Rightarrow> sys \<Rightarrow> bool" where
  "frame s s' \<longleftrightarrow> (\<forall>b. a_kind (s_actors s' b) = a_kind (s_actors s b) \<and> m_state (s_actors s' b) = m_state (s_actors s b)
        \<and> m_instance_id (s_actors s' b) = m_instance_id (s_actors s b)
        \<and> m_active_timers (s_actors s' b) = m_active_timers (s_actors s b)
        \<and> m_stop_discard (s_actors s' b) = m_stop_discard (s_actors s b)
        \<and> (m_name (s_actors s b) \<noteq> None \<longrightarrow> m_name (s_actors s' b) = m_name (s_actors s b)))
     \<and> m_watchers s' = m_watchers s \<and> m_watching s' = m_watching s
     \<and> s_registry s' = s_registry s \<and> s_alive s' = s_alive s"

lemma frame_refl: "frame s s"
  by (simp add: frame_def)

lemma frame_trans: "frame s s' \<Longrightarrow> frame s' s'' \<Longrightarrow> frame s s''"
  by (simp add: frame_def)

lemma frame_quiet: "quiet s s' \<Longrightarrow> frame s s'"
  by (auto simp: frame_def dest: quiet_fields)

lemma mailboxes_quiet: "quiet s s' \<Longrightarrow> mailboxes s' = mailboxes s"
  by (auto simp: mailboxes_def fun_eq_iff dest: quiet_fields)

lemma frame_upd:
  assumes "\<And>A. a_kind (f A) = a_kind A" "\<And>A. m_state (f A) = m_state A"
    "\<And>A. m_instance_id (f A) = m_instance_id A" "\<And>A. m_active_timers (f A) = m_active_timers A"
    "\<And>A. m_name (f A) = m_name A" "\<And>A. m_stop_discard (f A) = m_stop_discard A"
  shows "frame s (upd_actor a f s)"
  using assms by (simp add: frame_def upd_actor_def)

lemma frame_actor_name: "frame s (snd (actor_name a s))"
  by (auto simp: frame_def actor_name_def assign_default_name_def publish_name_def upd_actor_def Let_def split: option.split)

lemma frame_destroy: "frame s (destroy_message msg s)"
  by (auto simp: frame_def destroy_message_def split: message_body.split)

lemma frame_report:
  assumes "callbacks_observe user"
  shows "frame s (report_dead_letter user n msg st c s)" "mailboxes (report_dead_letter user n msg st c s) = mailboxes s"
proof -
  note q = report_dead_letter_quiet [OF assms, of c s n msg st]
  have "frame s (count_dead_letter c s)" "mailboxes (count_dead_letter c s) = mailboxes s"
    by (simp_all add: frame_def count_dead_letter_def mailboxes_def fun_eq_iff)
  with frame_trans [OF _ frame_quiet [OF q]] mailboxes_quiet [OF q]
  show "frame s (report_dead_letter user n msg st c s)" "mailboxes (report_dead_letter user n msg st c s) = mailboxes s"
    by simp_all
qed

lemma frame_rejected:
  assumes "callbacks_observe user"
  shows "frame s (report_rejected user a msg c s)" "mailboxes (report_rejected user a msg c s) = mailboxes s"
  unfolding report_rejected_def
  using frame_trans [OF frame_actor_name frame_report(1) [OF assms]] frame_report(2) [OF assms]
    actor_name_frame(1) [of a s]
  by (simp_all add: case_prod_beta Let_def)

lemma frame_drop:
  assumes "callbacks_observe user"
  shows "frame s (drop_message user a msg st c s)" "mailboxes (drop_message user a msg st c s) = mailboxes s"
proof -
  show "mailboxes (drop_message user a msg st c s) = mailboxes s"
    using drop_message_spec(1) [OF assms refl] .
  show "frame s (drop_message user a msg st c s)"
    unfolding drop_message_def
    using frame_trans [OF frame_trans [OF frame_actor_name frame_report(1) [OF assms]] frame_destroy]
    by (simp add: case_prod_beta Let_def)
qed

lemma frame_discard_one:
  assumes "callbacks_observe user"
  shows "frame s (discard_one user a msg s)" "mailboxes (discard_one user a msg s) = mailboxes s"
  unfolding discard_one_def
  using frame_trans [OF frame_rejected(1) [OF assms] frame_destroy] frame_destroy frame_rejected(2) [OF assms]
  by (simp_all add: destroy_message_frame)

lemma frame_threshold:
  assumes "callbacks_observe user"
  shows "frame s (check_threshold user a n s)"
proof -
  let ?u = "\<lambda>sent. upd_actor a (\<lambda>A. A\<lparr>m_threshold_warning_sent := sent\<rparr>) s"
  have "frame s (?u sent)" for sent by (rule frame_upd) simp_all
  moreover have "frame (?u sent) (report_queue_threshold user (fst (actor_name a (?u sent))) n th (snd (actor_name a (?u sent))))"
    for sent th
    by (rule frame_trans [OF frame_actor_name frame_quiet [OF report_threshold_quiet [OF assms]]])
  ultimately show ?thesis
    using frame_trans unfolding check_threshold_def Let_def by (simp add: case_prod_beta) blast
qed

lemma frame_enqueue:
  assumes "callbacks_observe user"
  shows "frame s (enqueue_message user w msg s)" "a \<noteq> w \<Longrightarrow> mailboxes (enqueue_message user w msg s) a = mailboxes s a"
proof -
  show "mailboxes (enqueue_message user w msg s) a = mailboxes s a" if "a \<noteq> w"
    using send_accepted(1) [OF assms, of s w _ False msg] send_rejected(1) [OF assms, of s w _ False msg] that
    by (cases "accepting s w") (simp_all add: send_def)
  have upd: "frame s (upd_actor w (\<lambda>A. A\<lparr>m_mailbox := mb\<rparr>) s)" for mb by (rule frame_upd) simp_all
  have hwm: "frame t (upd_actor w (update_high_water_marks x y) t)" for t x y
    by (rule frame_upd) (simp_all add: update_high_water_marks_def)
  have sched: "frame t (schedule w t)" for t by (simp add: frame_def schedule_def Let_def)
  note drop = frame_drop(1) [OF assms]
  note chain = frame_trans [OF frame_trans [OF upd hwm] frame_threshold [OF assms]]
  show "frame s (enqueue_message user w msg s)"
    unfolding enqueue_message_def
    using drop frame_trans [OF upd drop] chain frame_trans [OF chain sched]
    by (simp add: case_prod_beta Let_def)
qed

lemma discard_mailbox_returns:
  assumes obs: "callbacks_observe user" and inv: "mailbox_inv (mailboxes s a)"
  shows "\<exists>s'. discard_mailbox user a s = Some s' \<and> queued (mailboxes s' a) = [] \<and> mailbox_inv (mailboxes s' a) \<and> frame s s'"
  using inv
proof (induction "queued (mailboxes s a)" arbitrary: s)
  case Nil
  note p = mailbox_queue.pop_Nil [OF Nil.prems Nil.hyps [symmetric]] mailbox_queue.pop_invar [OF Nil.prems]
  have upd: "frame s (upd_actor a (\<lambda>A. A\<lparr>m_mailbox := mb\<rparr>) s)" for mb by (rule frame_upd) simp_all
  from p show ?case
    by (subst discard_mailbox.simps)
      (cases "mailbox_pop (mailboxes s a)"; auto simp: mailboxes_def upd_actor_def intro: upd [unfolded upd_actor_def])
next
  case (Cons m ms)
  note p = mailbox_queue.pop_Cons [OF Cons.prems Cons.hyps(2) [symmetric]] mailbox_queue.pop_invar [OF Cons.prems]
  obtain mb where mb: "mailbox_pop (mailboxes s a) = (Some m, mb)" "queued mb = ms" "mailbox_inv mb"
    using p by (cases "mailbox_pop (mailboxes s a)") auto
  let ?s1 = "upd_actor a (\<lambda>A. A\<lparr>m_mailbox := mb\<rparr>) s"
  let ?s2 = "discard_one user a m ?s1"
  have upd: "frame s ?s1" by (rule frame_upd) simp_all
  have "mailboxes ?s2 a = mb"
    using frame_discard_one(2) [OF obs, of a m ?s1] by (simp add: mailboxes_def upd_actor_def)
  with Cons.hyps(1) [of ?s2] mb obtain s' where s': "discard_mailbox user a ?s2 = Some s'"
    "queued (mailboxes s' a) = []" "mailbox_inv (mailboxes s' a)" "frame ?s2 s'" by auto
  moreover have "frame s s'"
    by (rule frame_trans [OF frame_trans [OF upd frame_discard_one(1) [OF obs]] s'(4)])
  moreover have "discard_mailbox user a s = discard_mailbox user a ?s2"
    using mb(1) by (subst discard_mailbox.simps) (simp add: mailboxes_def)
  ultimately show ?case by auto
qed

lemma drop_held_frame:
  assumes "callbacks_observe user"
  shows "frame s (drop_held user a s)" "mailboxes (drop_held user a s) = mailboxes s"
proof -
  have fold_held: "frame s (fold (\<lambda>msg. report_rejected user a msg False) ms s)
      \<and> mailboxes (fold (\<lambda>msg. report_rejected user a msg False) ms s) = mailboxes s" for ms
  proof (induction ms arbitrary: s)
    case (Cons m ms)
    from Cons.IH [of "report_rejected user a m False s"] frame_rejected [OF assms, where a = a and msg = m and c = False and s = s] show ?case
      by (auto intro: frame_trans)
  qed (simp add: frame_refl)
  have upd: "frame t (upd_actor a (\<lambda>A. A\<lparr>m_stash := snd (stash_drop_held (m_stash A))\<rparr>) t)" for t
    by (rule frame_upd) simp_all
  show "frame s (drop_held user a s)"
    unfolding drop_held_def Let_def by (rule frame_trans [OF conjunct1 [OF fold_held] upd])
  show "mailboxes (drop_held user a s) = mailboxes s"
    using fold_held by (simp add: drop_held_def Let_def mailboxes_def upd_actor_def fun_eq_iff)
qed

lemma discard_pending_returns:
  assumes obs: "callbacks_observe user" and inv: "mailbox_inv (mailboxes s a)"
  shows "\<exists>s'. discard_pending_messages user a s = Some s' \<and> mailbox_inv (mailboxes s' a) \<and> frame s s'"
proof -
  obtain s1 where s1: "discard_mailbox user a s = Some s1" "mailbox_inv (mailboxes s1 a)" "frame s s1"
    using discard_mailbox_returns [OF assms] by blast
  have "frame s (drop_held user a s1)" "mailbox_inv (mailboxes (drop_held user a s1) a)"
    using frame_trans [OF s1(3) drop_held_frame(1) [OF obs]] drop_held_frame(2) [OF obs, of a s1] s1(2) by simp_all
  with s1 show ?thesis by (simp add: discard_pending_messages_def)
qed

lemma close_mailbox_effect:
  assumes "callbacks_observe user" "mailbox_inv (mailboxes s a)"
  shows "frame s (close_mailbox user a st skip s)"
    "mailbox_closed (mailboxes (close_mailbox user a st skip s) a)" "queued (mailboxes (close_mailbox user a st skip s) a) = []"
proof -
  obtain dropped mb where c: "mailbox_close (m_mailbox (s_actors s a)) = (dropped, mb)"
    by (cases "mailbox_close (m_mailbox (s_actors s a))") auto
  let ?s1 = "upd_actor a (\<lambda>A. A\<lparr>m_mailbox := mb\<rparr>) s"
  let ?f = "\<lambda>msg s. destroy_message msg (if skip \<and> cas_framework_kind msg = FK_shutdown then s
      else (let (n, s2) = actor_name a s in report_dead_letter user n msg st (is_call msg) s2))"
  have step: "frame t (?f m t) \<and> mailboxes (?f m t) = mailboxes t" for m t
    using frame_trans [OF frame_trans [OF frame_actor_name frame_report(1) [OF assms(1)]] frame_destroy] frame_destroy
      frame_report(2) [OF assms(1)] actor_name_frame(1) [of a t]
    by (simp add: case_prod_beta Let_def destroy_message_frame)
  have fold_step: "frame t (fold ?f ms t) \<and> mailboxes (fold ?f ms t) = mailboxes t" for ms t
  proof (induction ms arbitrary: t)
    case (Cons m ms)
    from Cons.IH [of "?f m t"] step [of t m] show ?case by (auto intro: frame_trans)
  qed (simp add: frame_refl)
  have close: "close_mailbox user a st skip s = fold ?f dropped ?s1"
    by (simp add: close_mailbox_def c)
  have upd: "frame s ?s1" by (rule frame_upd) simp_all
  show "frame s (close_mailbox user a st skip s)"
    unfolding close using fold_step frame_trans [OF upd] by blast
  have "mailboxes (close_mailbox user a st skip s) a = mb"
    unfolding close using fold_step [of ?s1 dropped] by (simp add: mailboxes_def upd_actor_def)
  moreover have "mailbox_closed mb" "queued mb = []"
    using mailbox_close_state [of "m_mailbox (s_actors s a)"] c by (simp_all add: mailbox_closed_def lane_defs)
  ultimately show "mailbox_closed (mailboxes (close_mailbox user a st skip s) a)"
    "queued (mailboxes (close_mailbox user a st skip s) a) = []" by simp_all
qed

text \<open>Hooks of a stopping actor: they may do anything but change what is private to the framework.\<close>

definition hooks_respect :: "user_code \<Rightarrow> actor_ptr \<Rightarrow> bool" where
  "hooks_respect user a \<longleftrightarrow>
     (\<forall>hook \<in> {uc_on_shutdown user a, uc_on_stop user a}. \<forall>s. m_state (s_actors s a) \<noteq> AS_running \<longrightarrow>
        m_state (s_actors (snd (hook s)) a) = m_state (s_actors s a) \<and> mailboxes (snd (hook s)) a = mailboxes s a
      \<and> m_instance_id (s_actors (snd (hook s)) a) = m_instance_id (s_actors s a)
      \<and> (\<forall>b. a_kind (s_actors (snd (hook s)) b) = a_kind (s_actors s b)))"

lemma frame_report_exception:
  assumes "callbacks_observe user"
  shows "frame s (report_actor_exception user a t mid src e act s)"
    "mailboxes (report_actor_exception user a t mid src e act s) = mailboxes s"
  unfolding report_actor_exception_def
  using frame_trans [OF frame_actor_name frame_quiet [OF report_exception_quiet [OF assms]]]
    mailboxes_quiet [OF report_exception_quiet [OF assms]] actor_name_frame(1) [of a s]
  by (simp_all add: case_prod_beta Let_def)

lemma run_stop_hook_effect:
  assumes obs: "callbacks_observe user" and hooks: "hooks_respect user a" and st: "m_state (s_actors s a) \<noteq> AS_running"
  shows "m_state (s_actors (run_stop_hook user tid a hook s) a) = m_state (s_actors s a)"
    "mailboxes (run_stop_hook user tid a hook s) a = mailboxes s a"
    "m_instance_id (s_actors (run_stop_hook user tid a hook s) a) = m_instance_id (s_actors s a)"
    "a_kind (s_actors (run_stop_hook user tid a hook s) b) = a_kind (s_actors s b)"
proof -
  let ?hook = "if hook = SH_on_shutdown then uc_on_shutdown user a else uc_on_stop user a"
  let ?s1 = "set_context tid (Some a) s"
  obtain r s2 where r: "?hook ?s1 = (r, s2)" by (cases "?hook ?s1") auto
  have "m_state (s_actors ?s1 a) \<noteq> AS_running" using st by (simp add: set_context_def)
  moreover have "?hook \<in> {uc_on_shutdown user a, uc_on_stop user a}" by simp
  ultimately have "m_state (s_actors (snd (?hook ?s1)) a) = m_state (s_actors ?s1 a)
      \<and> mailboxes (snd (?hook ?s1)) a = mailboxes ?s1 a
      \<and> m_instance_id (s_actors (snd (?hook ?s1)) a) = m_instance_id (s_actors ?s1 a)
      \<and> (\<forall>b. a_kind (s_actors (snd (?hook ?s1)) b) = a_kind (s_actors ?s1 b))"
    using hooks unfolding hooks_respect_def by blast
  then have h: "m_state (s_actors s2 a) = m_state (s_actors s a)" "mailboxes s2 a = mailboxes s a"
    "m_instance_id (s_actors s2 a) = m_instance_id (s_actors s a)" "a_kind (s_actors s2 c) = a_kind (s_actors s c)" for c
    unfolding r by (simp_all add: set_context_def mailboxes_def)
  let ?s3 = "case r of None \<Rightarrow> s2
    | Some e \<Rightarrow> report_actor_exception user a TI_void 0 (if hook = SH_on_shutdown then ''on_shutdown'' else ''on_stop'') e EA_resume s2"
  have s3: "frame s2 ?s3" "mailboxes ?s3 = mailboxes s2"
    using frame_report_exception [OF obs] by (auto simp: frame_refl split: option.split)
  have "run_stop_hook user tid a hook s = set_context tid (current_actor_context s tid) ?s3"
    using r by (cases "hook = SH_on_shutdown") (simp_all add: run_stop_hook_def Let_def)
  with h s3 show "m_state (s_actors (run_stop_hook user tid a hook s) a) = m_state (s_actors s a)"
    "mailboxes (run_stop_hook user tid a hook s) a = mailboxes s a"
    "m_instance_id (s_actors (run_stop_hook user tid a hook s) a) = m_instance_id (s_actors s a)"
    "a_kind (s_actors (run_stop_hook user tid a hook s) b) = a_kind (s_actors s b)"
    by (simp_all add: set_context_def frame_def mailboxes_def fun_eq_iff)
qed

lemma notify_returns:
  assumes obs: "callbacks_observe user" and fw: "fw = framework_of user clk (Suc depth)"
    and st: "m_state (s_actors s a) \<noteq> AS_running" and kinds: "\<And>b. \<not> runs_inline (s_actors s b)"
  shows "\<exists>s'. notify_all_watchers fw user tid a ws s = Some s' \<and> frame s s' \<and> mailboxes s' a = mailboxes s a"
  using st kinds
proof (induction ws arbitrary: s)
  case Nil
  then show ?case by (simp add: frame_refl)
next
  case (Cons w ws)
  have step: ?case if fr: "frame s t" "mailboxes t a = mailboxes s a"
    and eq: "notify_all_watchers fw user tid a (w # ws) s = notify_all_watchers fw user tid a ws t" for t
  proof -
    have "m_state (s_actors t a) \<noteq> AS_running" "\<not> runs_inline (s_actors t b)" for b
      using fr(1) Cons.prems by (simp_all add: frame_def runs_inline_def)
    from Cons.IH [OF this] fr eq show ?thesis by (auto intro: frame_trans)
  qed
  show ?case
  proof (cases "m_state (s_actors s w) = AS_running")
    case False
    then show ?thesis by (intro step [OF frame_refl refl]) simp
  next
    case True
    then have wa: "a \<noteq> w" using Cons.prems(1) by auto
    let ?s1 = "snd (actor_name a s)" and ?m = "termination_message a (fst (actor_name a s)) (snd (actor_name a s))"
    have f1: "frame s ?s1" "mailboxes ?s1 = mailboxes s" using frame_actor_name actor_name_frame(1) by auto
    show ?thesis
    proof (cases "self_ref tid ?s1")
      case (Inl e)
      let ?t = "report_actor_exception user w TI_termination_msg 0 ''handler'' e EA_resume ?s1"
      have "frame s ?t" "mailboxes ?t = mailboxes s"
        using frame_trans [OF f1(1)] frame_report_exception [OF obs, where s = ?s1 and a = w] f1(2) by auto
      then show ?thesis
        by (intro step [of ?t]) (use True Inl in \<open>auto simp: tell_def case_prod_beta Let_def\<close>)
    next
      case (Inr who)
      let ?s2 = "snd (next_message_id ?s1)"
      let ?msg = "?m\<lparr>sender := (if who = None then sender ?m else who), message_id := fst (next_message_id ?s1)\<rparr>"
      let ?t = "enqueue_message user w ?msg ?s2"
      have f2: "frame ?s1 ?s2" "mailboxes ?s2 = mailboxes ?s1"
        by (simp_all add: next_message_id_def frame_def mailboxes_def fun_eq_iff)
      have ni: "\<not> runs_inline (s_actors ?s2 w)"
        using Cons.prems(2) f1(1) f2(1) by (simp add: frame_def runs_inline_def)
      have "frame s ?t" "mailboxes ?t a = mailboxes s a"
        using frame_trans [OF frame_trans [OF f1(1) f2(1)] frame_enqueue(1) [OF obs]]
          frame_enqueue(2) [OF obs wa, of ?msg ?s2] f1(2) f2(2) by simp_all
      then show ?thesis
        by (intro step [of ?t])
          (use True Inr ni in \<open>auto simp: tell_def case_prod_beta Let_def fw actor_enqueue_def\<close>)
    qed
  qed
qed


lemma end_watches_returns:
  assumes "callbacks_observe user" "fw = framework_of user clk (Suc depth)"
    "m_state (s_actors s a) \<noteq> AS_running" "\<And>b. \<not> runs_inline (s_actors s b)"
  shows "\<exists>s'. end_watches fw user tid a notify s = Some s'
    \<and> m_watchers s' (m_instance_id (s_actors s' a)) = [] \<and> m_watching s' (m_instance_id (s_actors s' a)) = []
    \<and> frame (snd (remove_watches (m_instance_id (s_actors s a)) s)) s' \<and> mailboxes s' a = mailboxes s a"
proof -
  obtain ws s1 where r: "remove_watches (m_instance_id (s_actors s a)) s = (ws, s1)" by (cases "remove_watches (m_instance_id (s_actors s a)) s") auto
  have s1: "s_actors s1 = s_actors s" "m_watchers s1 (m_instance_id (s_actors s a)) = []"
    "m_watching s1 (m_instance_id (s_actors s a)) = []"
    using r by (auto simp: remove_watches_def Let_def fold_delete_upd)
  obtain s2 where s2: "notify_all_watchers fw user tid a ws s1 = Some s2" "frame s1 s2" "mailboxes s2 a = mailboxes s1 a"
    using notify_returns [OF assms(1,2), of s1 a] assms(3,4) s1(1) by metis
  have "m_instance_id (s_actors t a) = m_instance_id (s_actors s a) \<and> m_watchers t = m_watchers s1 \<and> m_watching t = m_watching s1"
    if "frame s1 t" for t
    using that s1(1) by (simp add: frame_def)
  from this [OF s2(2)] this [OF frame_refl] s1 s2 r show ?thesis
    by (cases notify) (simp_all add: end_watches_def frame_refl mailboxes_def)
qed


lemma cancel_actor_timers_keeps:
  "m_active_timers (s_actors (cancel_actor_timers a s) a) = {}"
  "m_state (s_actors (cancel_actor_timers a s) b) = m_state (s_actors s b)"
  "m_instance_id (s_actors (cancel_actor_timers a s) b) = m_instance_id (s_actors s b)"
  "a_kind (s_actors (cancel_actor_timers a s) b) = a_kind (s_actors s b)"
  "mailboxes (cancel_actor_timers a s) = mailboxes s"
proof -
  have "s_actors (fold cancel_timer_internal ts s) = s_actors s" for ts
    by (induction ts arbitrary: s) (simp_all add: cancel_timer_internal_def)
  then show "m_active_timers (s_actors (cancel_actor_timers a s) a) = {}"
    "m_state (s_actors (cancel_actor_timers a s) b) = m_state (s_actors s b)"
    "m_instance_id (s_actors (cancel_actor_timers a s) b) = m_instance_id (s_actors s b)"
    "a_kind (s_actors (cancel_actor_timers a s) b) = a_kind (s_actors s b)"
    "mailboxes (cancel_actor_timers a s) = mailboxes s"
    by (simp_all add: cancel_actor_timers_def upd_actor_def mailboxes_def fun_eq_iff)
qed

lemma unregister_own_name_effect:
  fixes s a
  defines "s' \<equiv> unregister_own_name a s"
  shows "m_name (s_actors s' a) \<noteq> None"
    "m_name (s_actors s' a) = Some n \<Longrightarrow> n \<noteq> [] \<Longrightarrow> visible (s_alive s') (s_registry s') n \<noteq> Some a"
    "m_state (s_actors s' b) = m_state (s_actors s b)" "m_active_timers (s_actors s' b) = m_active_timers (s_actors s b)"
    "a_kind (s_actors s' b) = a_kind (s_actors s b)" "mailboxes s' = mailboxes s"
proof -
  let ?n = "fst (actor_name a s)" and ?s1 = "snd (actor_name a s)"
  have name: "m_name (s_actors ?s1 a) = Some ?n"
    by (auto simp: actor_name_def assign_default_name_def publish_name_def upd_actor_def Let_def split: option.split)
  have fr: "frame s ?s1" "mailboxes ?s1 = mailboxes s" by (rule frame_actor_name, rule actor_name_frame)
  have s': "s' = (if ?n \<noteq> [] then ?s1\<lparr>s_registry := registry_unregister (s_alive ?s1) ?n a (s_registry ?s1)\<rparr> else ?s1)"
    by (simp add: s'_def unregister_own_name_def case_prod_beta)
  show "m_name (s_actors s' a) \<noteq> None" using name s' by simp
  show "visible (s_alive s') (s_registry s') n \<noteq> Some a" if "m_name (s_actors s' a) = Some n" "n \<noteq> []"
    using that name s' by (auto simp: registry.view_unregister)
  show "m_state (s_actors s' b) = m_state (s_actors s b)" "m_active_timers (s_actors s' b) = m_active_timers (s_actors s b)"
    "a_kind (s_actors s' b) = a_kind (s_actors s b)" "mailboxes s' = mailboxes s"
    using fr s' by (simp_all add: frame_def mailboxes_def fun_eq_iff)
qed

lemma finish_stop_cleared:
  assumes obs: "callbacks_observe user" and hooks: "hooks_respect user a"
    and st: "m_state (s_actors s a) \<noteq> AS_running" and inv: "mailbox_inv (mailboxes s a)"
  shows "\<exists>s3. discard_pending_messages user a
        (cancel_actor_timers a (run_stop_hook user tid a SH_on_stop (run_stop_hook user tid a SH_on_shutdown s))) = Some s3
    \<and> m_state (s_actors s3 a) = m_state (s_actors s a) \<and> m_active_timers (s_actors s3 a) = {}
    \<and> mailbox_inv (mailboxes s3 a) \<and> (\<forall>b. a_kind (s_actors s3 b) = a_kind (s_actors s b))"
proof -
  let ?s0 = "run_stop_hook user tid a SH_on_shutdown s"
  let ?s1 = "run_stop_hook user tid a SH_on_stop ?s0"
  let ?s2 = "cancel_actor_timers a ?s1"
  note h0 = run_stop_hook_effect [OF obs hooks st, where tid = tid and hook = SH_on_shutdown]
  have st0: "m_state (s_actors ?s0 a) \<noteq> AS_running" using h0(1) st by simp
  note h1 = run_stop_hook_effect [OF obs hooks st0, where tid = tid and hook = SH_on_stop]
  have "mailbox_inv (mailboxes ?s2 a)" using inv h0(2) h1(2) by (simp add: cancel_actor_timers_keeps)
  from discard_pending_returns [OF obs this] obtain s3 where s3: "discard_pending_messages user a ?s2 = Some s3"
    "mailbox_inv (mailboxes s3 a)" "frame ?s2 s3" by blast
  have "m_state (s_actors s3 a) = m_state (s_actors s a)" "m_active_timers (s_actors s3 a) = {}"
    "a_kind (s_actors s3 b) = a_kind (s_actors s b)" for b
    using s3(3) h0(1,4) h1(1,4) by (simp_all add: frame_def cancel_actor_timers_keeps)
  with s3(1,2) show ?thesis by blast
qed

lemma finish_stop_returns:
  assumes obs: "callbacks_observe user" and hooks: "hooks_respect user a" and fw: "fw = framework_of user clk (Suc depth)"
    and st: "m_state (s_actors s a) \<noteq> AS_running" and kinds: "\<And>b. \<not> runs_inline (s_actors s b)"
    and inv: "mailbox_inv (mailboxes s a)"
  shows "\<exists>s'. finish_stop fw user tid a s = Some s' \<and> m_state (s_actors s' a) = AS_stopped
    \<and> mailbox_closed (mailboxes s' a) \<and> queued (mailboxes s' a) = [] \<and> m_active_timers (s_actors s' a) = {}
    \<and> m_watchers s' (m_instance_id (s_actors s' a)) = [] \<and> m_watching s' (m_instance_id (s_actors s' a)) = []
    \<and> (\<forall>n. m_name (s_actors s' a) = Some n \<and> n \<noteq> [] \<longrightarrow> visible (s_alive s') (s_registry s') n \<noteq> Some a)"
proof -
  obtain s3 where s3: "discard_pending_messages user a (cancel_actor_timers a (run_stop_hook user tid a SH_on_stop
      (run_stop_hook user tid a SH_on_shutdown s))) = Some s3" "m_state (s_actors s3 a) = m_state (s_actors s a)"
    "m_active_timers (s_actors s3 a) = {}" "mailbox_inv (mailboxes s3 a)" "\<And>b. a_kind (s_actors s3 b) = a_kind (s_actors s b)"
    using finish_stop_cleared [OF obs hooks st inv] by blast
  let ?c = "close_mailbox user a AS_stopping True s3"
  let ?s4 = "unregister_own_name a ?c"
  let ?s4' = "snd (remove_watches (m_instance_id (s_actors ?s4 a)) ?s4)"
  note c = close_mailbox_effect [OF obs s3(4), where st = AS_stopping and skip = True]
  note u = unregister_own_name_effect [of a ?c]
  have s4: "m_state (s_actors ?s4 a) = m_state (s_actors s a)" "m_active_timers (s_actors ?s4 a) = {}"
    "a_kind (s_actors ?s4 b) = a_kind (s_actors s b)" for b
    using c(1) s3(2,3,5) u(3-5) by (simp_all add: frame_def)
  have "m_state (s_actors ?s4 a) \<noteq> AS_running" "\<not> runs_inline (s_actors ?s4 b)" for b
    using s4(1) st kinds [of b] runs_inline_cong [OF s4(3), of b] by simp_all
  from end_watches_returns [OF obs fw this, where tid = tid and notify = "m_stop_notify_watchers (s_actors ?s4 a)"]
  obtain s5 where s5: "end_watches fw user tid a (m_stop_notify_watchers (s_actors ?s4 a)) ?s4 = Some s5"
    "m_watchers s5 (m_instance_id (s_actors s5 a)) = []" "m_watching s5 (m_instance_id (s_actors s5 a)) = []"
    "frame ?s4' s5" "mailboxes s5 a = mailboxes ?s4 a" by blast
  have r: "s_actors ?s4' = s_actors ?s4" "s_registry ?s4' = s_registry ?s4" "s_alive ?s4' = s_alive ?s4"
    by (simp_all add: remove_watches_def Let_def)
  let ?s6 = "upd_actor a (\<lambda>A. A\<lparr>m_state := AS_stopped\<rparr>) (unlist_actor a s5)"
  have un: "s_actors (unlist_actor a s5) = s_actors s5" "m_watchers (unlist_actor a s5) = m_watchers s5"
    "m_watching (unlist_actor a s5) = m_watching s5" "s_registry (unlist_actor a s5) = s_registry s5"
    "s_alive (unlist_actor a s5) = s_alive s5"
    by (simp_all add: unlist_actor_def Let_def)
  have "finish_stop fw user tid a s = Some ?s6"
    using s3(1) s5(1) by (simp add: finish_stop_def Let_def)
  moreover have "m_active_timers (s_actors ?s6 a) = {}" "m_name (s_actors ?s6 a) = m_name (s_actors ?s4 a)"
    "s_alive ?s6 = s_alive ?s4" "s_registry ?s6 = s_registry ?s4" "mailboxes ?s6 a = mailboxes ?c a"
    using s5(4,5) r s4(2) u(1,6) un by (simp_all add: frame_def upd_actor_def mailboxes_def)
  moreover have "m_watchers ?s6 (m_instance_id (s_actors ?s6 a)) = []" "m_watching ?s6 (m_instance_id (s_actors ?s6 a)) = []"
    "m_state (s_actors ?s6 a) = AS_stopped"
    using s5(2,3) un by (simp_all add: upd_actor_def)
  ultimately show ?thesis using c(2,3) u(2) by (intro exI [of _ ?s6]) simp
qed


lemma claim_keeps:
  fixes s a tid
  defines "s1 \<equiv> cancel_actor_timers a (upd_actor a (\<lambda>A. A\<lparr>m_stop_executor := Some tid\<rparr>) s)"
  shows "m_state (s_actors s1 a) = m_state (s_actors s a)" "mailboxes s1 = mailboxes s"
    "a_kind (s_actors s1 b) = a_kind (s_actors s b)" "m_stop_discard (s_actors s1 a) = m_stop_discard (s_actors s a)"
    "m_stop_drain_deadline (s_actors s1 a) = m_stop_drain_deadline (s_actors s a)"
    "has_messages (s_actors s1 a) = has_messages (s_actors s a)" "m_stop_executor (s_actors s1 a) = Some tid"
    "m_stash (s_actors s1 a) = m_stash (s_actors s a)"
proof -
  have f: "s_actors (fold cancel_timer_internal ts t) = s_actors t" for ts t
    by (induction ts arbitrary: t) (simp_all add: cancel_timer_internal_def)
  show "m_state (s_actors s1 a) = m_state (s_actors s a)" "mailboxes s1 = mailboxes s"
    "a_kind (s_actors s1 b) = a_kind (s_actors s b)" "m_stop_discard (s_actors s1 a) = m_stop_discard (s_actors s a)"
    "m_stop_drain_deadline (s_actors s1 a) = m_stop_drain_deadline (s_actors s a)"
    "has_messages (s_actors s1 a) = has_messages (s_actors s a)" "m_stop_executor (s_actors s1 a) = Some tid"
    "m_stash (s_actors s1 a) = m_stash (s_actors s a)"
    by (simp_all add: s1_def cancel_actor_timers_def f upd_actor_def mailboxes_def fun_eq_iff has_messages_def
        runs_inline_def is_stateful_def)
qed

lemma service_stop_claimed:
  assumes obs: "callbacks_observe user" and st: "m_state (s_actors s a) = AS_stopping"
    and inv: "mailbox_inv (mailboxes s a)" and own: "m_stop_executor (s_actors s a) \<in> {None, Some tid}"
    and over: "m_stop_discard (s_actors s a) \<or> \<not> has_messages (s_actors s a) \<or> m_stop_drain_deadline (s_actors s a) \<le> now"
  shows "\<exists>s2. service_stop fw user tid now a s = map_option (\<lambda>s3. (True, s3)) (finish_stop fw user tid a s2)
    \<and> m_state (s_actors s2 a) = AS_stopping \<and> mailbox_inv (mailboxes s2 a) \<and> (\<forall>b. a_kind (s_actors s2 b) = a_kind (s_actors s b))"
proof (cases "m_stop_executor (s_actors s a)")
  case (Some e)
  with own over st inv show ?thesis by (intro exI [of _ s]) (auto simp: service_stop_def Let_def)
next
  case None
  let ?s1 = "cancel_actor_timers a (upd_actor a (\<lambda>A. A\<lparr>m_stop_executor := Some tid\<rparr>) s)"
  note k = claim_keeps [of a tid s]
  show ?thesis
  proof (cases "m_stop_discard (s_actors s a)")
    case False
    with None st over inv k show ?thesis
      by (intro exI [of _ ?s1]) (auto simp: service_stop_def Let_def)
  next
    case True
    have "mailbox_inv (mailboxes ?s1 a)" using inv by (simp only: k(2))
    from discard_pending_returns [OF obs this] obtain s2 where s2: "discard_pending_messages user a ?s1 = Some s2"
      "mailbox_inv (mailboxes s2 a)" "frame ?s1 s2" by blast
    moreover have "m_stop_discard (s_actors s2 a)"
      using s2(3) k(4) True by (simp add: frame_def)
    ultimately show ?thesis using None True st k(1,3,4)
      by (intro exI [of _ s2]) (auto simp: service_stop_def Let_def frame_def)
  qed
qed

section \<open>Properties\<close>


text \<open>
  Property C14. Every call is answered: processing a call request settles its promise, with the registered
  handler's value or exception when the handler was registered for exactly the types of the call,
  and otherwise with an error and without running any handler.
\<close>

theorem call_is_answered:
  "(m_call_handlers (s_actors s a) (op_type c) = None \<longrightarrow>
      call_process user a c s =
        settle (promise_id c) (Failed (Std_exn K_runtime_error ''No call handler registered for operation'')) s)
   \<and> (m_call_handlers (s_actors s a) (op_type c) = Some entry
        \<and> (entry_result_type entry \<noteq> ret_type c \<or> entry_args_type entry \<noteq> args_type c) \<longrightarrow>
      (\<exists>w. call_process user a c s = settle (promise_id c) (Failed (Std_exn K_call_type_error w)) s))
   \<and> (m_call_handlers (s_actors s a) (op_type c) = Some entry
        \<and> entry_result_type entry = ret_type c \<and> entry_args_type entry = args_type c \<longrightarrow>
      s_promises (call_process user a c s) (promise_id c) =
        (case fst (uc_call_handler user (entry_invoke entry) a (call_args c) s) of
           Inr v \<Rightarrow> Fulfilled v | Inl e \<Rightarrow> Failed e))
   \<and> s_promises (call_process user a c s) (promise_id c) \<notin> {Pending, Broken}"
proof (intro conjI impI)
  assume "m_call_handlers (s_actors s a) (op_type c) = Some entry
    \<and> (entry_result_type entry \<noteq> ret_type c \<or> entry_args_type entry \<noteq> args_type c)"
  then show "\<exists>w. call_process user a c s = settle (promise_id c) (Failed (Std_exn K_call_type_error w)) s"
    by (cases "entry_result_type entry = ret_type c") (simp add: call_process_def, blast)+
next
  assume "m_call_handlers (s_actors s a) (op_type c) = Some entry
    \<and> entry_result_type entry = ret_type c \<and> entry_args_type entry = args_type c"
  then show "s_promises (call_process user a c s) (promise_id c) =
      (case fst (uc_call_handler user (entry_invoke entry) a (call_args c) s) of Inr v \<Rightarrow> Fulfilled v | Inl e \<Rightarrow> Failed e)"
    by (simp add: call_process_def settle_def split: sum.split prod.split)
next
  have settled: "s_promises (settle p st t) p = st" for p st t by (simp add: settle_def)
  show "s_promises (call_process user a c s) (promise_id c) \<notin> {Pending, Broken}"
    unfolding call_process_def
    by (cases "m_call_handlers (s_actors s a) (op_type c)") (simp_all add: settled split: sum.split prod.split)
qed (simp add: call_process_def)

text \<open>
  Fact. \<open>on_start\<close> runs exactly once (INVARIANT 6): the first call of \<open>run_on_start\<close> runs the hook, with
  the actor as current context and marked as initialising, and afterwards restores the context and
  clears the mark whether the hook threw or not; any later call runs nothing and changes nothing.
\<close>

theorem on_start_runs_once:
  assumes "started_private user" "\<not> m_started (s_actors s a)" "run_on_start user tid a s = (r, s')"
  shows "(\<exists>s1. m_in_on_start (s_actors s1 a) \<and> current_actor_context s1 tid = Some a \<and>
       r = (case fst (uc_on_start user a s1) of None \<Rightarrow> Inr True | Some e \<Rightarrow> Inl e))
    \<and> current_actor_context s' tid = current_actor_context s tid \<and> \<not> m_in_on_start (s_actors s' a)
    \<and> m_started (s_actors s' a) \<and> run_on_start user tid' a s' = (Inr False, s')"
proof -
  define s1 where "s1 = upd_actor a (\<lambda>A. A\<lparr>m_in_on_start := True\<rparr>)
    (set_context tid (Some a) (upd_actor a (\<lambda>A. A\<lparr>m_started := True\<rparr>) s))"
  have s1: "m_started (s_actors s1 a)" "m_in_on_start (s_actors s1 a)" "current_actor_context s1 tid = Some a"
    by (simp_all add: s1_def upd_actor_def set_context_def)
  obtain r1 s3 where u: "uc_on_start user a s1 = (r1, s3)" by (cases "uc_on_start user a s1") auto
  have "m_started (s_actors s3 a)"
    using assms(1) s1(1) u by (metis snd_conv started_private_def)
  moreover have "run_on_start user tid a s = (case r1 of None \<Rightarrow> Inr True | Some e \<Rightarrow> Inl e,
      set_context tid (current_actor_context s tid) (upd_actor a (\<lambda>A. A\<lparr>m_in_on_start := False\<rparr>) s3))"
    unfolding run_on_start_def Let_def s1_def [symmetric] u using assms(2) by (simp add: upd_actor_def)
  ultimately have m: "m_started (s_actors s' a)" and rs: "r = (case r1 of None \<Rightarrow> Inr True | Some e \<Rightarrow> Inl e)"
    "current_actor_context s' tid = current_actor_context s tid" "\<not> m_in_on_start (s_actors s' a)"
    using assms(3) by (auto simp: upd_actor_def set_context_def)
  have "run_on_start user tid' a s' = (Inr False, s')" by (simp add: run_on_start_def m)
  with m rs s1 u show ?thesis by auto
qed



text \<open>
  Property C13. A stop leaves nothing behind: once a thread services the stop of an actor, and the stop is
  in discard mode, the actor has no messages left or its drain deadline has passed, the stop
  returns and reports itself complete; the actor is then stopped, its mailbox is closed and empty,
  none of its timers is tracked, it neither watches nor is watched, and the registry no longer
  shows it under its name. Hooks may do what hooks can do, the callbacks only observe, and no
  actor is inline.
\<close>

theorem stop_completes:
  assumes "callbacks_observe user" "hooks_respect user a" "fw = framework_of user clk (Suc depth)"
    "m_state (s_actors s a) = AS_stopping" "\<And>b. \<not> runs_inline (s_actors s b)" "mailbox_inv (mailboxes s a)"
    "m_stop_executor (s_actors s a) \<in> {None, Some tid}"
    "m_stop_discard (s_actors s a) \<or> \<not> has_messages (s_actors s a) \<or> m_stop_drain_deadline (s_actors s a) \<le> now"
  shows "\<exists>s'. service_stop fw user tid now a s = Some (True, s') \<and> m_state (s_actors s' a) = AS_stopped
    \<and> mailbox_closed (mailboxes s' a) \<and> queued (mailboxes s' a) = [] \<and> m_active_timers (s_actors s' a) = {}
    \<and> m_watchers s' (m_instance_id (s_actors s' a)) = [] \<and> m_watching s' (m_instance_id (s_actors s' a)) = []
    \<and> (\<forall>n. m_name (s_actors s' a) = Some n \<and> n \<noteq> [] \<longrightarrow> fst (registry_get (s_alive s') n (s_registry s')) \<noteq> Some a)"
proof -
  obtain s2 where s2: "service_stop fw user tid now a s = map_option (\<lambda>s3. (True, s3)) (finish_stop fw user tid a s2)"
    "m_state (s_actors s2 a) = AS_stopping" "mailbox_inv (mailboxes s2 a)" "\<And>b. a_kind (s_actors s2 b) = a_kind (s_actors s b)"
    using service_stop_claimed [OF assms(1,4,6-8)] by blast
  have "m_state (s_actors s2 a) \<noteq> AS_running" "\<not> runs_inline (s_actors s2 b)" for b
    using s2(2) assms(5) [of b] runs_inline_cong [OF s2(4), of b] by simp_all
  from finish_stop_returns [OF assms(1-3) this s2(3), of tid] s2(1) show ?thesis
    by (auto simp: registry.get_result)
qed

text \<open>
  Property C29. A stop is requested at most once and serviced by one thread: \<open>stop_actor\<close> on a running actor
  with no stop under way marks it as stopping with the deadline the configuration asks for, a
  second \<open>stop_actor\<close> is then refused and changes nothing, a thread other than the one that claimed
  the stop leaves it alone, and in drain mode the claiming thread keeps every message while there
  are messages and time.
\<close>

theorem stop_requested_once:
  "(m_state (s_actors s a) = AS_running \<and> m_stop_phase (s_actors s a) = SP_none \<and> m_workers_active s \<longrightarrow>
      (\<exists>r s'. stop_actor fw tid now (Some a) cfg s = Some (r, s') \<and> r \<noteq> Stop_refused
        \<and> m_state (s_actors s' a) = AS_stopping \<and> m_stop_phase (s_actors s' a) = SP_requested
        \<and> m_stop_drain_deadline (s_actors s' a) = now + drain_timeout cfg
        \<and> stop_actor fw tid' now' (Some a) cfg' s' = Some (Stop_refused, s')))
   \<and> (m_stop_executor (s_actors s a) = Some e \<and> e \<noteq> tid \<longrightarrow> service_stop fw user tid now a s = Some (True, s))
   \<and> (m_stop_executor (s_actors s a) \<in> {None, Some tid} \<and> m_state (s_actors s a) = AS_stopping
        \<and> \<not> m_stop_discard (s_actors s a) \<and> has_messages (s_actors s a) \<and> now < m_stop_drain_deadline (s_actors s a) \<longrightarrow>
      (\<exists>s'. service_stop fw user tid now a s = Some (False, s') \<and> m_stop_executor (s_actors s' a) = Some tid
        \<and> mailboxes s' = mailboxes s \<and> m_stash (s_actors s' a) = m_stash (s_actors s a)))"
proof (intro conjI impI)
  have sched: "s_actors (schedule a t) = s_actors t" for t by (simp add: schedule_def Let_def)
  assume "m_state (s_actors s a) = AS_running \<and> m_stop_phase (s_actors s a) = SP_none \<and> m_workers_active s"
  then show "\<exists>r s'. stop_actor fw tid now (Some a) cfg s = Some (r, s') \<and> r \<noteq> Stop_refused
      \<and> m_state (s_actors s' a) = AS_stopping \<and> m_stop_phase (s_actors s' a) = SP_requested
      \<and> m_stop_drain_deadline (s_actors s' a) = now + drain_timeout cfg
      \<and> stop_actor fw tid' now' (Some a) cfg' s' = Some (Stop_refused, s')"
    by (simp add: stop_actor_def stop_actor_end_def Let_def upd_actor_def request_stop_def sched split: prod.split)
next
  assume "m_stop_executor (s_actors s a) = Some e \<and> e \<noteq> tid"
  then show "service_stop fw user tid now a s = Some (True, s)" by (simp add: service_stop_def)
next
  assume a: "m_stop_executor (s_actors s a) \<in> {None, Some tid} \<and> m_state (s_actors s a) = AS_stopping
    \<and> \<not> m_stop_discard (s_actors s a) \<and> has_messages (s_actors s a) \<and> now < m_stop_drain_deadline (s_actors s a)"
  note k = claim_keeps [of a tid s]
  show "\<exists>s'. service_stop fw user tid now a s = Some (False, s') \<and> m_stop_executor (s_actors s' a) = Some tid
      \<and> mailboxes s' = mailboxes s \<and> m_stash (s_actors s' a) = m_stash (s_actors s a)"
  proof (cases "m_stop_executor (s_actors s a)")
    case None
    with a k show ?thesis by (simp add: service_stop_def Let_def)
  qed (use a in \<open>auto simp: service_stop_def Let_def\<close>)
qed


section \<open>Witnesses\<close>

lemmas concrete_state = sys_init_def actor_init_def mailbox_init_def upd_actor_def set_context_def

definition throwing_user :: user_code where
  "throwing_user = idle_user\<lparr>uc_unhandled := (\<lambda>_ _ s. (Some (Other_exn 1), s))\<rparr>"

definition one_framework :: framework where
  "one_framework = framework_of throwing_user (\<lambda>_. 0) 1"

definition sys_with_message :: sys where
  "sys_with_message = upd_actor 3 (\<lambda>A. A\<lparr>m_mailbox := mailbox_init\<lparr>m_others := [sample_user 1], m_other_count := 1\<rparr>\<rparr>) sys_init"


definition sample_call :: call_payload where
  "sample_call = \<lparr>op_type = TI 1, ret_type = TI 2, args_type = TI 3, call_args = 5, promise_id = 7\<rparr>"

definition sys_with_call_handler :: sys where
  "sys_with_call_handler = upd_actor 3 (\<lambda>A. A\<lparr>m_call_handlers :=
     [TI 1 \<mapsto> \<lparr>entry_args_type = TI 3, entry_result_type = TI 2, entry_invoke = 0\<rparr>]\<rparr>) sys_init"

theorem call_is_answered_witness:
  "s_promises (call_process idle_user 3 sample_call sys_with_call_handler) 7 = Fulfilled 5"
  using call_is_answered [of sys_with_call_handler 3 sample_call idle_user
      "\<lparr>entry_args_type = TI 3, entry_result_type = TI 2, entry_invoke = 0\<rparr>"]
  by (simp add: sample_call_def sys_with_call_handler_def concrete_state idle_user_def)

theorem on_start_runs_once_witness:
  "fst (run_on_start idle_user 0 3 sys_init) = Inr True
   \<and> fst (run_on_start idle_user 1 3 (snd (run_on_start idle_user 0 3 sys_init))) = Inr False"
proof -
  have "started_private idle_user" by (simp add: started_private_def idle_user_def)
  moreover have "\<not> m_started (s_actors sys_init 3)" by (simp add: concrete_state)
  ultimately show ?thesis
    using on_start_runs_once [of idle_user sys_init 3 0 "fst (run_on_start idle_user 0 3 sys_init)"
        "snd (run_on_start idle_user 0 3 sys_init)" 1]
    by (auto simp: idle_user_def)
qed


definition sys_inside_turn :: sys where
  "sys_inside_turn = upd_actor 3 (\<lambda>A. A\<lparr>a_kind := Inline False, m_dispatching_thread := Some 0\<rparr>) sys_init"


definition sys_stopping :: sys where
  "sys_stopping = upd_actor 3 (\<lambda>A. A\<lparr>m_state := AS_stopping, m_active_timers := {4}, m_name := Some ''x''\<rparr>) sys_init"

theorem stop_completes_witness:
  "\<exists>s'. service_stop (framework_of idle_user (\<lambda>_. 0) 1) idle_user 0 9 3 sys_stopping = Some (True, s')
     \<and> m_state (s_actors s' 3) = AS_stopped \<and> m_active_timers (s_actors s' 3) = {}"
proof -
  have "hooks_respect idle_user 3" by (simp add: hooks_respect_def idle_user_def)
  moreover have "mailbox_inv (mailboxes sys_stopping 3)"
    by (simp add: sys_stopping_def concrete_state mailboxes_def mailbox_inv_def mailbox_caches_ok_def lane_defs)
  moreover have "\<not> runs_inline (s_actors sys_stopping b)" for b
    by (simp add: sys_stopping_def concrete_state runs_inline_def)
  ultimately show ?thesis
    using stop_completes [OF idle_user_observes, of 3 "framework_of idle_user (\<lambda>_. 0) 1" "\<lambda>_. 0" 0 sys_stopping 0 9]
    by (auto simp: sys_stopping_def concrete_state)
qed

definition sample_stop :: stop_config where
  "sample_stop = \<lparr>stop_cfg_mode = SM_drain, drain_timeout = 10, wait_for_stop = False, notify_watchers = True\<rparr>"

theorem stop_requested_once_witness:
  "\<exists>r s'. stop_actor one_framework 0 5 (Some 3) sample_stop (sys_init\<lparr>m_workers_active := True\<rparr>) = Some (r, s')
     \<and> m_stop_drain_deadline (s_actors s' 3) = 15
     \<and> stop_actor one_framework 1 6 (Some 3) sample_stop s' = Some (Stop_refused, s')"
  using stop_requested_once [of "sys_init\<lparr>m_workers_active := True\<rparr>" 3 one_framework 0 5 sample_stop 1 6 sample_stop]
  by (auto simp: concrete_state sample_stop_def)

end
