(* ===== verification/Actor_Lifecycle.thy ===== *)
theory Actor_Lifecycle
  imports Actor_Execution
begin

text \<open>
  The life of the system (source/system.cpp): configuration, registration of actors, start, shutdown,
  wait for shutdown and reset.

  \<^item> \<open>hw\<close> is \<open>std::thread::hardware_concurrency()\<close> and \<open>thr\<close> the identity of the thread the operating
    system gives a fast actor.
  \<^item> \<open>m_thread_pool\<close> lists the indices of the worker threads that were launched; worker \<open>i\<close> uses
    \<open>m_workers[i]\<close>.
  \<^item> \<open>shutdown\<close> and \<open>wait_for_shutdown\<close> wait for other threads; what those do meanwhile is the
    argument \<open>env\<close>, any function on the state.
\<close>

section \<open>Configuration and registration\<close>

definition init :: "system_config \<Rightarrow> sys \<Rightarrow> sys" where
  "init config s = s\<lparr>m_config := config\<rparr>"

definition configure :: "system_config \<Rightarrow> sys \<Rightarrow> exn option \<times> sys" where
  "configure config s =
     (if m_running s
      then (Some (Std_exn K_runtime_error (''Cannot configure system while it'' @ [CHR 0x27] @ ''s running'')), s)
      else (None, s\<lparr>m_config := config\<rparr>))"

definition pool_width :: "size_t \<Rightarrow> sys \<Rightarrow> size_t" where
  "pool_width hw s =
     (let n = thread_pool_size (m_config s)
      in if n = 0 then (if hw = 0 then 4 else hw) else n)"

definition grow_lists :: "nat \<Rightarrow> actor_ptr list list \<Rightarrow> actor_ptr list list" where
  "grow_lists n xss = (if length xss < n then xss @ replicate (n - length xss) [] else xss)"

definition prepare_actor :: "actor_ptr \<Rightarrow> sys \<Rightarrow> sys" where
  "prepare_actor a s =
     (let s1 = upd_actor a (\<lambda>A. A\<lparr>m_instance_id := m_next_instance_id s\<rparr>)
                 (s\<lparr>m_next_instance_id := m_next_instance_id s + 1\<rparr>);
          s2 = assign_default_name a s1;
          s3 = s2\<lparr>s_alive := (s_alive s2)(a := True)\<rparr>
      in upd_actor a (\<lambda>A. A\<lparr>m_queue_threshold := cfg_queue_threshold (m_config s3)\<rparr>) s3)"

definition assign_thread :: "size_t \<Rightarrow> actor_ptr \<Rightarrow> sys \<Rightarrow> sys" where
  "assign_thread hw a s =
     (let size = length (m_actors_per_thread s);
          num_threads = (if size = 0 then pool_width hw s else of_nat size);
          thread_id = m_next_thread_assignment s mod num_threads;
          s1 = s\<lparr>m_next_thread_assignment := m_next_thread_assignment s + 1,
                 m_actors_per_thread := grow_lists (unat num_threads) (m_actors_per_thread s)\<rparr>;
          s2 = ensure_workers (length (m_actors_per_thread s1)) s1;
          s3 = upd_actor a (\<lambda>A. A\<lparr>m_assigned_thread_id := thread_id\<rparr>) s2;
          k = unat thread_id
      in s3\<lparr>m_actors_per_thread := (m_actors_per_thread s3)[k := m_actors_per_thread s3 ! k @ [a]]\<rparr>)"

definition shutdown_message :: "sys \<Rightarrow> message" where
  "shutdown_message s =
     \<lparr>m_addr = unat (m_next_message_id s), sender = None, message_id = 0, correlation_id = 0, body = System_shutdown\<rparr>"

definition erase_actor :: "actor_ptr \<Rightarrow> sys \<Rightarrow> sys" where
  "erase_actor a s =
     (if is_fast (s_actors s a) then s\<lparr>m_fast_actors := removeAll a (m_fast_actors s)\<rparr>
      else (let k = unat (m_assigned_thread_id (s_actors s a))
            in if k < length (m_actors_per_thread s)
               then s\<lparr>m_actors_per_thread := (m_actors_per_thread s)[k := removeAll a (m_actors_per_thread s ! k)]\<rparr>
               else s))"

definition discard_unstarted_actor :: "framework \<Rightarrow> user_code \<Rightarrow> thread_id \<Rightarrow> actor_ptr \<Rightarrow> sys \<Rightarrow> sys option" where
  "discard_unstarted_actor fw user tid a s =
     (let s1 = cancel_actor_timers a (upd_actor a (\<lambda>A. A\<lparr>m_state := AS_stopped\<rparr>) s);
          s2 = close_mailbox user a AS_stopped False s1;
          (n, s3) = actor_name a s2;
          s4 = s3\<lparr>s_registry := registry_unregister (s_alive s3) n a (s_registry s3)\<rparr>
      in map_option (erase_actor a) (end_watches fw user tid a False s4))"

definition list_actor :: "size_t \<Rightarrow> actor_ptr \<Rightarrow> sys \<Rightarrow> sys" where
  "list_actor hw a s =
     (if is_fast (s_actors s a) then s\<lparr>m_fast_actors := m_fast_actors s @ [a]\<rparr> else assign_thread hw a s)"

definition register_actor ::
  "framework \<Rightarrow> user_code \<Rightarrow> size_t \<Rightarrow> thread_id \<Rightarrow> time_point \<Rightarrow> thread_id \<Rightarrow> actor_ptr \<Rightarrow> sys \<Rightarrow> (exn option \<times> sys) option" where
  "register_actor fw user hw tid now thr a s =
     (let s1 = prepare_actor a s; needs_start = m_running s1; s2 = list_actor hw a s1
      in if \<not> needs_start then Some (None, s2)
         else
           (case run_on_start user tid a s2 of
              (Inl e, s3) \<Rightarrow> map_option (\<lambda>s4. (Some e, s4)) (discard_unstarted_actor fw user tid a s3)
            | (Inr _, s3) \<Rightarrow>
                (let s4 = activate_after_start a s3;
                     s5 = (if is_fast (s_actors s4 a) \<and> m_dedicated_thread (s_actors s4 a) = None
                           then upd_actor a (\<lambda>A. A\<lparr>m_dedicated_thread := Some thr\<rparr>) s4 else s4)
                 in if m_shutdown_started s5 \<and> m_state (s_actors s5 a) = AS_running
                    then actor_enqueue fw user now tid a (shutdown_message s5) s5
                    else Some (None, s5))))"

section \<open>Start\<close>

definition already_run_error :: exn where
  "already_run_error = Std_exn K_logic_error
     (''system::start() after a shutdown: call system::reset() first '' @ ''(and create the actors again)'')"

definition size_pool :: "size_t \<Rightarrow> sys \<Rightarrow> nat \<times> sys" where
  "size_pool hw s =
     (let width = unat (pool_width hw s);
          thread_count = (if length (m_actors_per_thread s) < width then width else length (m_actors_per_thread s))
      in (thread_count, ensure_workers thread_count
            (s\<lparr>m_actors_per_thread := grow_lists width (m_actors_per_thread s)\<rparr>)))"

fun clear_all :: "ready_queue list \<Rightarrow> ready_queue list option" where
  "clear_all [] = Some []"
| "clear_all (q # qs) =
     (case ready_clear q of None \<Rightarrow> None | Some q' \<Rightarrow> map_option (\<lambda>qs'. q' # qs') (clear_all qs))"

fun start_actors :: "user_code \<Rightarrow> thread_id \<Rightarrow> actor_ptr list \<Rightarrow> sys \<Rightarrow> exn option \<times> sys" where
  "start_actors user tid [] s = (None, s)"
| "start_actors user tid (a # rest) s =
     (case run_on_start user tid a s of
        (Inl e, s1) \<Rightarrow> (Some e, s1)
      | (Inr _, s1) \<Rightarrow> start_actors user tid rest (activate_after_start a s1))"

definition launch_threads :: "nat \<Rightarrow> (actor_ptr \<Rightarrow> thread_id) \<Rightarrow> sys \<Rightarrow> sys" where
  "launch_threads thread_count thr s =
     (let s1 = s\<lparr>m_workers_active := True, m_thread_pool := m_thread_pool s @ [0..<thread_count]\<rparr>
      in fold (\<lambda>a. upd_actor a (\<lambda>A. A\<lparr>m_dedicated_thread := Some (thr a)\<rparr>)) (m_fast_actors s1) s1)"

definition start ::
  "user_code \<Rightarrow> size_t \<Rightarrow> thread_id \<Rightarrow> (actor_ptr \<Rightarrow> thread_id) \<Rightarrow> sys \<Rightarrow> (exn option \<times> sys) option" where
  "start user hw tid thr s =
     (if m_running s then Some (None, s)
      else if m_has_run s then Some (Some already_run_error, s)
      else
        (let s1 = s\<lparr>m_running := True, m_has_run := True, m_shutdown_requested := False, m_shutdown_started := False\<rparr>;
             (thread_count, s2) = size_pool hw s1
         in map_option (\<lambda>ws.
              let s3 = s2\<lparr>m_workers := ws, m_timer_manager := timer_start (m_timer_manager s2)\<rparr>
              in case start_actors user tid (concat (m_actors_per_thread s3)) s3 of
                   (Some e, s4) \<Rightarrow> (Some e, s4)
                 | (None, s4) \<Rightarrow> (None, launch_threads thread_count thr s4))
            (clear_all (m_workers s2))))"

section \<open>Shutdown\<close>

record shutdown_config =
  shutdown_drain_timeout :: millis

definition snapshot_pooled_actors :: "sys \<Rightarrow> actor_ptr list" where
  "snapshot_pooled_actors s = concat (m_actors_per_thread s)"

definition snapshot_fast_actors :: "sys \<Rightarrow> actor_ptr list" where
  "snapshot_fast_actors s = m_fast_actors s"

fun inject_shutdown ::
  "framework \<Rightarrow> user_code \<Rightarrow> thread_id \<Rightarrow> time_point \<Rightarrow> actor_ptr list \<Rightarrow> sys \<Rightarrow> (exn option \<times> sys) option" where
  "inject_shutdown fw user tid now [] s = Some (None, s)"
| "inject_shutdown fw user tid now (a # rest) s =
     (if m_state (s_actors s a) \<noteq> AS_running then inject_shutdown fw user tid now rest s
      else
        (case actor_enqueue fw user now tid a (shutdown_message s) s of
           None \<Rightarrow> None
         | Some (Some e, s1) \<Rightarrow> Some (Some e, s1)
         | Some (None, s1) \<Rightarrow> inject_shutdown fw user tid now rest s1))"

definition all_empty :: "sys \<Rightarrow> bool" where
  "all_empty s \<longleftrightarrow>
     (\<forall>a \<in> set (snapshot_pooled_actors s @ snapshot_fast_actors s). \<not> has_messages (s_actors s a))"

partial_function (option) monitor_drain ::
  "(nat \<Rightarrow> sys \<Rightarrow> sys) \<Rightarrow> (nat \<Rightarrow> time_point) \<Rightarrow> time_point \<Rightarrow> nat \<Rightarrow> sys \<Rightarrow> sys option" where
  "monitor_drain env clk deadline n s =
     (if clk n < deadline then
        (if all_empty s then Some s else monitor_drain env clk deadline (Suc n) (env n s))
      else Some s)"

definition undrained_warning :: "string \<Rightarrow> string \<Rightarrow> size_t \<Rightarrow> string" where
  "undrained_warning kind n remaining =
     kind @ '' '' @ [CHR 0x27] @ n @ [CHR 0x27] @ '' has '' @ to_string (unat remaining)
     @ '' unprocessed messages at shutdown''"

fun log_undrained :: "string \<Rightarrow> actor_ptr list \<Rightarrow> sys \<Rightarrow> sys" where
  "log_undrained kind [] s = s"
| "log_undrained kind (a # rest) s =
     (let remaining = queue_size (s_actors s a)
      in log_undrained kind rest
           (if remaining > 0
            then (let (n, s1) = actor_name a s
                  in s1\<lparr>m_shutdown_log := m_shutdown_log s1 @ [undrained_warning kind n remaining]\<rparr>)
            else s))"

definition shutdown ::
  "framework \<Rightarrow> user_code \<Rightarrow> (nat \<Rightarrow> sys \<Rightarrow> sys) \<Rightarrow> (nat \<Rightarrow> time_point) \<Rightarrow> thread_id \<Rightarrow> shutdown_config \<Rightarrow> sys \<Rightarrow> (exn option \<times> sys) option" where
  "shutdown fw user env clk tid config s =
     (let s1 = s\<lparr>m_shutdown_started := True, m_shutdown_log := []\<rparr>
      in case inject_shutdown fw user tid (clk 0) (snapshot_pooled_actors s1 @ snapshot_fast_actors s1) s1 of
           None \<Rightarrow> None
         | Some (Some e, s2) \<Rightarrow> Some (Some e, s2)
         | Some (None, s2) \<Rightarrow>
             map_option (\<lambda>s3.
               let s4 = log_undrained ''Actor'' (snapshot_pooled_actors s3) s3;
                   s5 = log_undrained ''Fast actor'' (snapshot_fast_actors s4) s4
               in (None, s5\<lparr>m_shutdown_requested := True\<rparr>))
             (monitor_drain env clk (clk 0 + shutdown_drain_timeout config) 1 s2))"

section \<open>Wait and reset\<close>

fun complete_stops :: "framework \<Rightarrow> thread_id \<Rightarrow> actor_ptr list \<Rightarrow> sys \<Rightarrow> sys option" where
  "complete_stops fw tid [] s = Some s"
| "complete_stops fw tid (a # rest) s =
     (if m_stop_phase (s_actors s a) = SP_requested \<and> m_state (s_actors s a) \<noteq> AS_stopped
      then Option.bind (fw_run_stop fw tid a s) (complete_stops fw tid rest)
      else complete_stops fw tid rest s)"

definition complete_pending_stops :: "framework \<Rightarrow> thread_id \<Rightarrow> sys \<Rightarrow> sys option" where
  "complete_pending_stops fw tid s =
     map_option (reap_stopped_fast_actors tid)
       (complete_stops fw tid (snapshot_pooled_actors s @ snapshot_fast_actors s) s)"

definition mark_stopped :: "actor_ptr \<Rightarrow> sys \<Rightarrow> sys" where
  "mark_stopped a = upd_actor a (\<lambda>A. A\<lparr>m_state := AS_stopped\<rparr>)"

definition stop_pooled :: "user_code \<Rightarrow> thread_id \<Rightarrow> actor_ptr \<Rightarrow> sys \<Rightarrow> sys" where
  "stop_pooled user tid a s = mark_stopped a (run_stop_hook user tid a SH_on_stop (cancel_actor_timers a s))"

definition wait_for_shutdown ::
  "framework \<Rightarrow> user_code \<Rightarrow> (sys \<Rightarrow> sys) \<Rightarrow> thread_id \<Rightarrow> sys \<Rightarrow> sys option" where
  "wait_for_shutdown fw user env tid s =
     (let s1 = s\<lparr>m_timer_manager := timer_stop (m_timer_manager s), m_running := False\<rparr>;
          s2 = (env s1)\<lparr>m_thread_pool := []\<rparr>;
          fast_snapshot = m_fast_actors s2;
          s3 = (fold join_dedicated fast_snapshot s2)\<lparr>m_workers_active := False\<rparr>
      in map_option (\<lambda>s4.
           let s5 = fold mark_stopped fast_snapshot s4
           in fold (stop_pooled user tid) (snapshot_pooled_actors s5) s5)
         (complete_pending_stops fw tid s3))"

definition reset :: "sys \<Rightarrow> exn option \<times> sys" where
  "reset s =
     (if m_running s then
        (Some (Std_exn K_runtime_error (''Cannot reset system while it'' @ [CHR 0x27]
           @ ''s running - call shutdown() and wait_for_shutdown() first'')), s)
      else
        (None, s\<lparr>m_actors_per_thread := [], m_workers := [], m_fast_actors := [],
                 s_registry := registry_clear (s_registry s), m_watchers := (\<lambda>_. []), m_watching := (\<lambda>_. []),
                 m_has_run := False, m_next_instance_id := 1, m_handler_exceptions := 0,
                 m_next_thread_assignment := 0, m_shutdown_requested := False, m_shutdown_started := False\<rparr>))"

section \<open>Queries\<close>

definition is_running :: "sys \<Rightarrow> bool" where
  "is_running s = m_running s"

definition actor_count :: "thread_id \<Rightarrow> sys \<Rightarrow> nat \<times> sys" where
  "actor_count tid s =
     (let s1 = reap_stopped_fast_actors tid s
      in (sum_list (map length (m_actors_per_thread s1)) + length (m_fast_actors s1), s1))"

definition get_shutdown_log :: "sys \<Rightarrow> string list" where
  "get_shutdown_log s = m_shutdown_log s"

section \<open>Registration before the start\<close>

text \<open>A program that creates actors one after another.\<close>

fun register_all ::
  "framework \<Rightarrow> user_code \<Rightarrow> size_t \<Rightarrow> thread_id \<Rightarrow> time_point \<Rightarrow> thread_id \<Rightarrow> actor_ptr list \<Rightarrow> sys \<Rightarrow> sys option" where
  "register_all fw user hw tid now thr [] s = Some s"
| "register_all fw user hw tid now thr (a # rest) s =
     (case register_actor fw user hw tid now thr a s of
        Some (None, s1) \<Rightarrow> register_all fw user hw tid now thr rest s1
      | _ \<Rightarrow> None)"

lemma register_all_append:
  "register_all fw user hw tid now thr (xs @ ys) s =
     Option.bind (register_all fw user hw tid now thr xs s) (register_all fw user hw tid now thr ys)"
  by (induction xs arbitrary: s) (auto split: option.split prod.split)

lemma prepare_actor_fields:
  "m_config (prepare_actor a s) = m_config s" "m_running (prepare_actor a s) = m_running s"
  "m_actors_per_thread (prepare_actor a s) = m_actors_per_thread s"
  "m_next_thread_assignment (prepare_actor a s) = m_next_thread_assignment s"
  "m_next_instance_id (prepare_actor a s) = m_next_instance_id s + 1" "m_workers (prepare_actor a s) = m_workers s"
  "m_thread_pool (prepare_actor a s) = m_thread_pool s" "m_has_run (prepare_actor a s) = m_has_run s"
  "m_instance_id (s_actors (prepare_actor a s) a) = m_next_instance_id s"
  "a_kind (s_actors (prepare_actor a s) b) = a_kind (s_actors s b)"
  "b \<noteq> a \<Longrightarrow> s_actors (prepare_actor a s) b = s_actors s b"
  by (simp_all add: prepare_actor_def assign_default_name_def publish_name_def upd_actor_def Let_def)

lemma pool_width_pos: "0 < unat (pool_width hw s)"
  by (simp add: pool_width_def Let_def unat_gt_0 unsigned_eq_0_iff)

definition round_robin :: "nat \<Rightarrow> actor_ptr list \<Rightarrow> actor_ptr list list" where
  "round_robin w bs = (if bs = [] then [] else map (\<lambda>k. map ((!) bs) (filter (\<lambda>i. i mod w = k) [0..<length bs])) [0..<w])"

lemma round_robin_snoc:
  assumes "0 < w"
  shows "(grow_lists w (round_robin w bs))[length bs mod w := grow_lists w (round_robin w bs) ! (length bs mod w) @ [a]]
     = round_robin w (bs @ [a])"
proof (rule nth_equalityI)
  have g: "grow_lists w (round_robin w bs) = map (\<lambda>k. map ((!) bs) (filter (\<lambda>i. i mod w = k) [0..<length bs])) [0..<w]"
    by (auto simp: grow_lists_def round_robin_def map_replicate_const)
  show "length ((grow_lists w (round_robin w bs))[length bs mod w := grow_lists w (round_robin w bs) ! (length bs mod w) @ [a]])
      = length (round_robin w (bs @ [a]))"
    unfolding g by (simp add: round_robin_def)
  fix k
  assume "k < length ((grow_lists w (round_robin w bs))[length bs mod w := grow_lists w (round_robin w bs) ! (length bs mod w) @ [a]])"
  then have k: "k < w" by (simp add: g)
  have m: "map ((!) (bs @ [a])) (filter (\<lambda>i. i mod w = k) [0..<length bs]) = map ((!) bs) (filter (\<lambda>i. i mod w = k) [0..<length bs])"
    by (auto simp: nth_append)
  show "(grow_lists w (round_robin w bs))[length bs mod w := grow_lists w (round_robin w bs) ! (length bs mod w) @ [a]] ! k
      = round_robin w (bs @ [a]) ! k"
    unfolding g using k assms by (auto simp: round_robin_def nth_list_update m)
qed

lemma assign_thread_fields:
  assumes "m_actors_per_thread s = round_robin (unat (pool_width hw s)) bs"
    "m_next_thread_assignment s = of_nat (length bs)" "length bs < 2 ^ 64"
  shows "m_actors_per_thread (assign_thread hw a s) = round_robin (unat (pool_width hw s)) (bs @ [a])"
    "m_next_thread_assignment (assign_thread hw a s) = of_nat (length (bs @ [a]))"
    "m_assigned_thread_id (s_actors (assign_thread hw a s) a) = of_nat (length bs mod unat (pool_width hw s))"
    "m_workers s = [] \<Longrightarrow> length (m_workers (assign_thread hw a s)) = unat (pool_width hw s)"
    "m_workers s \<noteq> [] \<Longrightarrow> m_workers (assign_thread hw a s) = m_workers s"
proof -
  let ?w = "unat (pool_width hw s)"
  let ?tid = "(of_nat (length bs) :: size_t) mod pool_width hw s"
  have wpos: "0 < ?w" by (rule pool_width_pos)
  have len: "length (m_actors_per_thread s) = (if bs = [] then 0 else ?w)" by (simp add: assms(1) round_robin_def)
  have num: "(if length (m_actors_per_thread s) = 0 then pool_width hw s else of_nat (length (m_actors_per_thread s))) = pool_width hw s"
    using wpos by (simp add: len)
  have tid: "unat ?tid = length bs mod ?w" using assms(3) by (simp add: unat_mod unat_of_nat_64)
  have "of_nat (unat ?tid) = ?tid" by simp
  then have tid': "?tid = of_nat (length bs mod ?w)" unfolding tid by (rule sym)
  have grow: "length (grow_lists ?w (m_actors_per_thread s)) = ?w" using wpos by (simp add: grow_lists_def len)
  have d: "assign_thread hw a s = (let k = unat ?tid;
        s2 = ensure_workers (length (grow_lists ?w (m_actors_per_thread s)))
          (s\<lparr>m_next_thread_assignment := of_nat (length bs) + 1, m_actors_per_thread := grow_lists ?w (m_actors_per_thread s)\<rparr>);
        s3 = upd_actor a (\<lambda>A. A\<lparr>m_assigned_thread_id := ?tid\<rparr>) s2
      in s3\<lparr>m_actors_per_thread := (m_actors_per_thread s3)[k := m_actors_per_thread s3 ! k @ [a]]\<rparr>)"
    unfolding assign_thread_def Let_def num assms(2) by simp
  note simps = d Let_def upd_actor_def ensure_workers_def
  show "m_actors_per_thread (assign_thread hw a s) = round_robin ?w (bs @ [a])"
    unfolding round_robin_snoc [OF wpos, of bs a, symmetric] assms(1) [symmetric] tid [symmetric] by (simp add: simps)
  show "m_next_thread_assignment (assign_thread hw a s) = of_nat (length (bs @ [a]))" by (simp add: simps)
  show "m_assigned_thread_id (s_actors (assign_thread hw a s) a) = of_nat (length bs mod ?w)"
    unfolding tid' [symmetric] by (simp add: simps)
  show "length (m_workers (assign_thread hw a s)) = ?w" if "m_workers s = []" using that grow by (simp add: simps)
  show "m_workers (assign_thread hw a s) = m_workers s" if "m_workers s \<noteq> []" using that by (simp add: simps)
qed

lemma assign_thread_keeps:
  "m_config (assign_thread hw a s) = m_config s" "m_running (assign_thread hw a s) = m_running s"
  "m_has_run (assign_thread hw a s) = m_has_run s" "m_thread_pool (assign_thread hw a s) = m_thread_pool s"
  "m_next_instance_id (assign_thread hw a s) = m_next_instance_id s"
  "a_kind (s_actors (assign_thread hw a s) b) = a_kind (s_actors s b)"
  "m_instance_id (s_actors (assign_thread hw a s) b) = m_instance_id (s_actors s b)"
  "b \<noteq> a \<Longrightarrow> s_actors (assign_thread hw a s) b = s_actors s b"
  by (simp_all add: assign_thread_def Let_def upd_actor_def ensure_workers_def)

lemma register_before_start:
  assumes "\<not> m_running s" "\<not> is_fast (s_actors s a)"
  shows "register_actor fw user hw tid now thr a s = Some (None, assign_thread hw a (prepare_actor a s))"
proof -
  have "is_fast (s_actors (prepare_actor a s) a) = is_fast (s_actors s a)"
    by (simp add: is_fast_def prepare_actor_fields)
  with assms show ?thesis by (simp add: register_actor_def list_actor_def prepare_actor_fields)
qed

definition registered_as :: "nat \<Rightarrow> sys \<Rightarrow> actor_ptr list \<Rightarrow> sys \<Rightarrow> bool" where
  "registered_as w s bs s' \<longleftrightarrow>
     m_actors_per_thread s' = round_robin w bs \<and> m_next_thread_assignment s' = of_nat (length bs)
   \<and> m_next_instance_id s' = m_next_instance_id s + of_nat (length bs)
   \<and> (\<forall>i < length bs. m_assigned_thread_id (s_actors s' (bs ! i)) = of_nat (i mod w)
        \<and> m_instance_id (s_actors s' (bs ! i)) = m_next_instance_id s + of_nat i)
   \<and> length (m_workers s') = (if bs = [] then 0 else w)
   \<and> m_config s' = m_config s \<and> m_running s' = m_running s \<and> m_has_run s' = m_has_run s
   \<and> m_thread_pool s' = m_thread_pool s \<and> (\<forall>b. a_kind (s_actors s' b) = a_kind (s_actors s b))"

lemma register_all_before_start:
  assumes "\<not> m_running s" "m_actors_per_thread s = []" "m_workers s = []" "m_next_thread_assignment s = 0"
    "\<And>a. a \<in> set bs \<Longrightarrow> \<not> is_fast (s_actors s a)" "distinct bs" "length bs < 2 ^ 64"
  shows "\<exists>s'. register_all fw user hw tid now thr bs s = Some s' \<and> registered_as (unat (pool_width hw s)) s bs s'"
  using assms(5-7)
proof (induction bs rule: rev_induct)
  case Nil
  with assms(1-4) show ?case by (simp add: registered_as_def round_robin_def)
next
  case (snoc a bs)
  let ?w = "unat (pool_width hw s)"
  from snoc obtain s1 where s1: "register_all fw user hw tid now thr bs s = Some s1" "registered_as ?w s bs s1" by auto
  let ?p = "prepare_actor a s1"
  let ?t = "assign_thread hw a ?p"
  have nf: "\<not> m_running s1" "\<not> is_fast (s_actors s1 a)"
    using s1(2) assms(1) snoc.prems(1) [of a] by (simp_all add: registered_as_def is_fast_def)
  have w: "pool_width hw ?p = pool_width hw s"
    using s1(2) by (simp add: pool_width_def prepare_actor_fields registered_as_def)
  have pre: "m_actors_per_thread ?p = round_robin (unat (pool_width hw ?p)) bs"
    "m_next_thread_assignment ?p = of_nat (length bs)" "length bs < 2 ^ 64"
    using s1(2) snoc.prems(3) by (simp_all add: w prepare_actor_fields registered_as_def)
  note f = assign_thread_fields [OF pre, of a, unfolded w]
  have old: "s_actors ?t (bs ! i) = s_actors s1 (bs ! i)" if "i < length bs" for i
  proof -
    have "bs ! i \<noteq> a" using that snoc.prems(2) by auto
    then show ?thesis by (simp add: assign_thread_keeps prepare_actor_fields)
  qed
  have at: "m_assigned_thread_id (s_actors ?t ((bs @ [a]) ! i)) = of_nat (i mod ?w)
      \<and> m_instance_id (s_actors ?t ((bs @ [a]) ! i)) = m_next_instance_id s + of_nat i" if "i < length (bs @ [a])" for i
  proof (cases "i < length bs")
    case True
    with old [OF True] s1(2) show ?thesis by (simp add: nth_append registered_as_def)
  next
    case False
    with that have "i = length bs" by simp
    with f(3) s1(2) show ?thesis by (simp add: assign_thread_keeps prepare_actor_fields registered_as_def)
  qed
  have workers: "length (m_workers ?t) = ?w"
    using f(4,5) s1(2) by (cases "m_workers ?p = []") (auto simp: prepare_actor_fields registered_as_def split: if_splits)
  have "registered_as ?w s (bs @ [a]) ?t"
    unfolding registered_as_def using f(1,2) s1(2) at workers
    by (simp add: assign_thread_keeps prepare_actor_fields registered_as_def)
  moreover have "register_all fw user hw tid now thr (bs @ [a]) s = Some ?t"
    by (simp add: register_all_append s1(1) register_before_start [OF nf])
  ultimately show ?case by blast
qed

declare register_all.simps [simp del]

section \<open>The pool at the start\<close>

text \<open>The size of the pool is private: \<open>on_start\<close> may create actors, which does not change it.\<close>

definition on_start_keeps_pool :: "user_code \<Rightarrow> bool" where
  "on_start_keeps_pool user \<longleftrightarrow>
     (\<forall>a s. length (m_workers (snd (uc_on_start user a s))) = length (m_workers s)
        \<and> m_thread_pool (snd (uc_on_start user a s)) = m_thread_pool s)"

lemma run_on_start_pool:
  assumes "on_start_keeps_pool user"
  shows "length (m_workers (snd (run_on_start user tid a s))) = length (m_workers s)"
    "m_thread_pool (snd (run_on_start user tid a s)) = m_thread_pool s"
proof -
  have "length (m_workers (snd (uc_on_start user a t))) = length (m_workers t)"
    "m_thread_pool (snd (uc_on_start user a t)) = m_thread_pool t" for t
    using assms unfolding on_start_keeps_pool_def by blast+
  then show "length (m_workers (snd (run_on_start user tid a s))) = length (m_workers s)"
    "m_thread_pool (snd (run_on_start user tid a s)) = m_thread_pool s"
    by (simp_all add: run_on_start_def Let_def case_prod_beta upd_actor_def set_context_def)
qed

lemma activate_pool:
  "length (m_workers (activate_after_start a s)) = length (m_workers s)"
  "m_thread_pool (activate_after_start a s) = m_thread_pool s"
  by (simp_all add: activate_after_start_def schedule_def upd_actor_def Let_def case_prod_beta)

lemma start_actors_pool:
  assumes "on_start_keeps_pool user"
  shows "length (m_workers (snd (start_actors user tid bs s))) = length (m_workers s)
    \<and> m_thread_pool (snd (start_actors user tid bs s)) = m_thread_pool s"
proof (induction bs arbitrary: s)
  case (Cons a bs)
  show ?case
    using Cons.IH run_on_start_pool [OF assms, of tid a s]
    by (cases "run_on_start user tid a s") (simp add: activate_pool split: sum.split)
qed simp

lemma clear_all_returns: "\<exists>ws. clear_all qs = Some ws \<and> length ws = length qs"
proof (induction qs)
  case (Cons q qs)
  obtain q' where "ready_clear q = Some q'"
    using ready_fifo.drain_returns [of q] by (auto simp: ready_clear_def)
  with Cons show ?case by auto
qed simp

lemma launch_threads_fields:
  "m_workers (launch_threads n thr s) = m_workers s" "m_thread_pool (launch_threads n thr s) = m_thread_pool s @ [0..<n]"
proof -
  have "m_workers (fold (\<lambda>a. upd_actor a (\<lambda>A. A\<lparr>m_dedicated_thread := Some (thr a)\<rparr>)) bs t) = m_workers t
      \<and> m_thread_pool (fold (\<lambda>a. upd_actor a (\<lambda>A. A\<lparr>m_dedicated_thread := Some (thr a)\<rparr>)) bs t) = m_thread_pool t" for bs t
    by (induction bs arbitrary: t) (simp_all add: upd_actor_def)
  then show "m_workers (launch_threads n thr s) = m_workers s" "m_thread_pool (launch_threads n thr s) = m_thread_pool s @ [0..<n]"
    by (simp_all add: launch_threads_def Let_def)
qed

text \<open>How many threads \<open>start\<close> launches and how many ready queues they find.\<close>

lemma start_pool:
  assumes "on_start_keeps_pool user" "\<not> m_running s" "\<not> m_has_run s" "m_thread_pool s = []"
  shows "\<exists>r s'. start user hw tid thr s = Some (r, s')
    \<and> m_thread_pool s' = (if r = None then [0..<max (length (m_actors_per_thread s)) (unat (pool_width hw s))] else [])
    \<and> length (m_workers s') = (if m_workers s = [] then max (length (m_actors_per_thread s)) (unat (pool_width hw s))
        else length (m_workers s))"
proof -
  let ?s1 = "s\<lparr>m_running := True, m_has_run := True, m_shutdown_requested := False, m_shutdown_started := False\<rparr>"
  let ?n = "max (length (m_actors_per_thread s)) (unat (pool_width hw s))"
  have w: "pool_width hw ?s1 = pool_width hw s" by (simp add: pool_width_def)
  let ?s2 = "snd (size_pool hw ?s1)"
  have sp: "fst (size_pool hw ?s1) = ?n" "m_thread_pool ?s2 = []"
    "length (m_workers ?s2) = (if m_workers s = [] then ?n else length (m_workers s))"
    using assms(4) by (auto simp: size_pool_def Let_def w ensure_workers_def)
  obtain ws where ws: "clear_all (m_workers ?s2) = Some ws" "length ws = length (m_workers ?s2)"
    using clear_all_returns by blast
  let ?s3 = "?s2\<lparr>m_workers := ws, m_timer_manager := timer_start (m_timer_manager ?s2)\<rparr>"
  obtain r s4 where r: "start_actors user tid (concat (m_actors_per_thread ?s3)) ?s3 = (r, s4)"
    by (cases "start_actors user tid (concat (m_actors_per_thread ?s3)) ?s3") auto
  have s4: "length (m_workers s4) = length (m_workers ?s2)" "m_thread_pool s4 = []"
    using start_actors_pool [OF assms(1), of tid "concat (m_actors_per_thread ?s3)" ?s3] r ws(2) sp(2) by auto
  have st: "start user hw tid thr s = Some (r, if r = None then launch_threads ?n thr s4 else s4)"
    using assms(2,3) ws(1) r sp(1) by (cases r) (simp_all add: start_def Let_def case_prod_beta)
  show ?thesis
    using s4 sp(3) by (intro exI [of _ r], intro exI [of _ "if r = None then launch_threads ?n thr s4 else s4"])
      (simp add: st launch_threads_fields)
qed

section \<open>A creation that fails\<close>

lemma erase_actor_effect:
  "s_actors (erase_actor a s) = s_actors s" "m_watchers (erase_actor a s) = m_watchers s"
  "m_watching (erase_actor a s) = m_watching s" "s_alive (erase_actor a s) = s_alive s"
  "s_registry (erase_actor a s) = s_registry s"
  "is_fast (s_actors s a) \<Longrightarrow> a \<notin> set (m_fast_actors (erase_actor a s))"
  "\<not> is_fast (s_actors s a) \<Longrightarrow> unat (m_assigned_thread_id (s_actors s a)) < length (m_actors_per_thread (erase_actor a s)) \<Longrightarrow>
     a \<notin> set (m_actors_per_thread (erase_actor a s) ! unat (m_assigned_thread_id (s_actors s a)))"
  by (auto simp: erase_actor_def Let_def)

lemma discard_unstarted_effect:
  assumes obs: "callbacks_observe user" and inv: "mailbox_inv (mailboxes s a)"
  shows "\<exists>s'. discard_unstarted_actor fw user tid a s = Some s' \<and> m_state (s_actors s' a) = AS_stopped
    \<and> mailbox_closed (mailboxes s' a) \<and> queued (mailboxes s' a) = [] \<and> m_active_timers (s_actors s' a) = {}
    \<and> m_watchers s' (m_instance_id (s_actors s' a)) = [] \<and> m_watching s' (m_instance_id (s_actors s' a)) = []
    \<and> (\<forall>n. m_name (s_actors s' a) = Some n \<longrightarrow> fst (registry_get (s_alive s') n (s_registry s')) \<noteq> Some a)
    \<and> (is_fast (s_actors s' a) \<longrightarrow> a \<notin> set (m_fast_actors s'))
    \<and> (\<not> is_fast (s_actors s' a) \<and> unat (m_assigned_thread_id (s_actors s' a)) < length (m_actors_per_thread s') \<longrightarrow>
         a \<notin> set (m_actors_per_thread s' ! unat (m_assigned_thread_id (s_actors s' a))))"
proof -
  define s1 where "s1 = cancel_actor_timers a (upd_actor a (\<lambda>A. A\<lparr>m_state := AS_stopped\<rparr>) s)"
  define s2 where "s2 = close_mailbox user a AS_stopped False s1"
  define n where "n = fst (actor_name a s2)"
  define s3 where "s3 = snd (actor_name a s2)"
  define s4 where "s4 = s3\<lparr>s_registry := registry_unregister (s_alive s3) n a (s_registry s3)\<rparr>"
  define s5 where "s5 = snd (remove_watches (m_instance_id (s_actors s4 a)) s4)"
  have s1: "m_state (s_actors s1 a) = AS_stopped" "m_active_timers (s_actors s1 a) = {}" "mailboxes s1 a = mailboxes s a"
    by (simp_all add: s1_def cancel_actor_timers_keeps upd_actor_def mailboxes_def)
  note c = close_mailbox_effect [OF obs, of s1 a AS_stopped False, unfolded s1(3), OF inv, folded s2_def]
  have name: "m_name (s_actors s3 a) = Some n"
    by (auto simp: n_def s3_def actor_name_def assign_default_name_def publish_name_def upd_actor_def Let_def split: option.split)
  have s3: "m_state (s_actors s3 a) = AS_stopped" "m_active_timers (s_actors s3 a) = {}" "mailboxes s3 a = mailboxes s2 a"
    using frame_trans [OF c(1) frame_actor_name [of s2 a]] s1 actor_name_frame(1) [of a s2] by (auto simp: s3_def frame_def)
  have s5: "s_actors s5 = s_actors s3" "s_registry s5 = registry_unregister (s_alive s3) n a (s_registry s3)"
    "s_alive s5 = s_alive s3"
    "m_watchers s5 (m_instance_id (s_actors s3 a)) = []" "m_watching s5 (m_instance_id (s_actors s3 a)) = []"
    by (simp_all add: s5_def s4_def remove_watches_def Let_def fold_delete_upd)
  have reg: "fst (registry_get (s_alive s3) n (registry_unregister (s_alive s3) n a (s_registry s3))) \<noteq> Some a"
    by (rule registry.unregister_never_shows)
  have "discard_unstarted_actor fw user tid a s = Some (erase_actor a s5)"
    by (simp add: discard_unstarted_actor_def end_watches_def Let_def case_prod_beta s5_def s4_def s3_def n_def s2_def s1_def)
  with s5 s3 c(2,3) name reg erase_actor_effect(7) [of s5 a, unfolded s5(1)] show ?thesis
    by (intro exI [of _ "erase_actor a s5"]) (simp add: erase_actor_effect mailboxes_def)
qed

section \<open>Waiting for queues to drain\<close>

primrec monitor_run :: "(nat \<Rightarrow> sys \<Rightarrow> sys) \<Rightarrow> nat \<Rightarrow> nat \<Rightarrow> sys \<Rightarrow> sys" where
  "monitor_run env n 0 s = s"
| "monitor_run env n (Suc k) s = monitor_run env (Suc n) k (env n s)"

lemma monitor_stops:
  assumes "\<And>j. j < k \<Longrightarrow> clk (n + j) < deadline \<and> \<not> all_empty (monitor_run env n j s)"
    and "deadline \<le> clk (n + k) \<or> all_empty (monitor_run env n k s)"
  shows "monitor_drain env clk deadline n s = Some (monitor_run env n k s)"
  using assms
proof (induction k arbitrary: n s)
  case 0
  then show ?case by (subst monitor_drain.simps) auto
next
  case (Suc k)
  have "monitor_drain env clk deadline (Suc n) (env n s) = Some (monitor_run env (Suc n) k (env n s))"
  proof (rule Suc.IH)
    show "clk (Suc n + j) < deadline \<and> \<not> all_empty (monitor_run env (Suc n) j (env n s))" if "j < k" for j
      using Suc.prems(1) [of "Suc j"] that by simp
  qed (use Suc.prems(2) in simp)
  with Suc.prems(1) [of 0] show ?case by (subst monitor_drain.simps) simp
qed

lemma monitor_returns:
  assumes "deadline \<le> clk (n + K)"
  shows "\<exists>k \<le> K. monitor_drain env clk deadline n s = Some (monitor_run env n k s)
    \<and> (deadline \<le> clk (n + k) \<or> all_empty (monitor_run env n k s))"
proof -
  let ?P = "\<lambda>k. deadline \<le> clk (n + k) \<or> all_empty (monitor_run env n k s)"
  have PK: "?P K" using assms by simp
  define k where "k = (LEAST k. ?P k)"
  have k: "?P k" "k \<le> K" unfolding k_def using LeastI [of ?P, OF PK] Least_le [of ?P, OF PK] by blast+
  have "clk (n + j) < deadline \<and> \<not> all_empty (monitor_run env n j s)" if "j < k" for j
    using not_less_Least [of j ?P] that by (auto simp: k_def not_le)
  from monitor_stops [OF this k(1)] k show ?thesis by blast
qed

lemma inject_shutdown_returns:
  assumes "callbacks_observe user" "\<And>b. \<not> runs_inline (s_actors s b)"
  shows "\<exists>s'. inject_shutdown fw user tid now bs s = Some (None, s')"
  using assms(2)
proof (induction bs arbitrary: s)
  case (Cons a bs)
  have "\<not> runs_inline (s_actors (enqueue_message user a msg s) b)" for b msg
    using frame_enqueue(1) [OF assms(1), of s a msg] Cons.prems [of b] by (simp add: frame_def runs_inline_def)
  with Cons show ?case by (simp add: actor_enqueue_def)
qed simp

lemma log_undrained_log:
  "length (m_shutdown_log (log_undrained kind bs s)) =
     length (m_shutdown_log s) + length (filter (\<lambda>a. 0 < queue_size (s_actors s a)) bs)"
  "queue_size (s_actors (log_undrained kind bs s) b) = queue_size (s_actors s b)"
  "m_fast_actors (log_undrained kind bs s) = m_fast_actors s"
proof -
  have q: "queue_size (s_actors (snd (actor_name a t)) b) = queue_size (s_actors t b)"
    "m_shutdown_log (snd (actor_name a t)) = m_shutdown_log t" "m_fast_actors (snd (actor_name a t)) = m_fast_actors t" for a t b
    by (auto simp: actor_name_def assign_default_name_def publish_name_def upd_actor_def queue_size_def is_stateful_def
        Let_def split: option.split)
  have "length (m_shutdown_log (log_undrained kind bs s)) =
      length (m_shutdown_log s) + length (filter (\<lambda>a. 0 < queue_size (s_actors s a)) bs)
    \<and> queue_size (s_actors (log_undrained kind bs s) b) = queue_size (s_actors s b)
    \<and> m_fast_actors (log_undrained kind bs s) = m_fast_actors s"
    by (induction bs arbitrary: s) (simp_all add: Let_def case_prod_beta q)
  then show "length (m_shutdown_log (log_undrained kind bs s)) =
      length (m_shutdown_log s) + length (filter (\<lambda>a. 0 < queue_size (s_actors s a)) bs)"
    "queue_size (s_actors (log_undrained kind bs s) b) = queue_size (s_actors s b)"
    "m_fast_actors (log_undrained kind bs s) = m_fast_actors s" by simp_all
qed

section \<open>Properties\<close>

text \<open>
  Fact. Creating pooled actors before the start spreads them over the workers in turn: with a pool of
  width \<open>w\<close>, the \<open>i\<close>-th actor goes to the end of the list of worker \<open>i mod w\<close>, gets that thread as its
  affinity and the \<open>i\<close>-th instance id, and there is a ready queue for every worker.
\<close>

theorem register_round_robin:
  assumes "\<not> m_running s" "m_actors_per_thread s = []" "m_workers s = []" "m_next_thread_assignment s = 0"
    "\<And>a. a \<in> set bs \<Longrightarrow> \<not> is_fast (s_actors s a)" "distinct bs" "length bs < 2 ^ 64" "bs \<noteq> []"
    "w = unat (pool_width hw s)"
  shows "\<exists>s'. register_all fw user hw tid now thr bs s = Some s'
    \<and> length (m_workers s') = w \<and> length (m_actors_per_thread s') = w
    \<and> (\<forall>k < w. m_actors_per_thread s' ! k = map ((!) bs) (filter (\<lambda>i. i mod w = k) [0..<length bs]))
    \<and> (\<forall>i < length bs. m_assigned_thread_id (s_actors s' (bs ! i)) = of_nat (i mod w)
         \<and> m_instance_id (s_actors s' (bs ! i)) = m_next_instance_id s + of_nat i)"
  using register_all_before_start [OF assms(1-7), of fw user hw tid now thr] assms(8,9)
  by (fastforce simp: registered_as_def round_robin_def)

text \<open>
  Property C35. Every worker thread has its ready queue: if actors are created and the system is started under
  the same configuration, \<open>start\<close> returns, and the index of every worker thread it launches is in
  range of \<open>m_workers\<close>.
\<close>

theorem worker_threads_have_queues:
  assumes "\<not> m_running s" "\<not> m_has_run s" "m_thread_pool s = []" "m_actors_per_thread s = []" "m_workers s = []"
    "m_next_thread_assignment s = 0" "\<And>a. a \<in> set bs \<Longrightarrow> \<not> is_fast (s_actors s a)" "distinct bs" "length bs < 2 ^ 64"
    "on_start_keeps_pool user"
  shows "\<exists>s1 r s2. register_all fw user hw tid now thr bs s = Some s1 \<and> start user hw tid' thr' s1 = Some (r, s2)
    \<and> (r = None \<longrightarrow> m_thread_pool s2 = [0..<unat (pool_width hw s)])
    \<and> (\<forall>i \<in> set (m_thread_pool s2). i < length (m_workers s2))"
proof -
  obtain s1 where s1: "register_all fw user hw tid now thr bs s = Some s1" "registered_as (unat (pool_width hw s)) s bs s1"
    using register_all_before_start [OF assms(1,4-9)] by blast
  let ?w = "unat (pool_width hw s)"
  have w: "pool_width hw s1 = pool_width hw s" using s1(2) by (simp add: registered_as_def pool_width_def)
  have pre: "\<not> m_running s1" "\<not> m_has_run s1" "m_thread_pool s1 = []"
    using s1(2) assms(1-3) by (simp_all add: registered_as_def)
  have len: "max (length (m_actors_per_thread s1)) ?w = ?w" "m_workers s1 \<noteq> [] \<Longrightarrow> length (m_workers s1) = ?w"
    using s1(2) by (auto simp: registered_as_def round_robin_def split: if_splits)
  obtain r s2 where "start user hw tid' thr' s1 = Some (r, s2)" "m_thread_pool s2 = (if r = None then [0..<?w] else [])"
    "length (m_workers s2) = ?w"
    using start_pool [OF assms(10) pre, of hw tid' thr'] len unfolding w by (metis (no_types, lifting))
  with s1(1) show ?thesis by auto
qed


text \<open>
  Property C34. A creation that fails leaves nothing behind: if \<open>on_start\<close> of an actor created in a running
  system throws, \<open>register_actor\<close> passes the exception on, and the actor is stopped with a closed and
  empty mailbox, no timers, no watches, no entry under its name in the registry, and no place in the
  list it was put into.
\<close>

theorem failed_creation_leaves_nothing:
  assumes "callbacks_observe user" "m_running s"
    "run_on_start user tid a (list_actor hw a (prepare_actor a s)) = (Inl e, s3)" "mailbox_inv (mailboxes s3 a)"
  shows "\<exists>s'. register_actor fw user hw tid now thr a s = Some (Some e, s') \<and> m_state (s_actors s' a) = AS_stopped
    \<and> mailbox_closed (mailboxes s' a) \<and> queued (mailboxes s' a) = [] \<and> m_active_timers (s_actors s' a) = {}
    \<and> m_watchers s' (m_instance_id (s_actors s' a)) = [] \<and> m_watching s' (m_instance_id (s_actors s' a)) = []
    \<and> (\<forall>n. m_name (s_actors s' a) = Some n \<longrightarrow> fst (registry_get (s_alive s') n (s_registry s')) \<noteq> Some a)
    \<and> (is_fast (s_actors s' a) \<longrightarrow> a \<notin> set (m_fast_actors s'))
    \<and> (\<not> is_fast (s_actors s' a) \<and> unat (m_assigned_thread_id (s_actors s' a)) < length (m_actors_per_thread s') \<longrightarrow>
         a \<notin> set (m_actors_per_thread s' ! unat (m_assigned_thread_id (s_actors s' a))))"
proof -
  obtain s' where "discard_unstarted_actor fw user tid a s3 = Some s'" and rest: "m_state (s_actors s' a) = AS_stopped
    \<and> mailbox_closed (mailboxes s' a) \<and> queued (mailboxes s' a) = [] \<and> m_active_timers (s_actors s' a) = {}
    \<and> m_watchers s' (m_instance_id (s_actors s' a)) = [] \<and> m_watching s' (m_instance_id (s_actors s' a)) = []
    \<and> (\<forall>n. m_name (s_actors s' a) = Some n \<longrightarrow> fst (registry_get (s_alive s') n (s_registry s')) \<noteq> Some a)
    \<and> (is_fast (s_actors s' a) \<longrightarrow> a \<notin> set (m_fast_actors s'))
    \<and> (\<not> is_fast (s_actors s' a) \<and> unat (m_assigned_thread_id (s_actors s' a)) < length (m_actors_per_thread s') \<longrightarrow>
         a \<notin> set (m_actors_per_thread s' ! unat (m_assigned_thread_id (s_actors s' a))))"
    using discard_unstarted_effect [OF assms(1,4), of fw tid] by blast
  then have "register_actor fw user hw tid now thr a s = Some (Some e, s')"
    using assms(2,3) by (simp add: register_actor_def prepare_actor_fields Let_def)
  with rest show ?thesis by blast
qed


text \<open>
  An actor that stops itself in \<open>on_start\<close>: \<open>stop_actor\<close> does not wait, since the caller executes the actor.
\<close>

definition self_stop :: "actor_ptr \<Rightarrow> sys \<Rightarrow> exn option \<times> sys" where
  "self_stop a s =
     (None, case stop_actor (framework_of idle_user (\<lambda>_. 0) 1) 0 0 (Some a) sample_stop s of Some (_, s1) \<Rightarrow> s1 | None \<Rightarrow> s)"

definition self_stopping_user :: user_code where
  "self_stopping_user = idle_user\<lparr>uc_on_start := self_stop\<rparr>"

definition running_system :: sys where
  "running_system = sys_init\<lparr>m_running := True, m_workers_active := True, m_workers := [ready_init, ready_init],
     m_actors_per_thread := [[], []]\<rparr>"

lemmas registration_defs = register_actor_def list_actor_def prepare_actor_def assign_thread_def ensure_workers_def
  grow_lists_def run_on_start_def activate_after_start_def assign_default_name_def publish_name_def



section \<open>Witnesses\<close>

lemma idle_keeps_pool: "on_start_keeps_pool idle_user"
  by (simp add: on_start_keeps_pool_def idle_user_def)

lemma sys_init_pool:
  "\<not> m_running sys_init" "\<not> m_has_run sys_init" "m_thread_pool sys_init = []" "m_actors_per_thread sys_init = []"
  "m_workers sys_init = []" "m_next_thread_assignment sys_init = 0" "\<not> is_fast (s_actors sys_init a)"
  "unat (pool_width hw sys_init) = 2"
  by (simp_all add: sys_init_def actor_init_def is_fast_def pool_width_def)

theorem register_round_robin_witness:
  "\<exists>s'. register_all one_framework idle_user 8 0 0 0 [5, 6, 7] sys_init = Some s'
     \<and> m_actors_per_thread s' ! 0 = [5, 7] \<and> m_actors_per_thread s' ! 1 = [6]"
proof -
  have f: "filter (\<lambda>i. i mod 2 = 0) [0..<length [5, 6, 7 :: nat]] = [0, 2]" "filter (\<lambda>i. i mod 2 = 1) [0..<length [5, 6, 7 :: nat]] = [1]"
    by (simp_all add: upt_conv_Cons)
  have "\<And>a. a \<in> set [5, 6, 7] \<Longrightarrow> \<not> is_fast (s_actors sys_init a)" using sys_init_pool(7) .
  moreover have "distinct [5, 6, 7 :: nat]" "length [5, 6, 7 :: nat] < 2 ^ 64" "[5, 6, 7 :: nat] \<noteq> []" by simp_all
  moreover have "2 = unat (pool_width 8 sys_init)" by (simp add: sys_init_pool)
  ultimately obtain s' where s': "register_all one_framework idle_user 8 0 0 0 [5, 6, 7] sys_init = Some s'"
    "\<forall>k < 2. m_actors_per_thread s' ! k = map ((!) [5, 6, 7]) (filter (\<lambda>i. i mod 2 = k) [0..<length [5, 6, 7 :: nat]])"
    using register_round_robin [OF sys_init_pool(1,4-6), of "[5, 6, 7]" 2 8 one_framework idle_user 0 0 0] by blast
  have "(0 :: nat) < 2" "(1 :: nat) < 2" by simp_all
  note lists = s'(2) [rule_format, OF this(1)] s'(2) [rule_format, OF this(2)]
  show ?thesis using s'(1) lists [unfolded f] by auto
qed

theorem worker_threads_have_queues_witness:
  "\<exists>s1 r s2. register_all one_framework idle_user 8 0 0 0 [5, 6, 7] sys_init = Some s1
     \<and> start idle_user 8 0 (\<lambda>_. 9) s1 = Some (r, s2) \<and> (\<forall>i \<in> set (m_thread_pool s2). i < length (m_workers s2))"
proof -
  have "\<And>a. a \<in> set [5, 6, 7] \<Longrightarrow> \<not> is_fast (s_actors sys_init a)" using sys_init_pool(7) .
  from worker_threads_have_queues [OF sys_init_pool(1-6) this _ _ idle_keeps_pool, where bs = "[5, 6, 7]" and fw = one_framework and hw = 8
      and tid = 0 and now = 0 and thr = 0 and tid' = 0 and thr' = "\<lambda>_. 9"]
  show ?thesis by auto
qed


definition failing_user :: user_code where
  "failing_user = idle_user\<lparr>uc_on_start := (\<lambda>_ s. (Some (Other_exn 3), s))\<rparr>"

theorem failed_creation_leaves_nothing_witness:
  "\<exists>s'. register_actor one_framework failing_user 8 0 0 0 5 (sys_init\<lparr>m_running := True\<rparr>) = Some (Some (Other_exn 3), s')
     \<and> m_state (s_actors s' 5) = AS_stopped"
proof -
  let ?s = "sys_init\<lparr>m_running := True\<rparr>"
  let ?l = "list_actor 8 5 (prepare_actor 5 ?s)"
  have "callbacks_observe failing_user" using idle_user_observes by (simp add: failing_user_def callbacks_observe_def)
  moreover have nf: "\<not> m_started (s_actors ?l 5)" "mailboxes ?l 5 = mailbox_init"
    by (simp_all add: list_actor_def assign_thread_def prepare_actor_def concrete_state assign_default_name_def publish_name_def
        Let_def ensure_workers_def mailboxes_def)
  moreover have "run_on_start failing_user 0 5 ?l = (Inl (Other_exn 3), snd (run_on_start failing_user 0 5 ?l))"
    "mailbox_inv (mailboxes (snd (run_on_start failing_user 0 5 ?l)) 5)"
    using nf by (simp_all add: run_on_start_def failing_user_def Let_def upd_actor_def set_context_def mailboxes_def
        mailbox_inv_def mailbox_caches_ok_def mailbox_init_def lane_defs)
  ultimately show ?thesis
    using failed_creation_leaves_nothing [of failing_user ?s 0 5 8 "Other_exn 3" "snd (run_on_start failing_user 0 5 ?l)"
        one_framework 0 0] by auto
qed


end
