(* ===== verification/Fast_Actor.thy ===== *)
theory Fast_Actor
  imports Actor_Lifecycle
begin

text \<open>
  Actors with a thread of their own (include/cas/fast_actor.h, source/fast_actor.cpp).

  \<^item> \<open>run_dedicated_thread\<close> and \<open>run_dedicated_thread_started\<close> are the body of that thread. Other threads act
    between its iterations: \<open>env n\<close> is what they do to the state before iteration \<open>n + 1\<close>, any function.
    \<open>clk n\<close> is the time read in iteration \<open>n\<close>.
  \<^item> The loop may run for ever, so it is a partial function: \<open>None\<close> says that it does not return.
  \<^item> \<open>wait_for_work\<close> of the base class changes no state; \<open>idle_step\<close> says how often it pauses the processor
    and whether it yields. The relay has its own \<open>wait_for_work\<close> (theory \<open>Relay\<close>).
\<close>

section \<open>Polling\<close>

datatype polling_strategy = PS_yield | PS_hybrid | PS_busy_wait

record polling =
  m_polling_strategy :: polling_strategy
  m_spin_count :: int

definition polling_init :: polling where
  "polling_init = \<lparr>m_polling_strategy = PS_yield, m_spin_count = 100\<rparr>"

definition set_polling_strategy :: "polling_strategy \<Rightarrow> polling \<Rightarrow> polling" where
  "set_polling_strategy strategy p = p\<lparr>m_polling_strategy := strategy\<rparr>"

definition set_spin_count :: "int \<Rightarrow> polling \<Rightarrow> polling" where
  "set_spin_count n p = p\<lparr>m_spin_count := n\<rparr>"

text \<open>The spin of the hybrid strategy: \<open>busy i\<close> is what \<open>has_messages()\<close> answers at its \<open>i\<close>-th check, \<open>busy_after\<close> at
  the check that follows it.\<close>

fun spin_pauses :: "(nat \<Rightarrow> bool) \<Rightarrow> nat \<Rightarrow> nat \<Rightarrow> nat" where
  "spin_pauses busy i 0 = i"
| "spin_pauses busy i (Suc left) = (if busy i then i else spin_pauses busy (Suc i) left)"

definition idle_step :: "(nat \<Rightarrow> bool) \<Rightarrow> bool \<Rightarrow> polling \<Rightarrow> nat \<times> bool" where
  "idle_step busy busy_after p =
     (case m_polling_strategy p of
        PS_yield \<Rightarrow> (0, True)
      | PS_hybrid \<Rightarrow> (spin_pauses busy 0 (nat (m_spin_count p)), \<not> busy_after)
      | PS_busy_wait \<Rightarrow> (1, False))"

section \<open>The dedicated thread\<close>

definition process_in_context ::
  "framework \<Rightarrow> user_code \<Rightarrow> thread_id \<Rightarrow> time_point \<Rightarrow> actor_ptr \<Rightarrow> sys \<Rightarrow> sys option" where
  "process_in_context fw user tid now a s =
     map_option (\<lambda>(_, s1). set_context tid None s1)
       (process_next_message fw user tid now a (set_context tid (Some a) s))"

partial_function (option) drain_at_shutdown ::
  "framework \<Rightarrow> user_code \<Rightarrow> (nat \<Rightarrow> sys \<Rightarrow> sys) \<Rightarrow> (nat \<Rightarrow> time_point) \<Rightarrow> nat \<Rightarrow> thread_id \<Rightarrow> actor_ptr \<Rightarrow> sys \<Rightarrow> sys option" where
  "drain_at_shutdown fw user env clk n tid a s =
     (if has_messages (s_actors s a)
      then (case process_in_context fw user tid (clk n) a s of
              None \<Rightarrow> None
            | Some s1 \<Rightarrow> drain_at_shutdown fw user env clk (Suc n) tid a (env n s1))
      else Some s)"

partial_function (option) run_dedicated_thread_started ::
  "framework \<Rightarrow> user_code \<Rightarrow> (nat \<Rightarrow> sys \<Rightarrow> sys) \<Rightarrow> (nat \<Rightarrow> time_point) \<Rightarrow> nat \<Rightarrow> thread_id \<Rightarrow> actor_ptr \<Rightarrow> sys \<Rightarrow> sys option" where
  "run_dedicated_thread_started fw user env clk n tid a s =
     (if m_stop_phase (s_actors s a) = SP_requested then
        (case service_stop_request fw user tid (clk n) a s of
           None \<Rightarrow> None
         | Some (done, s1) \<Rightarrow>
             if done then Some s1
             else
               (case process_next_message fw user tid (clk n) a s1 of
                  None \<Rightarrow> None
                | Some (_, s2) \<Rightarrow> run_dedicated_thread_started fw user env clk (Suc n) tid a (env n s2)))
      else if m_stop_phase (s_actors s a) = SP_system_shutdown then
        map_option (run_stop_hook user tid a SH_on_stop) (drain_at_shutdown fw user env clk n tid a s)
      else if has_messages (s_actors s a) then
        (case process_in_context fw user tid (clk n) a s of
           None \<Rightarrow> None
         | Some s1 \<Rightarrow> run_dedicated_thread_started fw user env clk (Suc n) tid a (env n s1))
      else run_dedicated_thread_started fw user env clk (Suc n) tid a (env n s))"

text \<open>An exception of \<open>on_start\<close> on this thread is reported and then ends the process.\<close>

datatype thread_end = Thread_returns sys | Process_terminates sys

definition run_dedicated_thread ::
  "framework \<Rightarrow> user_code \<Rightarrow> (nat \<Rightarrow> sys \<Rightarrow> sys) \<Rightarrow> (nat \<Rightarrow> time_point) \<Rightarrow> thread_id \<Rightarrow> actor_ptr \<Rightarrow> sys \<Rightarrow> thread_end option" where
  "run_dedicated_thread fw user env clk tid a s =
     (case run_on_start user tid a s of
        (Inl e, s1) \<Rightarrow> Some (Process_terminates (report_actor_exception user a TI_void 0 ''on_start'' e EA_stop s1))
      | (Inr _, s1) \<Rightarrow> map_option Thread_returns (run_dedicated_thread_started fw user env clk 0 tid a s1))"

section \<open>Idle iterations\<close>

lemma idle_iterations:
  assumes "\<And>i. i < k \<Longrightarrow> m_stop_phase (s_actors (monitor_run env n i s) a) = SP_none
    \<and> \<not> has_messages (s_actors (monitor_run env n i s) a)"
  shows "run_dedicated_thread_started fw user env clk n tid a s
    = run_dedicated_thread_started fw user env clk (n + k) tid a (monitor_run env n k s)"
  using assms
proof (induction k arbitrary: n s)
  case (Suc k)
  have "run_dedicated_thread_started fw user env clk n tid a s
      = run_dedicated_thread_started fw user env clk (Suc n) tid a (env n s)"
    using Suc.prems [of 0] by (subst run_dedicated_thread_started.simps) simp
  also have "\<dots> = run_dedicated_thread_started fw user env clk (Suc n + k) tid a (monitor_run env (Suc n) k (env n s))"
    by (rule Suc.IH) (use Suc.prems in force)
  finally show ?case by simp
qed simp

lemma service_stop_request_completes:
  assumes obs: "callbacks_observe user" and hooks: "hooks_respect user a" and fw: "fw = framework_of user clk (Suc depth)"
    and st: "m_state (s_actors s a) = AS_stopping" and kinds: "\<And>b. \<not> runs_inline (s_actors s b)"
    and inv: "mailbox_inv (mailboxes s a)" and own: "m_stop_executor (s_actors s a) \<in> {None, Some tid}"
    and over: "m_stop_discard (s_actors s a) \<or> \<not> has_messages (s_actors s a) \<or> m_stop_drain_deadline (s_actors s a) \<le> now"
  shows "\<exists>s'. service_stop_request fw user tid now a s = Some (True, s') \<and> m_state (s_actors s' a) = AS_stopped
    \<and> mailbox_closed (mailboxes s' a) \<and> queued (mailboxes s' a) = []"
proof -
  obtain s2 where s2: "service_stop fw user tid now a s = map_option (\<lambda>s3. (True, s3)) (finish_stop fw user tid a s2)"
    "m_state (s_actors s2 a) = AS_stopping" "mailbox_inv (mailboxes s2 a)" "\<And>b. a_kind (s_actors s2 b) = a_kind (s_actors s b)"
    using service_stop_claimed [OF obs st inv own over] by blast
  have "m_state (s_actors s2 a) \<noteq> AS_running" "\<not> runs_inline (s_actors s2 b)" for b
    using s2(2) kinds [of b] runs_inline_cong [OF s2(4), of b] by simp_all
  from finish_stop_returns [OF obs hooks fw this s2(3), of tid] obtain s3 where
    s3: "finish_stop fw user tid a s2 = Some s3" "m_state (s_actors s3 a) = AS_stopped"
      "mailbox_closed (mailboxes s3 a)" "queued (mailboxes s3 a) = []" by blast
  have "m_state (s_actors (drop_held user a s3) a) = AS_stopped" "mailboxes (drop_held user a s3) = mailboxes s3"
    by (simp_all add: s3(2) drop_held_frame(1) [OF obs, unfolded frame_def] drop_held_frame(2) [OF obs])
  with s3 s2(1) show ?thesis by (simp add: service_stop_request_def)
qed

section \<open>Property\<close>

text \<open>
  Property C30. The thread of a fast actor obeys a stop: however long it has polled an empty mailbox, when another
  thread has requested the stop of the actor, and the stop is in discard mode, no message is left or the
  drain deadline has passed, the loop ends in that very iteration, with the actor stopped and its
  mailbox closed and empty. (When \<open>on_start\<close> throws on this thread, the loop is never entered: the exception is
  reported and the process terminates.)
\<close>

theorem fast_thread_stops:
  assumes idle: "\<And>i. i < k \<Longrightarrow> m_stop_phase (s_actors (monitor_run env 0 i s) a) = SP_none
      \<and> \<not> has_messages (s_actors (monitor_run env 0 i s) a)"
    and t: "t = monitor_run env 0 k s" and requested: "m_stop_phase (s_actors t a) = SP_requested"
    and "callbacks_observe user" "hooks_respect user a" "fw = framework_of user clk (Suc depth)"
    "m_state (s_actors t a) = AS_stopping" "\<And>b. \<not> runs_inline (s_actors t b)" "mailbox_inv (mailboxes t a)"
    "m_stop_executor (s_actors t a) \<in> {None, Some tid}"
    "m_stop_discard (s_actors t a) \<or> \<not> has_messages (s_actors t a) \<or> m_stop_drain_deadline (s_actors t a) \<le> clk k"
  shows "(\<exists>s'. run_dedicated_thread_started fw user env clk 0 tid a s = Some s' \<and> m_state (s_actors s' a) = AS_stopped
      \<and> mailbox_closed (mailboxes s' a) \<and> queued (mailboxes s' a) = [])
    \<and> (\<forall>e s1. run_on_start user tid a s = (Inl e, s1) \<longrightarrow>
        run_dedicated_thread fw user env clk tid a s
          = Some (Process_terminates (report_actor_exception user a TI_void 0 ''on_start'' e EA_stop s1)))"
proof -
  have "run_dedicated_thread_started fw user env clk 0 tid a s = run_dedicated_thread_started fw user env clk k tid a t"
    using idle_iterations [of k env 0 s a] idle t by simp
  moreover obtain s' where "service_stop_request fw user tid (clk k) a t = Some (True, s')"
    "m_state (s_actors s' a) = AS_stopped" "mailbox_closed (mailboxes s' a)" "queued (mailboxes s' a) = []"
    using service_stop_request_completes [OF assms(4-11)] by blast
  moreover from this(1) have "run_dedicated_thread_started fw user env clk k tid a t = Some s'"
    using requested by (subst run_dedicated_thread_started.simps) simp
  ultimately show ?thesis by (auto simp: run_dedicated_thread_def)
qed

section \<open>Witness\<close>

definition requests_stop :: "nat \<Rightarrow> sys \<Rightarrow> sys" where
  "requests_stop n = upd_actor 3 (\<lambda>A. A\<lparr>m_state := AS_stopping, m_stop_phase := SP_requested\<rparr>)"

theorem fast_thread_stops_witness:
  "\<exists>s'. run_dedicated_thread_started (framework_of idle_user (\<lambda>_. 0) 1) idle_user requests_stop (\<lambda>_. 0) 0 7 3 sys_init = Some s'
     \<and> m_state (s_actors s' 3) = AS_stopped"
proof -
  have t: "requests_stop 0 sys_init = monitor_run requests_stop 0 1 sys_init" by simp
  have hooks: "hooks_respect idle_user 3" by (simp add: hooks_respect_def idle_user_def)
  have idle: "m_stop_phase (s_actors (monitor_run requests_stop 0 i sys_init) 3) = SP_none
      \<and> \<not> has_messages (s_actors (monitor_run requests_stop 0 i sys_init) 3)" if "i < 1" for i
    using that by (simp add: concrete_state has_messages_def runs_inline_def is_stateful_def mailbox_size_def call_size_def other_size_def)
  have asked: "m_stop_phase (s_actors (requests_stop 0 sys_init) 3) = SP_requested"
    "m_state (s_actors (requests_stop 0 sys_init) 3) = AS_stopping" "\<And>b. \<not> runs_inline (s_actors (requests_stop 0 sys_init) b)"
    "mailbox_inv (mailboxes (requests_stop 0 sys_init) 3)"
    "m_stop_executor (s_actors (requests_stop 0 sys_init) 3) \<in> {None, Some 7}"
    "m_stop_drain_deadline (s_actors (requests_stop 0 sys_init) 3) \<le> 0"
    by (simp_all add: requests_stop_def concrete_state mailboxes_def mailbox_inv_def mailbox_caches_ok_def lane_defs runs_inline_def)
  show ?thesis
    using fast_thread_stops [where clk = "\<lambda>_. 0", OF idle t asked(1) idle_user_observes hooks refl asked(2-5), of 0] asked(6) by auto
qed

end
