(* ===== verification/Actor_Ref.thy ===== *)
theory Actor_Ref
  imports Actor_Execution
begin

text \<open>
  Handles to actors (include/cas/actor_ref.h, include/cas/actor_ref_impl.h, source/actor_ref.cpp). A reference is an actor or
  \<open>None\<close>. \<open>tell\<close> and the part of \<open>call\<close> up to the wait are in \<open>Actor_Dispatch\<close>, which needs them; here are the waits for
  the result, without and with a timeout, and the rest of the class.

  While a caller waits, other threads act: \<open>env n\<close> is what they do to the state between its \<open>n\<close>-th look at the
  future and the next. A wait that never ends is \<open>None\<close>. \<open>clk n\<close> is the time of the \<open>n\<close>-th look.
\<close>

section \<open>Handles\<close>

definition is_valid :: "actor_ptr option \<Rightarrow> bool" where
  "is_valid ref \<longleftrightarrow> ref \<noteq> None"

definition ref_name :: "actor_ptr option \<Rightarrow> sys \<Rightarrow> string \<times> sys" where
  "ref_name ref s = (case ref of None \<Rightarrow> ([], s) | Some a \<Rightarrow> actor_name a s)"

definition get_actor :: "actor_ptr option \<Rightarrow> actor_ptr option" where
  "get_actor ref = ref"

definition ref_equal :: "actor_ptr option \<Rightarrow> actor_ptr option \<Rightarrow> bool" where
  "ref_equal ref other \<longleftrightarrow> ref = other"

definition ref_reset :: "actor_ptr option \<Rightarrow> actor_ptr option" where
  "ref_reset ref = None"

definition ref_is_running :: "actor_ptr option \<Rightarrow> sys \<Rightarrow> bool" where
  "ref_is_running ref s = (case ref of None \<Rightarrow> False | Some a \<Rightarrow> m_state (s_actors s a) = AS_running)"

text \<open>\<open>push\<close>, \<open>enqueue\<close> and \<open>operator<<\<close> are \<open>tell\<close>.\<close>

definition ref_push ::
  "framework \<Rightarrow> user_code \<Rightarrow> thread_id \<Rightarrow> actor_ptr option \<Rightarrow> message \<Rightarrow> sys \<Rightarrow> (exn option \<times> sys) option" where
  "ref_push fw user tid ref msg s = tell fw user tid ref msg s"

section \<open>Waiting for a result\<close>

definition broken_promise :: exn where
  "broken_promise = Std_exn K_future_error ''Broken promise''"

text \<open>\<open>std::future::get\<close> on a future that is ready.\<close>

definition future_get :: "promise_state \<Rightarrow> exn + nat" where
  "future_get p = (case p of Fulfilled v \<Rightarrow> Inr v | Failed e \<Rightarrow> Inl e | _ \<Rightarrow> Inl broken_promise)"

partial_function (option) await :: "(nat \<Rightarrow> sys \<Rightarrow> sys) \<Rightarrow> nat \<Rightarrow> nat \<Rightarrow> sys \<Rightarrow> ((exn + nat) \<times> sys) option" where
  "await env p n s =
     (if s_promises s p \<noteq> Pending then Some (future_get (s_promises s p), s)
      else await env p (Suc n) (env n s))"

partial_function (option) await_until ::
  "(nat \<Rightarrow> sys \<Rightarrow> sys) \<Rightarrow> (nat \<Rightarrow> time_point) \<Rightarrow> time_point \<Rightarrow> nat \<Rightarrow> nat \<Rightarrow> sys \<Rightarrow> ((exn + nat option) \<times> sys) option" where
  "await_until env clk deadline p n s =
     (if s_promises s p \<noteq> Pending then Some (map_sum id Some (future_get (s_promises s p)), s)
      else if deadline \<le> clk n then Some (Inr None, s)
      else await_until env clk deadline p (Suc n) (env n s))"

definition blocking_call ::
  "framework \<Rightarrow> user_code \<Rightarrow> (nat \<Rightarrow> sys \<Rightarrow> sys) \<Rightarrow> thread_id \<Rightarrow> time_point \<Rightarrow> actor_ptr option \<Rightarrow> message \<Rightarrow> call_payload \<Rightarrow> sys
     \<Rightarrow> ((exn + nat) \<times> sys) option" where
  "blocking_call fw user env tid now ref request c s =
     (case call fw user tid now ref request c s of
        None \<Rightarrow> None
      | Some (Inl e, s1) \<Rightarrow> Some (Inl e, s1)
      | Some (Inr p, s1) \<Rightarrow> await env p 0 s1)"

definition timed_call ::
  "framework \<Rightarrow> user_code \<Rightarrow> (nat \<Rightarrow> sys \<Rightarrow> sys) \<Rightarrow> (nat \<Rightarrow> time_point) \<Rightarrow> millis \<Rightarrow> thread_id \<Rightarrow> actor_ptr option \<Rightarrow> message
     \<Rightarrow> call_payload \<Rightarrow> sys \<Rightarrow> ((exn + nat option) \<times> sys) option" where
  "timed_call fw user env clk timeout tid ref request c s =
     (case ref of
        None \<Rightarrow> Some (Inr None, report_invalid_target user (TI_call_request (op_type c) (ret_type c) (args_type c)) s)
      | Some a \<Rightarrow>
          (case call fw user tid (clk 0) (Some a) request c s of
             None \<Rightarrow> None
           | Some (Inl e, s1) \<Rightarrow> Some (Inl e, s1)
           | Some (Inr p, s1) \<Rightarrow> await_until env clk (clk 0 + timeout) p 0 s1))"

section \<open>A call that reaches its actor\<close>

definition call_message :: "actor_ptr option \<Rightarrow> uint64 \<Rightarrow> message \<Rightarrow> call_payload \<Rightarrow> message" where
  "call_message who mid request c = request\<lparr>sender := who, message_id := mid, body := Call_request c\<rparr>"

lemma call_message_simps [simp]: "body (call_message who mid request c) = Call_request c" "is_call (call_message who mid request c)"
  "cas_framework_kind (call_message who mid request c) = FK_call_request"
  by (simp_all add: call_message_def is_call_def cas_framework_kind_def)

lemma check_call_allowed_state: "fst (check_call_allowed tid a s) = None \<Longrightarrow> check_call_allowed tid a s = (None, s)"
  by (auto simp: check_call_allowed_def Let_def case_prod_beta split: if_splits)

lemma call_enqueues:
  assumes "fst (check_call_allowed tid a s) = None" and "self_ref tid s = Inr who" and "\<not> runs_inline (s_actors s a)"
  shows "call fw user tid now (Some a) request c s = Some (Inr (promise_id c),
     send user True a (call_message who (m_next_message_id s) request c) (s\<lparr>m_next_message_id := m_next_message_id s + 1\<rparr>))"
proof -
  have "runs_inline (s_actors (s\<lparr>m_next_message_id := x\<rparr>) a) = runs_inline (s_actors s a)" for x
    by (simp add: runs_inline_def)
  then show ?thesis
    using assms check_call_allowed_state [OF assms(1)]
    by (simp add: call_def next_message_id_def Let_def actor_enqueue_call_def send_def call_message_def)
qed

lemma accepted_call_state:
  assumes "accepting s a" and s': "s' = send user True a msg s"
  shows "mailboxes s' a = snd (mailbox_push msg (mailboxes s a))" "s_promises s' = s_promises s"
    "a_kind (s_actors s' a) = a_kind (s_actors s a)" "m_call_handlers (s_actors s' a) = m_call_handlers (s_actors s a)"
  using assms mailbox_push_result [of msg "m_mailbox (s_actors s a)"]
  by (auto simp: s' send_def enqueue_call_message_def accepting_def mailboxes_def Let_def case_prod_beta upd_actor_def schedule_def)

lemma drop_call_breaks:
  assumes "callbacks_observe user" and "body msg = Call_request c" and "s_promises s (promise_id c) = Pending"
  shows "s_promises (drop_message user a msg st True s) (promise_id c) = Broken"
proof -
  obtain n s1 where n: "actor_name a s = (n, s1)" by (cases "actor_name a s") auto
  note q = quiet_fields [OF report_dead_letter_quiet [OF assms(1), of True s1 n msg st]]
  have "s_promises (report_dead_letter user n msg st True s1) = s_promises s"
    using q actor_name_frame(4) [of a s] by (simp add: n count_dead_letter_def)
  then show ?thesis using assms by (simp add: drop_message_def n destroy_message_def)
qed

lemma rejected_call_breaks:
  assumes "callbacks_observe user" and "\<not> accepting s a" and "body msg = Call_request c" and "s_promises s (promise_id c) = Pending"
  shows "s_promises (send user True a msg s) (promise_id c) = Broken"
proof (cases "m_state (s_actors s a) = AS_running")
  case True
  with assms(2) have "mailbox_push msg (m_mailbox (s_actors s a)) = (PR_closed, m_mailbox (s_actors s a))"
    by (intro mailbox_push_closed) (simp add: accepting_def mailboxes_def)
  with True assms drop_call_breaks [of user msg c "upd_actor a (\<lambda>A. A\<lparr>m_mailbox := m_mailbox (s_actors s a)\<rparr>) s" a] show ?thesis
    by (simp add: send_def enqueue_call_message_def upd_actor_def)
next
  case False
  with assms show ?thesis by (simp add: send_def enqueue_call_message_def Let_def drop_call_breaks)
qed

lemma call_process_result:
  assumes "m_call_handlers (s_actors s a) (op_type c) = Some entry" "entry_result_type entry = ret_type c"
    "entry_args_type entry = args_type c"
  shows "future_get (s_promises (call_process user a c s) (promise_id c)) = fst (uc_call_handler user (entry_invoke entry) a (call_args c) s)"
    and "s_promises (call_process user a c s) (promise_id c) \<noteq> Pending"
  using assms by (auto simp: call_process_def settle_def future_get_def case_prod_beta split: sum.split prod.split)

text \<open>The turn of the executing thread that takes one message.\<close>

definition one_turn :: "framework \<Rightarrow> user_code \<Rightarrow> thread_id \<Rightarrow> time_point \<Rightarrow> actor_ptr \<Rightarrow> nat \<Rightarrow> sys \<Rightarrow> sys" where
  "one_turn fw user tid now a n s = (case process_next_message fw user tid now a s of Some (_, s') \<Rightarrow> s' | None \<Rightarrow> s)"

lemma turn_answers_call:
  assumes plain: "\<not> runs_inline (s_actors s a)" "\<not> is_stateful (s_actors s a)"
    and pop: "mailbox_pop (m_mailbox (s_actors s a)) = (Some msg, mb)" and msg: "body msg = Call_request c"
    and entry: "m_call_handlers (s_actors s a) (op_type c) = Some entry" "entry_result_type entry = ret_type c"
      "entry_args_type entry = args_type c"
    and t: "t = set_context tid (Some a) (upd_actor a (\<lambda>A. A\<lparr>m_mailbox := mb\<rparr>) s)"
  shows "future_get (s_promises (one_turn fw user tid now a n s) (promise_id c)) = fst (uc_call_handler user (entry_invoke entry) a (call_args c) t)"
    and "s_promises (one_turn fw user tid now a n s) (promise_id c) \<noteq> Pending"
proof -
  have "m_call_handlers (s_actors t a) (op_type c) = Some entry" using entry t by (simp add: set_context_def upd_actor_def)
  note r = call_process_result [OF this entry(2,3), of user]
  have "process_next_message fw user tid now a s
      = Some (None, destroy_message msg (set_context tid (current_actor_context s tid) (call_process user a c t)))"
    using plain pop msg t
    by (simp add: process_next_message_def run_message_def dispatch_message_def cas_framework_kind_def upd_actor_def)
  then have "s_promises (one_turn fw user tid now a n s) (promise_id c) = s_promises (call_process user a c t) (promise_id c)"
    using r(2) msg by (simp add: one_turn_def destroy_message_def set_context_def)
  with r show "future_get (s_promises (one_turn fw user tid now a n s) (promise_id c)) = fst (uc_call_handler user (entry_invoke entry) a (call_args c) t)"
    "s_promises (one_turn fw user tid now a n s) (promise_id c) \<noteq> Pending" by simp_all
qed

lemma await_until_returns:
  assumes "deadline \<le> clk (n + k)"
  shows "await_until env clk deadline p n s \<noteq> None"
  using assms
proof (induction k arbitrary: n s)
  case 0
  then show ?case by (subst await_until.simps) (simp del: not_None_eq)
next
  case (Suc k)
  then have "await_until env clk deadline p (Suc n) (env n s) \<noteq> None" by simp
  then show ?case by (subst await_until.simps) (simp del: not_None_eq)
qed

lemma await_until_timeout:
  assumes "await_until env clk deadline p n s = Some (Inr None, s')"
  shows "s_promises s' p = Pending"
proof -
  have "fst y = Inr None \<longrightarrow> s_promises (snd y) p = Pending" if "await_until env clk deadline p n s = Some y" for y
  proof (rule await_until.raw_induct [OF _ that, where P = "\<lambda>env clk deadline p n s y. fst y = Inr None \<longrightarrow> s_promises (snd y) p = Pending"])
    fix f :: "(nat \<Rightarrow> sys \<Rightarrow> sys) \<Rightarrow> (nat \<Rightarrow> time_point) \<Rightarrow> time_point \<Rightarrow> nat \<Rightarrow> nat \<Rightarrow> sys \<Rightarrow> ((exn + nat option) \<times> sys) option"
    fix env clk deadline p n s y
    assume "\<And>env clk deadline p n s y. f env clk deadline p n s = Some y \<Longrightarrow> fst y = Inr None \<longrightarrow> s_promises (snd y) p = Pending"
      and "(if s_promises s p \<noteq> Pending then Some (map_sum id Some (future_get (s_promises s p)), s)
        else if deadline \<le> clk n then Some (Inr None, s) else f env clk deadline p (Suc n) (env n s)) = Some y"
    then show "fst y = Inr None \<longrightarrow> s_promises (snd y) p = Pending"
      by (cases "future_get (s_promises s p)") (auto split: if_splits)
  qed
  from this [OF assms] show ?thesis by simp
qed

lemma accepted_call_returns:
  assumes allowed: "fst (check_call_allowed tid a s) = None" "self_ref tid s = Inr who" "\<not> runs_inline (s_actors s a)"
    and pending: "s_promises s (promise_id c) = Pending"
    and acc: "accepting s a" "\<not> is_stateful (s_actors s a)" "mailbox_inv (mailboxes s a)" "call_lane (mailboxes s a) = []"
      "Suc (length (queued (mailboxes s a))) < 2 ^ 64"
    and entry: "m_call_handlers (s_actors s a) (op_type c) = Some entry" "entry_result_type entry = ret_type c"
      "entry_args_type entry = args_type c"
  shows "\<exists>t s'. blocking_call fw user (one_turn fw user tid' now' a) tid now (Some a) request c s
        = Some (fst (uc_call_handler user (entry_invoke entry) a (call_args c) t), s')
      \<and> queued (mailboxes t a) = queued (mailboxes s a)"
proof -
  let ?s = "s\<lparr>m_next_message_id := m_next_message_id s + 1\<rparr>"
  let ?msg = "call_message who (m_next_message_id s) request c"
  define s1 where "s1 = send user True a ?msg ?s"
  have same: "mailboxes ?s = mailboxes s" "accepting ?s a = accepting s a" by (simp_all add: mailboxes_def accepting_def fun_eq_iff)
  have call: "call fw user tid now (Some a) request c s = Some (Inr (promise_id c), s1)"
    using call_enqueues [OF allowed] by (simp add: s1_def)
  note st = accepted_call_state [where s = ?s, OF _ s1_def, unfolded same, OF acc(1)]
  have box: "mailboxes s1 a = snd (mailbox_push ?msg (mailboxes s a))" by (rule st(1))
  have lanes: "call_lane (mailboxes s1 a) = [?msg]" "other_lane_of (mailboxes s1 a) = other_lane_of (mailboxes s a)"
    using mailbox_push_lanes [of "mailboxes s a" ?msg] acc(1,4) by (simp_all add: box accepting_def)
  have "mailbox_inv (mailboxes s1 a)" using mailbox_push_inv [OF acc(3,5)] by (simp add: box)
  note p = mailbox_pop_call [OF this lanes(1)]
  define mb where "mb = snd (mailbox_pop (mailboxes s1 a))"
  define t where "t = set_context tid' (Some a) (upd_actor a (\<lambda>A. A\<lparr>m_mailbox := mb\<rparr>) s1)"
  have pop: "mailbox_pop (m_mailbox (s_actors s1 a)) = (Some ?msg, mb)" using p(1) by (simp add: mb_def mailboxes_def prod_eq_iff)
  have plain: "\<not> runs_inline (s_actors s1 a)" "\<not> is_stateful (s_actors s1 a)"
    using st(3) acc(2) allowed(3) by (simp_all add: runs_inline_def is_stateful_def)
  note r = turn_answers_call [OF plain pop call_message_simps(1) _ entry(2,3) t_def]
  have "future_get (s_promises (one_turn fw user tid' now' a 0 s1) (promise_id c)) = fst (uc_call_handler user (entry_invoke entry) a (call_args c) t)"
    "s_promises (one_turn fw user tid' now' a 0 s1) (promise_id c) \<noteq> Pending"
    using r st(4) entry(1) by simp_all
  then have "blocking_call fw user (one_turn fw user tid' now' a) tid now (Some a) request c s
      = Some (fst (uc_call_handler user (entry_invoke entry) a (call_args c) t), one_turn fw user tid' now' a 0 s1)"
    using st(2) pending by (simp add: blocking_call_def call) (subst await.simps, simp, subst await.simps, simp)
  moreover have "queued (mailboxes t a) = queued (mailboxes s a)"
    using p(2,3) lanes acc(4) by (simp add: t_def set_context_def upd_actor_def mailboxes_def queued_def mb_def)
  ultimately show ?thesis by blast
qed

lemma rejected_call_returns:
  assumes allowed: "fst (check_call_allowed tid a s) = None" "self_ref tid s = Inr who" "\<not> runs_inline (s_actors s a)"
    and pending: "s_promises s (promise_id c) = Pending" and rej: "\<not> accepting s a" and obs: "callbacks_observe user"
  shows "\<exists>s'. blocking_call fw user env tid now (Some a) request c s = Some (Inl broken_promise, s')"
proof -
  let ?s = "s\<lparr>m_next_message_id := m_next_message_id s + 1\<rparr>"
  define s1 where "s1 = send user True a (call_message who (m_next_message_id s) request c) ?s"
  have call: "call fw user tid now (Some a) request c s = Some (Inr (promise_id c), s1)"
    using call_enqueues [OF allowed] by (simp add: s1_def)
  have "accepting ?s a = accepting s a" by (simp add: accepting_def mailboxes_def)
  then have "s_promises s1 (promise_id c) = Broken"
    using rejected_call_breaks [OF obs, where s = ?s and a = a and c = c] rej pending by (simp add: s1_def)
  then show ?thesis by (simp add: blocking_call_def call) (subst await.simps, simp add: future_get_def)
qed

section \<open>Properties\<close>



section \<open>Witnesses\<close>



end
