(* ===== verification/Actor_Views.thy ===== *)
theory Actor_Views
  imports Actor_Execution
begin

text \<open>
  What the bookkeeping of the framework cannot change. Between two changes that matter to a client (a push into a mailbox, an entry on a ready
  queue, a change of state) the framework counts, reports, names, times and watches. The locale
  \<open>report_view\<close> takes a view of the system that does not show counters, reports and names, and proves once for every operation that
  only keeps those books that the view stays, and for a send to which step of the view it amounts; \<open>bookkeeping_view\<close> adds
  timers and watches.

  Three views of the model interpret them: \<open>dispatch_view\<close>, what decides which user code runs (here), \<open>sched_view\<close>, what the
  scheduler sees (theory \<open>Worker\<close>), and \<open>core_view\<close>, what the invariants of the components speak of (theory \<open>System_Invariants\<close>).
\<close>

section \<open>Views\<close>

text \<open>
  An enqueue amounts to a push into the mailbox, and to a call of \<open>schedule\<close> if that push unblocked it.
\<close>

definition push_step :: "actor_ptr \<Rightarrow> message \<Rightarrow> sys \<Rightarrow> sys" where
  "push_step a msg s =
     (let (pushed, mb) = mailbox_push msg (m_mailbox (s_actors s a)); s1 = upd_actor a (\<lambda>A. A\<lparr>m_mailbox := mb\<rparr>) s
      in if pushed = PR_unblocked then schedule a s1 else s1)"

locale report_view =
  fixes view :: "sys \<Rightarrow> 'v"
  assumes view_stderr: "view (s\<lparr>s_stderr := err, m_handler_exceptions := n\<rparr>) = view s"
    and view_dead_letters: "view (s\<lparr>m_dead_letter_tell := n\<rparr>) = view s" "view (s\<lparr>m_dead_letter_ask := n\<rparr>) = view s"
    and view_promises: "view (s\<lparr>s_promises := p\<rparr>) = view s"
    and view_next_id: "view (s\<lparr>m_next_message_id := i\<rparr>) = view s"
    and view_registry: "view (s\<lparr>s_registry := reg\<rparr>) = view s"
    and view_lists: "view (s\<lparr>m_actors_per_thread := apt\<rparr>) = view s"
    and view_context: "view (s\<lparr>current_actor_context := ctx\<rparr>) = view s"
    and view_names: "view (upd_actor a (\<lambda>A. A\<lparr>m_names := nm # m_names A, m_name := Some nm\<rparr>) s) = view s"
    and view_marks: "view (upd_actor a (update_high_water_marks x y) s) = view s"
      "view (upd_actor a (\<lambda>A. A\<lparr>m_call_queue_high_water_mark := raise_to (m_call_queue_high_water_mark A) x,
          m_total_high_water_mark := raise_to (m_total_high_water_mark A) y\<rparr>) s) = view s"
    and view_warning: "view (upd_actor a (\<lambda>A. A\<lparr>m_threshold_warning_sent := b\<rparr>) s) = view s"
    and view_schedule: "view s = view t \<Longrightarrow> view (schedule a s) = view (schedule a t)"
begin

lemma view_quiet: "quiet s s' \<Longrightarrow> view s' = view s"
  using view_stderr by (auto simp: quiet_def)

lemma view_actor_name: "view (snd (actor_name a s)) = view s"
  by (simp add: actor_name_def assign_default_name_def publish_name_def view_names Let_def split: option.split)

lemma view_destroy: "view (destroy_message msg s) = view s"
  by (simp add: destroy_message_def view_promises split: message_body.split)

lemma view_set_context: "view (set_context tid c s) = view s"
  by (simp add: set_context_def view_context)

lemma view_report:
  assumes "callbacks_observe user"
  shows "view (report_dead_letter user n msg st c s) = view s"
  using view_quiet [OF report_dead_letter_quiet [OF assms, of c s n msg st]]
  by (simp add: count_dead_letter_def view_dead_letters split: if_splits)

lemma view_rejected:
  assumes "callbacks_observe user"
  shows "view (report_rejected user a msg c s) = view s"
  by (simp add: report_rejected_def case_prod_beta view_report [OF assms] view_actor_name)

lemma view_drop:
  assumes "callbacks_observe user"
  shows "view (drop_message user a msg st c s) = view s"
  by (simp add: drop_message_def case_prod_beta view_destroy view_report [OF assms] view_actor_name)

lemma view_exception:
  assumes "callbacks_observe user"
  shows "view (report_actor_exception user a t i src e act s) = view s"
  using view_quiet [OF report_exception_quiet [OF assms]] by (simp add: report_actor_exception_def case_prod_beta view_actor_name)

lemma view_threshold:
  assumes "callbacks_observe user"
  shows "view (check_threshold user a n s) = view s"
  by (simp add: check_threshold_def Let_def case_prod_beta view_quiet [OF report_threshold_quiet [OF assms]] view_actor_name view_warning)

lemma view_unregister: "view (unregister_own_name a s) = view s"
  by (simp add: unregister_own_name_def case_prod_beta Let_def view_registry view_actor_name)

lemma view_unlist: "view (unlist_actor a s) = view s"
  by (simp add: unlist_actor_def Let_def view_lists)

lemma view_send:
  assumes "callbacks_observe user"
  shows "view (send user as_call a msg s) = (if m_state (s_actors s a) = AS_running then view (push_step a msg s) else view s)"
proof (cases "m_state (s_actors s a) = AS_running")
  case False
  then show ?thesis
    by (simp add: send_def enqueue_message_def enqueue_call_message_def Let_def view_drop [OF assms])
next
  case True
  obtain pushed mb where p: "mailbox_push msg (m_mailbox (s_actors s a)) = (pushed, mb)" by fastforce
  define s1 where "s1 = upd_actor a (\<lambda>A. A\<lparr>m_mailbox := mb\<rparr>) s"
  define s2 where "s2 = (if as_call
     then upd_actor a (\<lambda>A. A\<lparr>m_call_queue_high_water_mark := raise_to (m_call_queue_high_water_mark A) (call_size mb),
            m_total_high_water_mark := raise_to (m_total_high_water_mark A) (call_size mb + other_size mb)\<rparr>) s1
     else check_threshold user a (other_size mb + call_size mb)
            (upd_actor a (update_high_water_marks (other_size mb) (other_size mb + call_size mb)) s1))"
  have v: "view s2 = view s1" by (simp add: s2_def view_marks view_threshold [OF assms])
  have "send user as_call a msg s = (if pushed = PR_closed then drop_message user a msg (m_state (s_actors s1 a)) as_call s1
      else if pushed = PR_unblocked then schedule a s2 else s2)"
    using True p by (simp add: send_def enqueue_message_def enqueue_call_message_def Let_def s1_def s2_def)
  moreover have "push_step a msg s = (if pushed = PR_unblocked then schedule a s1 else s1)"
    using p by (simp add: push_step_def s1_def)
  ultimately show ?thesis
    using True v view_schedule [OF v] by (cases pushed) (simp_all add: view_drop [OF assms])
qed

end

text \<open>A view that does not show timers and watches either.\<close>

locale bookkeeping_view = report_view view for view :: "sys \<Rightarrow> 'v" +
  assumes view_timers: "view (s\<lparr>m_timer_manager := tm\<rparr>) = view s"
    and view_watches: "view (s\<lparr>m_watchers := ws, m_watching := wg\<rparr>) = view s"
    and view_active_timers: "view (upd_actor a (\<lambda>A. A\<lparr>m_active_timers := ts\<rparr>) s) = view s"
begin

lemma view_cancel_internal: "view (cancel_timer_internal tid s) = view s"
  by (simp add: cancel_timer_internal_def view_timers)

lemma view_cancel_timers: "view (cancel_actor_timers a s) = view s"
proof -
  have "view (fold cancel_timer_internal ts s) = view s" for ts
    by (induction ts arbitrary: s) (simp_all add: view_cancel_internal)
  then show ?thesis by (simp add: cancel_actor_timers_def view_active_timers)
qed

lemma view_remove_watches: "view (snd (remove_watches i s)) = view s"
  by (simp add: remove_watches_def Let_def view_watches)

end

section \<open>What decides which code runs\<close>

definition dispatch_view :: "sys \<Rightarrow> actor_ptr \<Rightarrow> actor_kind \<times> (type_index \<Rightarrow> nat option) \<times> (type_index \<Rightarrow> call_handler_entry option)" where
  "dispatch_view s a = (a_kind (s_actors s a), m_handlers (s_actors s a), m_call_handlers (s_actors s a))"

interpretation dispatch: bookkeeping_view dispatch_view
  by unfold_locales
    (auto simp: dispatch_view_def upd_actor_def update_high_water_marks_def schedule_def Let_def fun_eq_iff)

lemma push_step_dispatch: "dispatch_view (push_step a msg s) = dispatch_view s"
  by (auto simp: push_step_def dispatch_view_def schedule_def upd_actor_def Let_def fun_eq_iff case_prod_beta)

lemma enqueue_keeps_handlers:
  assumes "callbacks_observe user"
  shows "dispatch_view (enqueue_message user a msg s) = dispatch_view s"
  using dispatch.view_send [OF assms, of False a msg s] by (simp add: send_def push_step_dispatch)

end
