(* ===== verification/Actor_Api.thy ===== *)
theory Actor_Api
  imports Actor_Lifecycle Actor_Ref Actor_Views
begin

text \<open>
  What user code calls on its own actor and on the system (include/cas/actor.h, source/actor.cpp,
  include/cas/system.h, include/cas/stateful_actor.h, source/stateful_actor.cpp): registration of handlers and
  call handlers, the accessors, \<open>system::create\<close> and the end of the system. A handler is known by a
  number, its meaning is given by \<open>uc_handler\<close> and \<open>uc_call_handler\<close>.

  Shown: the handler that runs for a message told to an actor is the one registered last for its type.
\<close>

section \<open>Handler registration\<close>

definition handler :: "type_index \<Rightarrow> nat \<Rightarrow> actor \<Rightarrow> actor" where
  "handler mtype callable A = A\<lparr>m_handlers := (m_handlers A)(mtype \<mapsto> callable)\<rparr>"

text \<open>The overload for a member function; the closure over \<open>this\<close> is identified with the method.\<close>

definition handler_method :: "type_index \<Rightarrow> nat \<Rightarrow> actor \<Rightarrow> actor" where
  "handler_method mtype meth A = A\<lparr>m_handlers := (m_handlers A)(mtype \<mapsto> meth)\<rparr>"

text \<open>\<open>args_tuple\<close> is the tuple of the decayed parameter types of the method.\<close>

definition call_handler :: "type_index \<Rightarrow> type_index \<Rightarrow> type_index \<Rightarrow> nat \<Rightarrow> actor \<Rightarrow> actor" where
  "call_handler ret op args_tuple invoke A =
     A\<lparr>m_call_handlers := (m_call_handlers A)(op \<mapsto>
        \<lparr>entry_args_type = args_tuple, entry_result_type = ret, entry_invoke = invoke\<rparr>)\<rparr>"

definition ask_handler :: "type_index \<Rightarrow> type_index \<Rightarrow> type_index \<Rightarrow> nat \<Rightarrow> actor \<Rightarrow> actor" where
  "ask_handler ret op args_tuple invoke A = call_handler ret op args_tuple invoke A"

section \<open>Accessors\<close>

definition get_current_actor :: "thread_id \<Rightarrow> sys \<Rightarrow> actor_ptr option" where
  "get_current_actor tid s = current_actor_context s tid"

definition is_initialising :: "actor \<Rightarrow> bool" where
  "is_initialising A \<longleftrightarrow> m_in_on_start A"

definition instance_id :: "actor \<Rightarrow> size_t" where
  "instance_id A = m_instance_id A"

text \<open>
  \<open>type_name\<close>, from the name \<open>mangled\<close> that \<open>typeid\<close> gives: the two branches of the preprocessor. The demangler of
  the platform is an argument; \<open>None\<close> is its failure.
\<close>

definition type_name :: "bool \<Rightarrow> (string \<Rightarrow> string option) \<Rightarrow> string \<Rightarrow> string" where
  "type_name msvc demangle mangled =
     (if msvc then
        (if take 6 mangled = ''class '' then drop 6 mangled
         else if take 7 mangled = ''struct '' then drop 7 mangled
         else mangled)
      else (case demangle mangled of Some n \<Rightarrow> n | None \<Rightarrow> mangled))"

definition set_self_ref :: "actor_ptr \<Rightarrow> sys \<Rightarrow> sys" where
  "set_self_ref a s = s\<lparr>s_alive := (s_alive s)(a := True)\<rparr>"

definition set_thread_affinity :: "size_t \<Rightarrow> actor \<Rightarrow> actor" where
  "set_thread_affinity thread_id A = A\<lparr>m_assigned_thread_id := thread_id\<rparr>"

definition get_thread_affinity :: "actor \<Rightarrow> size_t" where
  "get_thread_affinity A = m_assigned_thread_id A"

definition set_queue_threshold :: "size_t \<Rightarrow> actor \<Rightarrow> actor" where
  "set_queue_threshold threshold A = A\<lparr>m_queue_threshold := threshold\<rparr>"

definition get_state :: "actor \<Rightarrow> actor_state" where
  "get_state A = m_state A"

definition set_state :: "actor_state \<Rightarrow> actor \<Rightarrow> actor" where
  "set_state new_state A = A\<lparr>m_state := new_state\<rparr>"

definition current_stop_phase :: "actor \<Rightarrow> stop_phase" where
  "current_stop_phase A = m_stop_phase A"

definition mailbox_high_water_mark :: "actor \<Rightarrow> size_t" where
  "mailbox_high_water_mark A = m_mailbox_high_water_mark A"

definition call_queue_high_water_mark :: "actor \<Rightarrow> size_t" where
  "call_queue_high_water_mark A = m_call_queue_high_water_mark A"

definition ask_queue_high_water_mark :: "actor \<Rightarrow> size_t" where
  "ask_queue_high_water_mark A = call_queue_high_water_mark A"

definition total_high_water_mark :: "actor \<Rightarrow> size_t" where
  "total_high_water_mark A = m_total_high_water_mark A"

section \<open>Initialisation scope\<close>

definition enter_on_start :: "thread_id \<Rightarrow> actor_ptr \<Rightarrow> sys \<Rightarrow> actor_ptr option \<times> sys" where
  "enter_on_start tid a s =
     (current_actor_context s tid, upd_actor a (\<lambda>A. A\<lparr>m_in_on_start := True\<rparr>) (set_context tid (Some a) s))"

definition leave_on_start :: "thread_id \<Rightarrow> actor_ptr \<Rightarrow> actor_ptr option \<Rightarrow> sys \<Rightarrow> sys" where
  "leave_on_start tid a prev s = set_context tid prev (upd_actor a (\<lambda>A. A\<lparr>m_in_on_start := False\<rparr>) s)"

section \<open>Selective receive\<close>

definition accept_message_type :: "type_index \<Rightarrow> actor \<Rightarrow> actor" where
  "accept_message_type t A = A\<lparr>m_stash := stash_accept t (m_stash A)\<rparr>"

definition reject_message_type :: "type_index \<Rightarrow> actor \<Rightarrow> actor" where
  "reject_message_type t A = A\<lparr>m_stash := stash_reject t (m_stash A)\<rparr>"

definition accept_all_message_types :: "actor \<Rightarrow> actor" where
  "accept_all_message_types A = A\<lparr>m_stash := stash_accept_all (m_stash A)\<rparr>"

definition reject_all_message_types :: "actor \<Rightarrow> actor" where
  "reject_all_message_types A = A\<lparr>m_stash := stash_reject_all (m_stash A)\<rparr>"

section \<open>Creating actors, and the end of the system\<close>

text \<open>
  \<open>ctor\<close> is what the constructor of the actor class does to the fresh object. Reference counts are not modelled: an
  actor whose creation failed may be kept by a reference that its \<open>on_start\<close> gave away.
\<close>

definition create ::
  "framework \<Rightarrow> user_code \<Rightarrow> size_t \<Rightarrow> thread_id \<Rightarrow> time_point \<Rightarrow> thread_id \<Rightarrow> (actor \<Rightarrow> actor) \<Rightarrow> actor_kind \<Rightarrow> string
     \<Rightarrow> actor_ptr \<Rightarrow> sys \<Rightarrow> ((exn + actor_ptr option) \<times> sys) option" where
  "create fw user hw tid now thr ctor kind tname a s =
     map_option (\<lambda>(r, s1). (case r of None \<Rightarrow> Inr (Some a) | Some e \<Rightarrow> Inl e, s1))
       (register_actor fw user hw tid now thr a (s\<lparr>s_actors := (s_actors s)(a := ctor (actor_init kind tname))\<rparr>))"

definition default_shutdown_config :: shutdown_config where
  "default_shutdown_config = \<lparr>shutdown_drain_timeout = 5000\<rparr>"

definition destroy_system ::
  "framework \<Rightarrow> user_code \<Rightarrow> (nat \<Rightarrow> sys \<Rightarrow> sys) \<Rightarrow> (sys \<Rightarrow> sys) \<Rightarrow> (nat \<Rightarrow> time_point) \<Rightarrow> thread_id \<Rightarrow> sys \<Rightarrow> (exn option \<times> sys) option" where
  "destroy_system fw user env env_join clk tid s =
     (if m_running s then
        (case shutdown fw user env clk tid default_shutdown_config s of
           None \<Rightarrow> None
         | Some (Some e, s1) \<Rightarrow> Some (Some e, s1)
         | Some (None, s1) \<Rightarrow> map_option (\<lambda>s2. (None, s2)) (wait_for_shutdown fw user env_join tid s1))
      else Some (None, s))"

definition notify_watchers_internal :: "framework \<Rightarrow> user_code \<Rightarrow> thread_id \<Rightarrow> actor_ptr \<Rightarrow> sys \<Rightarrow> sys option" where
  "notify_watchers_internal fw user tid a s = end_watches fw user tid a True s"

definition ask ::
  "framework \<Rightarrow> user_code \<Rightarrow> (nat \<Rightarrow> sys \<Rightarrow> sys) \<Rightarrow> thread_id \<Rightarrow> time_point \<Rightarrow> actor_ptr option \<Rightarrow> message \<Rightarrow> call_payload \<Rightarrow> sys
     \<Rightarrow> ((exn + nat) \<times> sys) option" where
  "ask fw user env tid now ref request c s = blocking_call fw user env tid now ref request c s"

definition timed_ask ::
  "framework \<Rightarrow> user_code \<Rightarrow> (nat \<Rightarrow> sys \<Rightarrow> sys) \<Rightarrow> (nat \<Rightarrow> time_point) \<Rightarrow> millis \<Rightarrow> thread_id \<Rightarrow> actor_ptr option \<Rightarrow> message
     \<Rightarrow> call_payload \<Rightarrow> sys \<Rightarrow> ((exn + nat option) \<times> sys) option" where
  "timed_ask fw user env clk timeout tid ref request c s = timed_call fw user env clk timeout tid ref request c s"

section \<open>The operations the framework composes\<close>

lemma prepare_actor_calls:
  "prepare_actor a s =
     (let s1 = assign_default_name a (upd_actor a (\<lambda>A. A\<lparr>m_instance_id := m_next_instance_id s\<rparr>)
                 (s\<lparr>m_next_instance_id := m_next_instance_id s + 1\<rparr>))
      in upd_actor a (set_queue_threshold (cfg_queue_threshold (m_config s1))) (set_self_ref a s1))"
  by (simp add: prepare_actor_def set_self_ref_def set_queue_threshold_def [abs_def] Let_def)

lemma run_on_start_scope:
  "run_on_start user tid a s =
     (if m_started (s_actors s a) then (Inr False, s)
      else
        (let (prev, s1) = enter_on_start tid a (upd_actor a (\<lambda>A. A\<lparr>m_started := True\<rparr>) s);
             (r, s2) = uc_on_start user a s1
         in (case r of None \<Rightarrow> Inr True | Some e \<Rightarrow> Inl e, leave_on_start tid a prev s2)))"
  by (simp add: run_on_start_def enter_on_start_def leave_on_start_def Let_def case_prod_beta)

lemma mark_stopped_set_state: "mark_stopped a = upd_actor a (set_state AS_stopped)"
  by (simp add: mark_stopped_def set_state_def [abs_def])

section \<open>Which handler runs\<close>

text \<open>A sequence of registrations, in the order of the calls.\<close>

definition register_handlers :: "(type_index \<times> nat) list \<Rightarrow> actor \<Rightarrow> actor" where
  "register_handlers regs = fold (\<lambda>(t, h). handler t h) regs"

lemma register_handlers_lookup:
  "m_handlers (register_handlers regs A) t = (case map_of (rev regs) t of Some h \<Rightarrow> Some h | None \<Rightarrow> m_handlers A t)"
proof (induction regs arbitrary: A)
  case (Cons r regs)
  obtain t' h where r: "r = (t', h)" by (cases r)
  have "m_handlers (register_handlers (r # regs) A) t
      = (case map_of (rev regs) t of Some h \<Rightarrow> Some h | None \<Rightarrow> m_handlers (handler t' h A) t)"
    using Cons.IH [of "handler t' h A"] by (simp add: register_handlers_def r)
  then show ?case by (auto simp: r map_add_def handler_def split: option.split)
qed (simp add: register_handlers_def)

lemma register_handlers_calls: "m_call_handlers (register_handlers regs A) = m_call_handlers A"
  by (induction regs arbitrary: A) (auto simp: register_handlers_def handler_def)

definition told_message :: "actor_ptr option \<Rightarrow> message \<Rightarrow> sys \<Rightarrow> message" where
  "told_message who msg s = msg\<lparr>sender := (if who = None then sender msg else who), message_id := m_next_message_id s\<rparr>"

lemma told_message_kind [simp]:
  "message_type_of (told_message who msg s) = message_type_of msg" "is_call (told_message who msg s) = is_call msg"
  "cas_framework_kind (told_message who msg s) = cas_framework_kind msg" "body (told_message who msg s) = body msg"
  by (simp_all add: told_message_def message_type_of_def is_call_def cas_framework_kind_def)

lemma tell_enqueues:
  assumes "self_ref tid s = Inr who" "\<not> runs_inline (s_actors s a)"
  shows "tell (framework_of user clk (Suc d)) user tid (Some a) msg s
    = Some (None, enqueue_message user a (told_message who msg s) (s\<lparr>m_next_message_id := m_next_message_id s + 1\<rparr>))"
  using assms by (simp add: tell_def next_message_id_def Let_def actor_enqueue_def told_message_def runs_inline_def)

text \<open>One turn of the executor for an ordinary message: the outcome of the user code, and what becomes of its exception.\<close>

definition handled ::
  "framework \<Rightarrow> user_code \<Rightarrow> thread_id \<Rightarrow> time_point \<Rightarrow> actor_ptr \<Rightarrow> message \<Rightarrow> actor_ptr option \<Rightarrow> exn option \<times> sys \<Rightarrow> (exn option \<times> sys) option" where
  "handled fw user tid now a msg prev outcome =
     map_option (\<lambda>s. (None, destroy_message msg (set_context tid prev s)))
       (case outcome of (None, s) \<Rightarrow> Some s | (Some e, s) \<Rightarrow> handle_handler_exception fw user tid now a msg e s)"

lemma turn_runs_handler:
  assumes plain: "\<not> runs_inline (s_actors s a)" "\<not> is_stateful (s_actors s a)" and kinds: "kinds_fixed user"
    and pop: "mailbox_pop (m_mailbox (s_actors s a)) = (Some msg, mb)" and msg: "cas_framework_kind msg = FK_user"
    and t: "t = set_context tid (Some a) (upd_actor a (\<lambda>A. A\<lparr>m_mailbox := mb\<rparr>) s)"
    and out: "out = (case m_handlers (s_actors s a) (message_type_of msg) of
        Some h \<Rightarrow> uc_handler user h a msg t | None \<Rightarrow> uc_unhandled user a msg t)"
  shows "process_next_message fw user tid now a s = handled fw user tid now a msg (current_actor_context s tid) out"
proof -
  have h: "m_handlers (s_actors t a) = m_handlers (s_actors s a)" by (simp add: t set_context_def upd_actor_def)
  have "a_kind (s_actors (snd out) a) = a_kind (s_actors t a)"
    using kinds by (simp add: out kinds_fixed_def split: option.split)
  then have "\<not> runs_inline (s_actors (snd out) a)"
    using plain(1) by (simp add: runs_inline_def t set_context_def upd_actor_def)
  moreover have "process_next_message fw user tid now a s
      = (case dispatch_message fw user tid now a msg t of None \<Rightarrow> None
         | Some (Some e, s1) \<Rightarrow> Some (Some e, destroy_message msg s1)
         | Some (None, s1) \<Rightarrow> Some (None, destroy_message msg (set_context tid (current_actor_context s tid) s1)))"
    using plain pop by (simp add: process_next_message_def run_message_def t upd_actor_def Let_def)
  ultimately show ?thesis
    using msg by (cases out) (auto simp: dispatch_message_def h out [symmetric] handled_def split: option.split)
qed

section \<open>Properties\<close>

text \<open>
  Property C16. A told message reaches the right code. For an actor that accepts messages, has nothing queued and registered the handlers
  \<open>regs\<close> in this order: \<open>tell\<close> returns, the only queued message is the one told, carrying the next message id and the
  telling actor as its sender; and the next turn of whichever thread executes the actor runs on that very message the
  handler registered last for its type, or \<open>on_unhandled_message\<close> if there is none, with the actor as current context and
  the message taken out of the mailbox. The turn does not throw, and restores the context.
\<close>

theorem tell_reaches_handler:
  assumes obs: "callbacks_observe user" and kinds: "kinds_fixed user"
    and plain: "a_kind (s_actors s a) \<in> {Pooled, Fast}" and acc: "accepting s a" "mailbox_inv (mailboxes s a)" "queued (mailboxes s a) = []"
    and self: "self_ref tid s = Inr who" and user_msg: "cas_framework_kind msg = FK_user"
    and regs: "m_handlers (s_actors s a) = m_handlers (register_handlers regs (actor_init kind tname))"
  shows "\<exists>s1 t. tell (framework_of user clk (Suc d)) user tid (Some a) msg s = Some (None, s1)
    \<and> queued (mailboxes s1 a) = [told_message who msg s]
    \<and> current_actor_context t tid' = Some a \<and> queued (mailboxes t a) = []
    \<and> process_next_message fw user tid' now a s1 = handled fw user tid' now a (told_message who msg s) (current_actor_context s1 tid')
        (case map_of (rev regs) (message_type_of msg) of
           Some h \<Rightarrow> uc_handler user h a (told_message who msg s) t
         | None \<Rightarrow> uc_unhandled user a (told_message who msg s) t)"
proof -
  let ?m = "told_message who msg s" and ?s = "s\<lparr>m_next_message_id := m_next_message_id s + 1\<rparr>"
  define s1 where "s1 = enqueue_message user a ?m ?s"
  have same: "mailboxes ?s = mailboxes s" "accepting ?s a" using acc(1) by (simp_all add: mailboxes_def accepting_def fun_eq_iff)
  have call: "\<not> is_call msg" using user_msg by (simp add: is_call_def)
  have box: "mailboxes s1 a = snd (mailbox_push ?m (mailboxes s a))"
    using send_accepted(1) [OF obs same(2), of s1 False ?m] same(1) by (simp add: s1_def send_def)
  have lanes: "call_lane (mailboxes s1 a) = []" "other_lane_of (mailboxes s1 a) = [?m]"
    using mailbox_push_lanes [of "mailboxes s a" ?m] acc(1,3) call by (simp_all add: box accepting_def queued_def)
  have "mailbox_inv (mailboxes s1 a)" using mailbox_push_inv [OF acc(2), of ?m] acc(3) by (simp add: box)
  note pop = mailbox_pop_other [OF this lanes]
  have view: "dispatch_view s1 a = dispatch_view s a"
    using enqueue_keeps_handlers [OF obs, of a ?m ?s] by (simp add: s1_def dispatch_view_def fun_eq_iff)
  define mb where "mb = snd (mailbox_pop (mailboxes s1 a))"
  define t where "t = set_context tid' (Some a) (upd_actor a (\<lambda>A. A\<lparr>m_mailbox := mb\<rparr>) s1)"
  have kind: "\<not> runs_inline (s_actors s1 a)" "\<not> is_stateful (s_actors s1 a)" "\<not> runs_inline (s_actors s a)"
    using plain view by (auto simp: dispatch_view_def runs_inline_def is_stateful_def)
  have "mailbox_pop (m_mailbox (s_actors s1 a)) = (Some ?m, mb)" using pop(1) by (simp add: mb_def mailboxes_def prod_eq_iff)
  note turn = turn_runs_handler [OF kind(1,2) kinds this _ t_def refl, of fw now]
  have "m_handlers (s_actors s1 a) (message_type_of ?m) = map_of (rev regs) (message_type_of msg)"
    using view regs by (simp add: dispatch_view_def register_handlers_lookup actor_init_def split: option.split)
  then show ?thesis
    using turn user_msg tell_enqueues [OF self kind(3), of user clk d msg] lanes pop(2,3)
    by (intro exI [of _ s1] exI [of _ t])
      (simp add: s1_def [symmetric] queued_def t_def set_context_def upd_actor_def mailboxes_def mb_def)
qed

section \<open>Witness\<close>

definition recording_user :: user_code where
  "recording_user = idle_user\<lparr>uc_handler := (\<lambda>h a m s. (None, to_stderr (replicate h CHR ''x'') s))\<rparr>"

definition sys_with_handlers :: sys where
  "sys_with_handlers = upd_actor 3 (register_handlers [(TI 0, 4), (TI 9, 1), (TI 0, 2)]) sys_init"

theorem tell_reaches_handler_witness:
  "\<exists>s1 s2. tell (framework_of recording_user (\<lambda>_. 0) 1) recording_user 0 (Some 3) (sample_user 1) sys_with_handlers = Some (None, s1)
     \<and> process_next_message one_framework recording_user 1 0 3 s1 = Some (None, s2)"
proof -
  have u: "callbacks_observe recording_user" "kinds_fixed recording_user"
    using idle_user_observes by (simp_all add: callbacks_observe_def kinds_fixed_def recording_user_def idle_user_def to_stderr_def)
  have s: "a_kind (s_actors sys_with_handlers 3) \<in> {Pooled, Fast}" "accepting sys_with_handlers 3"
    "mailbox_inv (mailboxes sys_with_handlers 3)" "queued (mailboxes sys_with_handlers 3) = []" "self_ref 0 sys_with_handlers = Inr None"
    "m_handlers (s_actors sys_with_handlers 3)
      = m_handlers (register_handlers [(TI 0, 4), (TI 9, 1), (TI 0, 2)] (actor_init Pooled ''worker''))"
    by (simp_all add: sys_with_handlers_def register_handlers_def handler_def concrete_state accepting_def mailboxes_def
        mailbox_closed_def mailbox_inv_def mailbox_caches_ok_def lane_defs self_ref_def)
  have m: "cas_framework_kind (sample_user 1) = FK_user" by (simp add: sample_user_def cas_framework_kind_def)
  show ?thesis
    using tell_reaches_handler [OF u s(1-5) m s(6), of "\<lambda>_. 0" 0 1 one_framework 0]
    by (auto simp: handled_def recording_user_def sample_user_def message_type_of_def)
qed

end
