(* ===== verification/Scheduler.thy ===== *)
theory Scheduler
  imports Actor_System
begin

text \<open>
  The worker threads (source/system.cpp: \<open>worker_thread\<close>, \<open>run_actor\<close>, \<open>spin_for_work\<close>,
  \<open>park_worker\<close>, \<open>wake_worker\<close>, \<open>schedule\<close>, \<open>activate_after_start\<close>, the request part of \<open>stop_actor\<close>)
  as a step relation: any number of sending, stopping and creating threads interleave with the
  workers at every access to shared memory.

  \<^item> \<open>sc_pending\<close> holds what threads outside the worker loops (or handlers inside them) are in the
    middle of: \<open>C_schedule a\<close> made actor \<open>a\<close> busy and has to put it on a ready queue, \<open>C_wake w\<close> has put
    one there and has to look whether worker \<open>w\<close> sleeps, \<open>C_notify w\<close> has seen it sleep, \<open>S_unblock a\<close>
    has published a stop request. Which thread it is does not matter, so it is a multiset.
  \<^item> \<open>worker_pc\<close> has one constructor per place where \<open>worker_thread\<close> and the functions it calls touch
    shared memory; the number is \<open>handled\<close> of \<open>run_actor\<close>.
  \<^item> A push may happen in any state of the actor: the check of the state in \<open>enqueue_message\<close> is made
    earlier and may be stale.
  \<^item> The predicate of the condition variable is evaluated under the mutex and \<open>notify\<close> is called
    under it, so the evaluation and the begin of the wait are one step. Waits may time out and end
    spuriously. Memory is sequentially consistent, as the fences make it for the accesses involved.
  \<^item> \<open>budget\<close> is \<open>max_messages_per_turn\<close> (0: no bound), \<open>nw\<close> the number of workers. \<open>early\<close> allows stop
    requests for actors whose \<open>on_start\<close> has not returned.

  Actors are the pooled ones with a plain mailbox. Servicing a stop discards messages one by one
  (\<open>ws_discard\<close>) and then closes the mailbox (\<open>ws_stopped\<close>); what else it does is the subject of \<open>Actor_Dispatch\<close>.
\<close>

section \<open>State\<close>

record sched_actor =
  sa_mailbox :: mailbox
  sa_state :: actor_state
  sa_phase :: stop_phase
  sa_active :: bool
  sa_worker :: nat

datatype client_pc = C_schedule actor_ptr | C_wake nat | C_notify nat | S_unblock actor_ptr

datatype worker_pc =
    W_loop bool
  | W_enter actor_ptr
  | W_run actor_ptr nat
  | W_stop actor_ptr nat
  | W_turn actor_ptr nat
  | W_handle actor_ptr nat
  | W_block actor_ptr nat
  | W_recheck actor_ptr nat
  | W_unblock actor_ptr nat
  | W_spin
  | W_park
  | W_check
  | W_wait
  | W_unpark
  | W_exit

record sched =
  sc_actor :: "actor_ptr \<Rightarrow> sched_actor"
  sc_ready :: "nat \<Rightarrow> ready_queue"
  sc_sleeping :: "nat \<Rightarrow> bool"
  sc_worker :: "nat \<Rightarrow> worker_pc"
  sc_pending :: "client_pc multiset"
  sc_shutdown :: bool

definition set_mb :: "actor_ptr \<Rightarrow> mailbox \<Rightarrow> sched \<Rightarrow> sched" where
  "set_mb a mb s = s\<lparr>sc_actor := (sc_actor s)(a := (sc_actor s a)\<lparr>sa_mailbox := mb\<rparr>)\<rparr>"

definition set_stop :: "actor_ptr \<Rightarrow> stop_phase \<Rightarrow> actor_state \<Rightarrow> sched \<Rightarrow> sched" where
  "set_stop a ph st s = s\<lparr>sc_actor := (sc_actor s)(a := (sc_actor s a)\<lparr>sa_phase := ph, sa_state := st\<rparr>)\<rparr>"

definition go :: "nat \<Rightarrow> worker_pc \<Rightarrow> sched \<Rightarrow> sched" where
  "go w pc s = s\<lparr>sc_worker := (sc_worker s)(w := pc)\<rparr>"

definition pend :: "client_pc \<Rightarrow> sched \<Rightarrow> sched" where
  "pend x s = s\<lparr>sc_pending := add_mset x (sc_pending s)\<rparr>"

definition unpend :: "client_pc \<Rightarrow> sched \<Rightarrow> sched" where
  "unpend x s = s\<lparr>sc_pending := sc_pending s - {#x#}\<rparr>"

definition set_ready :: "nat \<Rightarrow> ready_queue \<Rightarrow> sched \<Rightarrow> sched" where
  "set_ready w q s = s\<lparr>sc_ready := (sc_ready s)(w := q)\<rparr>"

definition set_sleeping :: "nat \<Rightarrow> bool \<Rightarrow> sched \<Rightarrow> sched" where
  "set_sleeping w b s = s\<lparr>sc_sleeping := (sc_sleeping s)(w := b)\<rparr>"

definition turn_over :: "nat \<Rightarrow> nat \<Rightarrow> bool" where
  "turn_over budget handled \<longleftrightarrow> budget \<noteq> 0 \<and> budget \<le> handled"

definition has_work :: "nat \<Rightarrow> sched \<Rightarrow> bool" where
  "has_work w s \<longleftrightarrow> ready_maybe_nonempty (sc_ready s w) \<or> sc_shutdown s"

section \<open>Steps\<close>

inductive client_step :: "bool \<Rightarrow> nat \<Rightarrow> sched \<Rightarrow> sched \<Rightarrow> bool" for early nw where
  cs_push: "mailbox_push m (sa_mailbox (sc_actor s a)) = (r, mb) \<Longrightarrow>
    client_step early nw s (if r = PR_unblocked then pend (C_schedule a) (set_mb a mb s) else set_mb a mb s)"
| cs_schedule: "C_schedule a \<in># sc_pending s \<Longrightarrow> w = sa_worker (sc_actor s a) \<Longrightarrow>
    client_step early nw s (pend (C_wake w) (set_ready w (ready_push a (sc_ready s w)) (unpend (C_schedule a) s)))"
| cs_wake: "C_wake w \<in># sc_pending s \<Longrightarrow>
    client_step early nw s (if sc_sleeping s w then pend (C_notify w) (unpend (C_wake w) s) else unpend (C_wake w) s)"
| cs_notify: "C_notify w \<in># sc_pending s \<Longrightarrow>
    client_step early nw s
      (if sc_worker s w = W_wait then go w W_check (unpend (C_notify w) s) else unpend (C_notify w) s)"
| cs_stop: "sa_state (sc_actor s a) = AS_running \<Longrightarrow> sa_phase (sc_actor s a) = SP_none \<Longrightarrow>
    early \<or> sa_active (sc_actor s a) \<Longrightarrow>
    client_step early nw s (pend (S_unblock a) (set_stop a SP_requested AS_stopping s))"
| cs_unblock: "S_unblock a \<in># sc_pending s \<Longrightarrow> try_unblock (sa_mailbox (sc_actor s a)) = (ok, mb) \<Longrightarrow>
    client_step early nw s
      (if ok then pend (C_schedule a) (set_mb a mb (unpend (S_unblock a) s)) else set_mb a mb (unpend (S_unblock a) s))"
| cs_activate: "\<not> sa_active (sc_actor s a) \<Longrightarrow> try_block (sa_mailbox (sc_actor s a)) = (ok, mb) \<Longrightarrow>
    s1 = s\<lparr>sc_actor := (sc_actor s)(a := (sc_actor s a)\<lparr>sa_mailbox := mb, sa_active := True\<rparr>)\<rparr> \<Longrightarrow>
    client_step early nw s (if ok then s1 else pend (C_schedule a) s1)"
| cs_shutdown: "client_step early nw s
    (s\<lparr>sc_shutdown := True, sc_pending := sc_pending s + mset (map C_notify [0..<nw])\<rparr>)"

inductive worker_step :: "nat \<Rightarrow> sched \<Rightarrow> sched \<Rightarrow> bool" for budget where
  ws_exit: "sc_worker s w = W_loop worked \<Longrightarrow> sc_shutdown s \<Longrightarrow> worker_step budget s (go w W_exit s)"
| ws_pop: "sc_worker s w = W_loop worked \<Longrightarrow> \<not> sc_shutdown s \<Longrightarrow> ready_pop (sc_ready s w) = (Some a, q) \<Longrightarrow>
    worker_step budget s (go w (W_enter a) (set_ready w q s))"
| ws_none: "sc_worker s w = W_loop worked \<Longrightarrow> \<not> sc_shutdown s \<Longrightarrow> ready_pop (sc_ready s w) = (None, q) \<Longrightarrow>
    worker_step budget s (go w (if worked then W_spin else W_park) (set_ready w q s))"
| ws_spin_found: "sc_worker s w = W_spin \<Longrightarrow> has_work w s \<Longrightarrow> worker_step budget s (go w (W_loop True) s)"
| ws_spin_over: "sc_worker s w = W_spin \<Longrightarrow> worker_step budget s (go w W_park s)"
| ws_park: "sc_worker s w = W_park \<Longrightarrow> worker_step budget s (go w W_check (set_sleeping w True s))"
| ws_check: "sc_worker s w = W_check \<Longrightarrow>
    worker_step budget s (go w (if has_work w s then W_unpark else W_wait) s)"
| ws_spurious: "sc_worker s w = W_wait \<Longrightarrow> worker_step budget s (go w W_check s)"
| ws_timeout: "sc_worker s w = W_wait \<Longrightarrow> worker_step budget s (go w W_unpark s)"
| ws_unpark: "sc_worker s w = W_unpark \<Longrightarrow> worker_step budget s (go w (W_loop False) (set_sleeping w False s))"
| ws_enter: "sc_worker s w = W_enter a \<Longrightarrow>
    worker_step budget s (go w (if sa_state (sc_actor s a) = AS_stopped then W_loop True else W_run a 0) s)"
| ws_run: "sc_worker s w = W_run a n \<Longrightarrow>
    worker_step budget s (go w (if sa_phase (sc_actor s a) = SP_requested then W_stop a n else W_turn a n) s)"
| ws_stopped: "sc_worker s w = W_stop a n \<Longrightarrow>
    worker_step budget s (go w (W_loop True)
      (set_mb a (snd (mailbox_close (sa_mailbox (sc_actor s a)))) (set_stop a SP_requested AS_stopped s)))"
| ws_completed: "sc_worker s w = W_stop a n \<Longrightarrow> sa_state (sc_actor s a) = AS_stopped \<Longrightarrow>
    worker_step budget s (go w (W_loop True) s)"
| ws_discard: "sc_worker s w = W_stop a n \<Longrightarrow>
    worker_step budget s (set_mb a (snd (mailbox_pop (sa_mailbox (sc_actor s a)))) s)"
| ws_drain: "sc_worker s w = W_stop a n \<Longrightarrow> 0 < mailbox_size (sa_mailbox (sc_actor s a)) \<Longrightarrow>
    worker_step budget s (go w (W_turn a n) s)"
| ws_requeue: "sc_worker s w = W_turn a n \<Longrightarrow> turn_over budget n \<Longrightarrow>
    worker_step budget s (go w (W_loop True) (set_ready w (ready_push a (sc_ready s w)) s))"
| ws_message: "sc_worker s w = W_turn a n \<Longrightarrow> \<not> turn_over budget n \<Longrightarrow> 0 < mailbox_size (sa_mailbox (sc_actor s a)) \<Longrightarrow>
    worker_step budget s (go w (W_handle a (Suc n)) (set_mb a (snd (mailbox_pop (sa_mailbox (sc_actor s a)))) s))"
| ws_idle: "sc_worker s w = W_turn a n \<Longrightarrow> \<not> turn_over budget n \<Longrightarrow> mailbox_size (sa_mailbox (sc_actor s a)) = 0 \<Longrightarrow>
    worker_step budget s (go w (W_block a n) s)"
| ws_shutdown_message: "sc_worker s w = W_handle a n \<Longrightarrow> sa_phase (sc_actor s a) = SP_none \<Longrightarrow>
    worker_step budget s (set_stop a SP_system_shutdown AS_stopping s)"
| ws_handled: "sc_worker s w = W_handle a n \<Longrightarrow> worker_step budget s (go w (W_run a n) s)"
| ws_block: "sc_worker s w = W_block a n \<Longrightarrow> try_block (sa_mailbox (sc_actor s a)) = (ok, mb) \<Longrightarrow>
    worker_step budget s (go w (if ok then W_recheck a n else W_run a n) (set_mb a mb s))"
| ws_recheck: "sc_worker s w = W_recheck a n \<Longrightarrow>
    worker_step budget s (go w (if sa_phase (sc_actor s a) = SP_requested then W_unblock a n else W_loop True) s)"
| ws_unblock: "sc_worker s w = W_unblock a n \<Longrightarrow> try_unblock (sa_mailbox (sc_actor s a)) = (ok, mb) \<Longrightarrow>
    worker_step budget s (go w (if ok then W_run a n else W_loop True) (set_mb a mb s))"

definition sched_step :: "bool \<Rightarrow> nat \<Rightarrow> nat \<Rightarrow> sched \<Rightarrow> sched \<Rightarrow> bool" where
  "sched_step early nw budget s t \<longleftrightarrow> client_step early nw s t \<or> worker_step budget s t"

definition sched_init :: "nat \<Rightarrow> sched \<Rightarrow> bool" where
  "sched_init nw s \<longleftrightarrow>
     (\<forall>a. sa_mailbox (sc_actor s a) = mailbox_init \<and> sa_state (sc_actor s a) = AS_running
        \<and> sa_phase (sc_actor s a) = SP_none \<and> \<not> sa_active (sc_actor s a))
   \<and> (\<forall>w. sc_ready s w = ready_init \<and> \<not> sc_sleeping s w \<and> sc_worker s w = (if w < nw then W_loop False else W_exit))
   \<and> sc_pending s = {#} \<and> \<not> sc_shutdown s"

section \<open>Who has an actor\<close>

fun holder :: "worker_pc \<Rightarrow> actor_ptr option" where
  "holder (W_enter a) = Some a"
| "holder (W_run a n) = Some a"
| "holder (W_stop a n) = Some a"
| "holder (W_turn a n) = Some a"
| "holder (W_handle a n) = Some a"
| "holder (W_block a n) = Some a"
| "holder _ = None"

fun rechecks :: "worker_pc \<Rightarrow> actor_ptr option" where
  "rechecks (W_recheck a n) = Some a"
| "rechecks (W_unblock a n) = Some a"
| "rechecks _ = None"

fun parking :: "worker_pc \<Rightarrow> bool" where
  "parking W_check = True"
| "parking W_wait = True"
| "parking W_unpark = True"
| "parking _ = False"

definition busy :: "sched_actor \<Rightarrow> bool" where
  "busy A \<longleftrightarrow> sa_active A \<and> m_stack (sa_mailbox A) \<noteq> Blocked_tag \<and> m_stack (sa_mailbox A) \<noteq> Closed_tag"

definition tokens :: "sched \<Rightarrow> actor_ptr \<Rightarrow> nat" where
  "tokens s a = count_list (ready_contents (sc_ready s (sa_worker (sc_actor s a)))) a
     + count (sc_pending s) (C_schedule a)
     + (if holder (sc_worker s (sa_worker (sc_actor s a))) = Some a then 1 else 0)"

definition token_inv :: "sched \<Rightarrow> bool" where
  "token_inv s \<longleftrightarrow> (\<forall>a. tokens s a = (if busy (sc_actor s a) then 1 else 0))"

definition place_inv :: "sched \<Rightarrow> bool" where
  "place_inv s \<longleftrightarrow> (\<forall>a w. a \<in> set (ready_contents (sc_ready s w)) \<or> holder (sc_worker s w) = Some a
     \<or> rechecks (sc_worker s w) = Some a \<longrightarrow> w = sa_worker (sc_actor s a))"

definition mailbox_states_inv :: "sched \<Rightarrow> bool" where
  "mailbox_states_inv s \<longleftrightarrow> (\<forall>a.
     (\<not> sa_active (sc_actor s a) \<longrightarrow> m_stack (sa_mailbox (sc_actor s a)) \<noteq> Blocked_tag
        \<and> m_stack (sa_mailbox (sc_actor s a)) \<noteq> Closed_tag)
   \<and> (m_stack (sa_mailbox (sc_actor s a)) = Blocked_tag \<longrightarrow>
        m_calls (sa_mailbox (sc_actor s a)) = [] \<and> m_others (sa_mailbox (sc_actor s a)) = [])
   \<and> (sa_state (sc_actor s a) = AS_stopped \<longrightarrow> m_stack (sa_mailbox (sc_actor s a)) = Closed_tag))"

definition sleep_inv :: "nat \<Rightarrow> sched \<Rightarrow> bool" where
  "sleep_inv nw s \<longleftrightarrow> (\<forall>w. sc_sleeping s w = parking (sc_worker s w) \<and> (nw \<le> w \<longrightarrow> sc_worker s w = W_exit)
     \<and> (sc_worker s w = W_wait \<and> has_work w s \<longrightarrow> C_wake w \<in># sc_pending s \<or> C_notify w \<in># sc_pending s))"

lemmas sched_upd = set_mb_def set_stop_def go_def pend_def unpend_def set_ready_def set_sleeping_def

lemma ready_push_contents [simp]: "ready_contents (ready_push a q) = ready_contents q @ [a]"
  by (rule ready_fifo.push_contents) simp

lemma ready_pop_SomeD: "ready_pop q = (Some a, q') \<Longrightarrow> ready_contents q = a # ready_contents q'"
  using ready_pop_contents [of q] by (auto split: list.splits)

lemma ready_pop_NoneD: "ready_pop q = (None, q') \<Longrightarrow> ready_contents q = [] \<and> ready_contents q' = []"
  using ready_pop_contents [of q] by (auto split: list.splits)

lemma push_stack:
  "mailbox_push m mb = (r, mb') \<Longrightarrow> (r = PR_unblocked) = (m_stack mb = Blocked_tag)
     \<and> (m_stack mb' = Closed_tag) = (m_stack mb = Closed_tag) \<and> m_stack mb' \<noteq> Blocked_tag
     \<and> m_calls mb' = m_calls mb \<and> m_others mb' = m_others mb"
  by (auto simp: mailbox_push_def Let_def split: if_splits)

lemma take_node_stack: "m_stack (snd (take_node mb)) = m_stack mb"
  by (auto simp: take_node_def dequeue_node_def split: list.split)

lemma pop_stack: "m_stack (snd (mailbox_pop mb)) = m_stack mb \<or> m_stack (snd (mailbox_pop mb)) = Empty_tag"
  unfolding mailbox_pop_alt Let_def by (auto simp: take_node_stack pop_prepare_def)

lemma close_stack: "m_stack (snd (mailbox_close mb)) = Closed_tag"
  using mailbox_close_state [of mb] by simp

lemma try_block_stack:
  "try_block mb = (ok, mb') \<Longrightarrow> (ok \<longrightarrow> m_stack mb' = Blocked_tag \<and> m_stack mb = Empty_tag \<and> m_calls mb' = [] \<and> m_others mb' = [])
     \<and> (\<not> ok \<longrightarrow> mb' = mb)"
  by (auto simp: try_block_def split: if_splits)

lemma try_unblock_stack:
  "try_unblock mb = (ok, mb') \<Longrightarrow> ok = (m_stack mb = Blocked_tag) \<and> (ok \<longrightarrow> m_stack mb' = Empty_tag \<and> m_calls mb' = m_calls mb \<and> m_others mb' = m_others mb)
     \<and> (\<not> ok \<longrightarrow> mb' = mb)"
  by (auto simp: try_unblock_def split: if_splits)

lemmas mailbox_stacks = push_stack pop_stack close_stack try_block_stack try_unblock_stack

section \<open>Preservation\<close>

lemma client_place: "place_inv s \<Longrightarrow> client_step early nw s t \<Longrightarrow> place_inv t"
  by (erule client_step.cases) (auto simp: place_inv_def sched_upd)

lemma worker_place: "place_inv s \<Longrightarrow> worker_step budget s t \<Longrightarrow> place_inv t"
  by (erule worker_step.cases) (auto simp: place_inv_def sched_upd dest: ready_pop_SomeD ready_pop_NoneD)

lemma token_invD: "token_inv s \<Longrightarrow> tokens s b = (if busy (sc_actor s b) then 1 else 0)"
  by (simp add: token_inv_def)

lemma blocked_active:
  "mailbox_states_inv s \<Longrightarrow> m_stack (sa_mailbox (sc_actor s a)) = Blocked_tag \<Longrightarrow> sa_active (sc_actor s a)"
  by (auto simp: mailbox_states_inv_def)

lemma client_token:
  assumes inv: "token_inv s" "mailbox_states_inv s" and step: "client_step early nw s t"
  shows "token_inv t"
  unfolding token_inv_def
proof
  fix b
  note T = token_invD [OF inv(1), of b]
  note defs = tokens_def busy_def sched_upd
  from step show "tokens t b = (if busy (sc_actor t b) then 1 else 0)"
  proof cases
    case (cs_push m a r mb)
    with T push_stack [OF cs_push(2)] blocked_active [OF inv(2), of a] show ?thesis
      by (cases "b = a"; cases "r = PR_unblocked") (auto simp: defs split: if_splits)
  next
    case (cs_schedule a w)
    have "b = a \<Longrightarrow> count (sc_pending s) (C_schedule b) \<ge> 1" using cs_schedule(2) by (simp add: Suc_leI)
    with cs_schedule T show ?thesis
      by (cases "b = a"; cases "sa_worker (sc_actor s b) = w") (auto simp: defs split: if_splits)
  next
    case (cs_wake w)
    with T show ?thesis by (auto simp: defs split: if_splits)
  next
    case (cs_notify w)
    with T show ?thesis by (auto simp: defs split: if_splits)
  next
    case (cs_stop a)
    with T show ?thesis by (cases "b = a") (auto simp: defs split: if_splits)
  next
    case (cs_unblock a ok mb)
    with T try_unblock_stack [OF cs_unblock(3)] blocked_active [OF inv(2), of a] show ?thesis
      by (cases "b = a"; cases ok) (auto simp: defs split: if_splits)
  next
    case (cs_activate a ok mb s1)
    with T inv(2) try_block_stack [OF cs_activate(3)] show ?thesis
      by (cases "b = a"; cases ok) (auto simp: defs mailbox_states_inv_def split: if_splits)
  next
    case cs_shutdown
    have "count (mset (map C_notify [0..<nw])) (C_schedule b) = 0" by (auto simp: count_eq_zero_iff)
    with cs_shutdown T show ?thesis by (auto simp: defs)
  qed
qed

lemma held_busy:
  assumes "token_inv s" "place_inv s" "holder (sc_worker s w) = Some a"
  shows "w = sa_worker (sc_actor s a)" "busy (sc_actor s a)"
    "a \<notin> set (ready_contents (sc_ready s w))" "C_schedule a \<notin># sc_pending s"
proof -
  show w: "w = sa_worker (sc_actor s a)" using assms(2,3) unfolding place_inv_def by blast
  note t = token_invD [OF assms(1), of a]
  have "tokens s a = count_list (ready_contents (sc_ready s w)) a + count (sc_pending s) (C_schedule a) + 1"
    using assms(3) by (simp add: tokens_def w [symmetric])
  with t have "busy (sc_actor s a)" "count_list (ready_contents (sc_ready s w)) a = 0" "count (sc_pending s) (C_schedule a) = 0"
    by (auto split: if_splits)
  then show "busy (sc_actor s a)" "a \<notin> set (ready_contents (sc_ready s w))" "C_schedule a \<notin># sc_pending s"
    by (auto simp: count_list_0_iff count_eq_zero_iff)
qed

lemma worker_token:
  assumes inv: "token_inv s" "place_inv s" "mailbox_states_inv s" and step: "worker_step budget s t"
  shows "token_inv t"
  unfolding token_inv_def
proof
  fix b
  note T = token_invD [OF inv(1), of b]
  note defs = tokens_def busy_def sched_upd
  from step show "tokens t b = (if busy (sc_actor t b) then 1 else 0)"
  proof cases
    case (ws_pop w worked a q)
    have "w = sa_worker (sc_actor s a)" "ready_contents (sc_ready s w) = a # ready_contents q"
      using ready_pop_SomeD [OF ws_pop(4)] inv(2) by (auto simp: place_inv_def)
    with ws_pop T show ?thesis by (cases "b = a"; cases "sa_worker (sc_actor s b) = w") (auto simp: defs split: if_splits)
  next
    case (ws_none w worked q)
    with T ready_pop_NoneD [OF ws_none(4)] show ?thesis
      by (cases "sa_worker (sc_actor s b) = w") (auto simp: defs split: if_splits)
  next
    case (ws_enter w a)
    with held_busy [OF inv(1,2), of w a] T inv(3) show ?thesis
      by (cases "b = a"; cases "sa_worker (sc_actor s b) = w") (auto simp: defs mailbox_states_inv_def split: if_splits)
  next
    case (ws_stopped w a n)
    with held_busy [OF inv(1,2), of w a] T show ?thesis
      by (cases "b = a"; cases "sa_worker (sc_actor s b) = w") (auto simp: defs close_stack split: if_splits)
  next
    case (ws_completed w a n)
    then have "m_stack (sa_mailbox (sc_actor s a)) = Closed_tag" using inv(3) by (simp add: mailbox_states_inv_def)
    with ws_completed held_busy [OF inv(1,2), of w a] show ?thesis by (simp add: busy_def)
  next
    case (ws_requeue w a n)
    with held_busy [OF inv(1,2), of w a] T show ?thesis
      by (cases "b = a"; cases "sa_worker (sc_actor s b) = w") (auto simp: defs split: if_splits)
  next
    case (ws_message w a n)
    with held_busy [OF inv(1,2), of w a] T pop_stack [of "sa_mailbox (sc_actor s a)"] show ?thesis
      by (cases "b = a"; cases "sa_worker (sc_actor s b) = w") (auto simp: defs split: if_splits)
  next
    case (ws_discard w a n)
    with held_busy [OF inv(1,2), of w a] T pop_stack [of "sa_mailbox (sc_actor s a)"] show ?thesis
      by (cases "b = a"; cases "sa_worker (sc_actor s b) = w") (auto simp: defs split: if_splits)
  next
    case (ws_block w a n ok mb)
    with held_busy [OF inv(1,2), of w a] T try_block_stack [OF ws_block(3)] show ?thesis
      by (cases "b = a"; cases "sa_worker (sc_actor s b) = w") (auto simp: defs split: if_splits)
  next
    case (ws_unblock w a n ok mb)
    have "w = sa_worker (sc_actor s a)" using inv(2) ws_unblock(2) by (simp add: place_inv_def)
    with ws_unblock T try_unblock_stack [OF ws_unblock(3)] blocked_active [OF inv(3), of a] show ?thesis
      by (cases "b = a"; cases "sa_worker (sc_actor s b) = w"; cases ok) (auto simp: defs split: if_splits)
  qed (use T in \<open>auto simp: defs split: if_splits\<close>)
qed

lemma client_mailboxes:
  assumes "mailbox_states_inv s" "client_step early nw s t"
  shows "mailbox_states_inv t"
  using assms(2)
proof cases
  case (cs_push m a r mb)
  with assms(1) push_stack [OF cs_push(2)] show ?thesis by (auto simp: mailbox_states_inv_def sched_upd)
next
  case (cs_unblock a ok mb)
  with assms(1) try_unblock_stack [OF cs_unblock(3)] show ?thesis by (auto simp: mailbox_states_inv_def sched_upd)
next
  case (cs_activate a ok mb s1)
  with assms(1) try_block_stack [OF cs_activate(3)] show ?thesis by (auto simp: mailbox_states_inv_def sched_upd)
qed (use assms(1) in \<open>auto simp: mailbox_states_inv_def sched_upd\<close>)

lemma worker_mailboxes:
  assumes inv: "token_inv s" "place_inv s" "mailbox_states_inv s" and step: "worker_step budget s t"
  shows "mailbox_states_inv t"
  using step
proof cases
  case (ws_stopped w a n)
  with held_busy [OF inv(1,2), of w a] inv(3) show ?thesis
    by (auto simp: mailbox_states_inv_def sched_upd close_stack busy_def)
next
  case (ws_message w a n)
  with held_busy [OF inv(1,2), of w a] inv(3) pop_stack [of "sa_mailbox (sc_actor s a)"] show ?thesis
    by (auto simp: mailbox_states_inv_def sched_upd busy_def)
next
  case (ws_discard w a n)
  with held_busy [OF inv(1,2), of w a] inv(3) pop_stack [of "sa_mailbox (sc_actor s a)"] show ?thesis
    by (auto simp: mailbox_states_inv_def sched_upd busy_def)
next
  case (ws_shutdown_message w a n)
  with held_busy [OF inv(1,2), of w a] inv(3) show ?thesis
    by (auto simp: mailbox_states_inv_def sched_upd busy_def)
next
  case (ws_block w a n ok mb)
  with held_busy [OF inv(1,2), of w a] inv(3) try_block_stack [OF ws_block(3)] show ?thesis
    by (auto simp: mailbox_states_inv_def sched_upd busy_def)
next
  case (ws_unblock w a n ok mb)
  with inv(3) try_unblock_stack [OF ws_unblock(3)] show ?thesis
    by (auto simp: mailbox_states_inv_def sched_upd)
qed (use inv(3) in \<open>auto simp: mailbox_states_inv_def sched_upd\<close>)

lemma sleep_invD:
  assumes "sleep_inv nw s"
  shows "sc_sleeping s w = parking (sc_worker s w)" "nw \<le> w \<Longrightarrow> sc_worker s w = W_exit"
    "sc_worker s w = W_wait \<Longrightarrow> has_work w s \<Longrightarrow> C_wake w \<in># sc_pending s \<or> C_notify w \<in># sc_pending s"
  using assms by (auto simp: sleep_inv_def)

lemma client_sleep:
  assumes inv: "sleep_inv nw s" and step: "client_step early nw s t"
  shows "sleep_inv nw t"
  unfolding sleep_inv_def
proof
  fix w
  note S = sleep_invD [OF inv, of w]
  have ready: "ready_maybe_nonempty (ready_push a q)" for a q by (simp add: ready_maybe_nonempty_iff)
  note defs = sched_upd has_work_def in_diff_count
  from step show "sc_sleeping t w = parking (sc_worker t w) \<and> (nw \<le> w \<longrightarrow> sc_worker t w = W_exit)
     \<and> (sc_worker t w = W_wait \<and> has_work w t \<longrightarrow> C_wake w \<in># sc_pending t \<or> C_notify w \<in># sc_pending t)"
  proof cases
    case (cs_schedule a w')
    with S show ?thesis by (cases "w = w'") (auto simp: defs)
  next
    case (cs_wake w')
    with S show ?thesis by (cases "w = w'") (auto simp: defs)
  next
    case (cs_notify w')
    with S show ?thesis by (cases "w = w'") (auto simp: defs split: if_splits)
  next
    case cs_shutdown
    with S show ?thesis by (cases "nw \<le> w") (auto simp: defs)
  qed (use S in \<open>auto simp: defs\<close>)
qed

lemma worker_sleep:
  assumes inv: "sleep_inv nw s" and step: "worker_step budget s t"
  shows "sleep_inv nw t"
  unfolding sleep_inv_def
proof
  fix w
  note S = sleep_invD [OF inv, of w]
  from step show "sc_sleeping t w = parking (sc_worker t w) \<and> (nw \<le> w \<longrightarrow> sc_worker t w = W_exit)
     \<and> (sc_worker t w = W_wait \<and> has_work w t \<longrightarrow> C_wake w \<in># sc_pending t \<or> C_notify w \<in># sc_pending t)"
    by cases (use S in \<open>auto simp: sched_upd has_work_def split: if_splits\<close>)
qed

text \<open>Without early requests, a requested stop of an idle actor is always in somebody's hands.\<close>

definition stop_inv :: "sched \<Rightarrow> bool" where
  "stop_inv s \<longleftrightarrow> (\<forall>a. (\<not> sa_active (sc_actor s a) \<longrightarrow> sa_phase (sc_actor s a) \<noteq> SP_requested)
     \<and> (sa_phase (sc_actor s a) = SP_requested \<and> m_stack (sa_mailbox (sc_actor s a)) = Blocked_tag \<longrightarrow>
          S_unblock a \<in># sc_pending s \<or> rechecks (sc_worker s (sa_worker (sc_actor s a))) = Some a))"

lemma stop_invD:
  assumes "stop_inv s"
  shows "\<not> sa_active (sc_actor s a) \<Longrightarrow> sa_phase (sc_actor s a) \<noteq> SP_requested"
    "sa_phase (sc_actor s a) = SP_requested \<Longrightarrow> m_stack (sa_mailbox (sc_actor s a)) = Blocked_tag \<Longrightarrow>
       S_unblock a \<in># sc_pending s \<or> rechecks (sc_worker s (sa_worker (sc_actor s a))) = Some a"
  using assms by (auto simp: stop_inv_def)

lemma client_stop:
  assumes inv: "stop_inv s" and step: "client_step False nw s t"
  shows "stop_inv t"
  unfolding stop_inv_def
proof
  fix b
  note S = stop_invD [OF inv, of b]
  note defs = sched_upd in_diff_count
  from step show "(\<not> sa_active (sc_actor t b) \<longrightarrow> sa_phase (sc_actor t b) \<noteq> SP_requested)
     \<and> (sa_phase (sc_actor t b) = SP_requested \<and> m_stack (sa_mailbox (sc_actor t b)) = Blocked_tag \<longrightarrow>
          S_unblock b \<in># sc_pending t \<or> rechecks (sc_worker t (sa_worker (sc_actor t b))) = Some b)"
  proof cases
    case (cs_push m a r mb)
    with S push_stack [OF cs_push(2)] show ?thesis by (cases "b = a") (auto simp: defs)
  next
    case (cs_notify w)
    with S show ?thesis by (auto simp: defs)
  next
    case (cs_unblock a ok mb)
    with S try_unblock_stack [OF cs_unblock(3)] show ?thesis by (cases "b = a") (auto simp: defs)
  next
    case (cs_activate a ok mb s1)
    with S show ?thesis by (cases "b = a") (auto simp: defs)
  qed (use S in \<open>auto simp: defs\<close>)
qed

lemma worker_stop:
  assumes inv: "stop_inv s" "token_inv s" "place_inv s" and step: "worker_step budget s t"
  shows "stop_inv t"
  unfolding stop_inv_def
proof
  fix b
  note S = stop_invD [OF inv(1), of b]
  note held = held_busy [OF inv(2,3)]
  from step show "(\<not> sa_active (sc_actor t b) \<longrightarrow> sa_phase (sc_actor t b) \<noteq> SP_requested)
     \<and> (sa_phase (sc_actor t b) = SP_requested \<and> m_stack (sa_mailbox (sc_actor t b)) = Blocked_tag \<longrightarrow>
          S_unblock b \<in># sc_pending t \<or> rechecks (sc_worker t (sa_worker (sc_actor t b))) = Some b)"
  proof cases
    case (ws_stopped w a n)
    with S held [of w a] show ?thesis by (cases "b = a") (auto simp: sched_upd close_stack busy_def)
  next
    case (ws_message w a n)
    with S held [of w a] pop_stack [of "sa_mailbox (sc_actor s a)"] show ?thesis
      by (cases "b = a") (auto simp: sched_upd busy_def)
  next
    case (ws_discard w a n)
    with S held [of w a] pop_stack [of "sa_mailbox (sc_actor s a)"] show ?thesis
      by (cases "b = a") (auto simp: sched_upd busy_def)
  next
    case (ws_block w a n ok mb)
    with S held [of w a] try_block_stack [OF ws_block(3)] show ?thesis
      by (cases "b = a") (auto simp: sched_upd busy_def)
  next
    case (ws_recheck w a n)
    have "w = sa_worker (sc_actor s a)" using inv(3) ws_recheck(2) by (simp add: place_inv_def)
    with ws_recheck S show ?thesis by (cases "b = a") (auto simp: sched_upd)
  next
    case (ws_unblock w a n ok mb)
    with S try_unblock_stack [OF ws_unblock(3)] show ?thesis by (cases "b = a") (auto simp: sched_upd)
  qed (use S in \<open>auto simp: sched_upd\<close>)
qed

section \<open>The invariant\<close>

definition sched_inv :: "bool \<Rightarrow> nat \<Rightarrow> sched \<Rightarrow> bool" where
  "sched_inv early nw s \<longleftrightarrow> token_inv s \<and> place_inv s \<and> mailbox_states_inv s \<and> sleep_inv nw s \<and> (\<not> early \<longrightarrow> stop_inv s)"

interpretation scheduler: inductive_invariant "sched_init nw" "sched_step early nw budget" "sched_inv early nw"
  for early nw budget
proof unfold_locales
  fix s t
  show "sched_inv early nw s" if i: "sched_init nw s"
  proof -
    have e: "ready_contents (sc_ready s w) = []" "sc_pending s = {#}" "holder (sc_worker s w) = None"
      "rechecks (sc_worker s w) = None" "sa_mailbox (sc_actor s a) = mailbox_init" "\<not> parking (sc_worker s w)" for w a
      using i by (simp_all add: sched_init_def ready_contents_def ready_init_def)
    have "token_inv s" "place_inv s"
      using i e by (auto simp: token_inv_def tokens_def busy_def sched_init_def place_inv_def)
    moreover have "mailbox_states_inv s" using i by (simp add: mailbox_states_inv_def sched_init_def mailbox_init_def)
    moreover have "sleep_inv nw s" "stop_inv s" using i e by (auto simp: sleep_inv_def stop_inv_def sched_init_def)
    ultimately show ?thesis by (simp add: sched_inv_def)
  qed
  show "sched_inv early nw t" if "sched_inv early nw s" "sched_step early nw budget s t"
    using that client_token client_place client_mailboxes client_sleep client_stop
      worker_token worker_place worker_mailboxes worker_sleep worker_stop
    unfolding sched_inv_def sched_step_def by (metis (full_types))
qed

lemma blocked_empty:
  "mailbox_states_inv s \<Longrightarrow> m_stack (sa_mailbox (sc_actor s a)) = Blocked_tag \<Longrightarrow> queued (sa_mailbox (sc_actor s a)) = []"
  by (auto simp: mailbox_states_inv_def lane_defs)

section \<open>Properties\<close>

text \<open>
  Property C1. One thread at a time runs an actor (INVARIANT 1), under every interleaving of senders,
  stoppers, creators and workers: an actor is on the ready queue of its own worker only and at most
  once; while a worker runs it, no other worker does, it is on no ready queue and nobody is about to
  put it there, which is also what the intrusive ready queue needs of its callers.
\<close>

theorem single_executor:
  assumes "reachable (sched_init nw) (sched_step early nw budget) s"
  shows "(a \<in> set (ready_contents (sc_ready s w)) \<longrightarrow> w = sa_worker (sc_actor s a) \<and> count_list (ready_contents (sc_ready s w)) a = 1
        \<and> C_schedule a \<notin># sc_pending s)
    \<and> (holder (sc_worker s w) = Some a \<longrightarrow>
        (\<forall>w'. (holder (sc_worker s w') = Some a \<longrightarrow> w' = w) \<and> a \<notin> set (ready_contents (sc_ready s w')))
        \<and> C_schedule a \<notin># sc_pending s \<and> busy (sc_actor s a))"
proof -
  have inv: "token_inv s" "place_inv s"
    using scheduler.reachable_inv [OF assms] by (simp_all add: sched_inv_def)
  have in_ready: "w = sa_worker (sc_actor s a)" if "a \<in> set (ready_contents (sc_ready s w))" for w
    using that inv(2) unfolding place_inv_def by blast
  have "count_list (ready_contents (sc_ready s w)) a = 1 \<and> C_schedule a \<notin># sc_pending s"
    if q: "a \<in> set (ready_contents (sc_ready s w))"
  proof -
    have "count_list (ready_contents (sc_ready s w)) a \<noteq> 0" using q by (simp add: count_list_0_iff)
    moreover have "count_list (ready_contents (sc_ready s w)) a + count (sc_pending s) (C_schedule a) \<le> 1"
      using token_invD [OF inv(1), of a] unfolding tokens_def in_ready [OF q, symmetric] by (auto split: if_splits)
    ultimately show ?thesis by (simp add: count_eq_zero_iff [symmetric])
  qed
  moreover have "(\<forall>w'. (holder (sc_worker s w') = Some a \<longrightarrow> w' = w) \<and> a \<notin> set (ready_contents (sc_ready s w')))
      \<and> C_schedule a \<notin># sc_pending s \<and> busy (sc_actor s a)" if h: "holder (sc_worker s w) = Some a"
    using held_busy [OF inv] h in_ready by metis
  ultimately show ?thesis using in_ready by blast
qed


section \<open>Witnesses\<close>

definition sched0 :: sched where
  "sched0 = \<lparr>sc_actor = (\<lambda>_. \<lparr>sa_mailbox = mailbox_init, sa_state = AS_running, sa_phase = SP_none, sa_active = False, sa_worker = 0\<rparr>),
     sc_ready = (\<lambda>_. ready_init), sc_sleeping = (\<lambda>_. False), sc_worker = (\<lambda>w. if w < 1 then W_loop False else W_exit),
     sc_pending = {#}, sc_shutdown = False\<rparr>"

text \<open>Actor 7 is activated, gets a message and is put on its ready queue.\<close>

definition sched1 :: sched where
  "sched1 = sched0\<lparr>sc_actor := (sc_actor sched0)(7 := (sc_actor sched0 7)\<lparr>sa_mailbox := mailbox_init\<lparr>m_stack := Blocked_tag\<rparr>, sa_active := True\<rparr>)\<rparr>"

definition sched2 :: sched where
  "sched2 = pend (C_schedule 7) (set_mb 7 (snd (mailbox_push (sample_user 1) (mailbox_init\<lparr>m_stack := Blocked_tag\<rparr>))) sched1)"

definition sched3 :: sched where
  "sched3 = pend (C_wake 0) (set_ready 0 (ready_push 7 ready_init) (unpend (C_schedule 7) sched2))"

lemma sched_reachable:
  "reachable (sched_init 1) (sched_step False 1 5) sched2" "reachable (sched_init 1) (sched_step False 1 5) sched3"
proof -
  have r0: "reachable (sched_init 1) (sched_step False 1 5) sched0"
    by (rule reachable_init) (simp add: sched_init_def sched0_def)
  have "client_step False 1 sched0 (if True then sched1 else pend (C_schedule 7) sched1)"
    by (rule cs_activate [where mb = "mailbox_init\<lparr>m_stack := Blocked_tag\<rparr>"])
      (simp_all add: sched0_def sched1_def try_block_def mailbox_init_def)
  then have r1: "reachable (sched_init 1) (sched_step False 1 5) sched1"
    using reachable_step [OF r0] by (simp add: sched_step_def)
  have m1: "sa_mailbox (sc_actor sched1 7) = mailbox_init\<lparr>m_stack := Blocked_tag\<rparr>" by (simp add: sched1_def)
  let ?p = "mailbox_push (sample_user 1) (mailbox_init\<lparr>m_stack := Blocked_tag\<rparr>)"
  have "fst ?p = PR_unblocked" by (simp add: mailbox_push_def Let_def mailbox_init_def)
  moreover from this have "?p = (PR_unblocked, snd ?p)" by (metis prod.collapse)
  ultimately have "client_step False 1 sched1 sched2"
    using cs_push [of "sample_user 1" sched1 7 "fst ?p" "snd ?p" False 1] m1 by (simp add: sched2_def)
  then show r2: "reachable (sched_init 1) (sched_step False 1 5) sched2"
    using reachable_step [OF r1] by (simp add: sched_step_def)
  have "sc_ready sched2 0 = ready_init" "sa_worker (sc_actor sched2 7) = 0" "C_schedule 7 \<in># sc_pending sched2"
    by (simp_all add: sched2_def sched1_def sched0_def sched_upd)
  then have "client_step False 1 sched2 sched3"
    using cs_schedule [of 7 sched2 0 False 1] by (simp add: sched3_def)
  then show "reachable (sched_init 1) (sched_step False 1 5) sched3"
    using reachable_step [OF r2] by (simp add: sched_step_def)
qed

theorem single_executor_witness:
  "ready_contents (sc_ready sched3 0) = [7] \<and> count_list (ready_contents (sc_ready sched3 0)) 7 = 1 \<and> C_schedule 7 \<notin># sc_pending sched3"
proof -
  have "ready_contents (sc_ready sched3 0) = [7]"
    by (simp add: sched3_def sched_upd ready_contents_def ready_push_def ready_init_def)
  with single_executor [OF sched_reachable(2), of 7 0] show ?thesis by simp
qed


end
