(* ===== verification/Worker.thy ===== *)
theory Worker
  imports Actor_Views Scheduler
begin

text \<open>
  The body of a worker (source/system.cpp: \<open>run_actor\<close>) over the full state of the system, and the proof that the operations of
  \<open>Actor_System\<close> and \<open>Actor_Dispatch\<close> are runs of the step relation of \<open>Scheduler\<close>.

  \<^item> \<open>run_actor\<close> is one call of the function, run to its end by the worker of the actor; the clock of its \<open>n\<close>-th
    turn is \<open>clk n\<close>. An exception that escapes is a result of its own, since it would end the program.
  \<^item> \<open>sched_sim\<close> relates a state of the system to a state of the scheduler: same mailboxes, stop phases, states and ready queues.
    A call of one thread is matched by client steps that leave nothing pending, a turn of a worker by
    steps that take it from \<open>W_enter\<close> back to its loop. \<open>thr w\<close> is the thread of worker \<open>w\<close>, \<open>P\<close> the pooled actors, and \<open>X\<close> actors whose
    state the two sides change at different moments of a stop.

  User code is any code whose own effect on the scheduler is a run of client steps, which is what calls into the framework
  amount to. The system has no inline actors, and the workers are running.
\<close>

section \<open>One call of run_actor\<close>

definition message_budget :: "sys \<Rightarrow> size_t" where
  "message_budget s = (if max_messages_per_turn (m_config s) = 0 then - 1 else max_messages_per_turn (m_config s))"

partial_function (option) run_actor_loop ::
  "framework \<Rightarrow> user_code \<Rightarrow> (nat \<Rightarrow> time_point) \<Rightarrow> thread_id \<Rightarrow> nat \<Rightarrow> actor_ptr \<Rightarrow> size_t \<Rightarrow> size_t \<Rightarrow> nat \<Rightarrow> sys \<Rightarrow> (exn option \<times> sys) option" where
  "run_actor_loop fw user clk tid w a budget handled n s =
     Option.bind
       (if m_stop_phase (s_actors s a) = SP_requested then service_stop_request fw user tid (clk n) a s else Some (False, s))
       (\<lambda>(done, s1).
          if done then Some (None, s1)
          else if budget \<le> handled then Some (None, s1\<lparr>m_workers := (m_workers s1)[w := ready_push a (m_workers s1 ! w)]\<rparr>)
          else if has_messages (s_actors s1 a) then
            (case process_next_message fw user tid (clk n) a s1 of
               None \<Rightarrow> None
             | Some (Some e, s2) \<Rightarrow> Some (Some e, s2)
             | Some (None, s2) \<Rightarrow> run_actor_loop fw user clk tid w a budget (handled + 1) (Suc n) s2)
          else
            (let (blocked, mb) = try_block (m_mailbox (s_actors s1 a));
                 s2 = upd_actor a (\<lambda>A. A\<lparr>m_mailbox := mb\<rparr>) s1
             in if blocked then
                  (if m_stop_phase (s_actors s2 a) = SP_requested then
                     (let (unblocked, mb') = try_unblock (m_mailbox (s_actors s2 a));
                          s3 = upd_actor a (\<lambda>A. A\<lparr>m_mailbox := mb'\<rparr>) s2
                      in if unblocked then run_actor_loop fw user clk tid w a budget handled (Suc n) s3 else Some (None, s3))
                   else Some (None, s2))
                else run_actor_loop fw user clk tid w a budget handled (Suc n) s2))"

definition run_actor ::
  "framework \<Rightarrow> user_code \<Rightarrow> (nat \<Rightarrow> time_point) \<Rightarrow> thread_id \<Rightarrow> nat \<Rightarrow> actor_ptr \<Rightarrow> sys \<Rightarrow> (exn option \<times> sys) option" where
  "run_actor fw user clk tid w a s =
     (if m_state (s_actors s a) = AS_stopped then Some (None, s)
      else run_actor_loop fw user clk tid w a (message_budget s) 0 0 s)"

section \<open>What the scheduler sees\<close>

definition sched_view :: "sys \<Rightarrow> bool \<times> ready_queue list \<times> (actor_ptr \<Rightarrow> actor_kind \<times> bool \<times> mailbox \<times> stop_phase \<times> actor_state \<times> size_t \<times> thread_id option)" where
  "sched_view s = (m_workers_active s, m_workers s, \<lambda>a. (a_kind (s_actors s a), s_alive s a, m_mailbox (s_actors s a),
     m_stop_phase (s_actors s a), m_state (s_actors s a), m_assigned_thread_id (s_actors s a), m_stop_executor (s_actors s a)))"

lemma sched_view_eq:
  "sched_view s = sched_view t \<longleftrightarrow> m_workers_active s = m_workers_active t \<and> m_workers s = m_workers t \<and> s_alive s = s_alive t
    \<and> (\<forall>a. a_kind (s_actors s a) = a_kind (s_actors t a) \<and> m_mailbox (s_actors s a) = m_mailbox (s_actors t a)
        \<and> m_stop_phase (s_actors s a) = m_stop_phase (s_actors t a) \<and> m_state (s_actors s a) = m_state (s_actors t a)
        \<and> m_assigned_thread_id (s_actors s a) = m_assigned_thread_id (s_actors t a)
        \<and> m_stop_executor (s_actors s a) = m_stop_executor (s_actors t a))"
  by (auto simp: sched_view_def fun_eq_iff)

interpretation scheduling: bookkeeping_view sched_view
  by unfold_locales
    (auto simp: sched_view_eq upd_actor_def update_high_water_marks_def schedule_def is_fast_def Let_def)

definition sched_sim :: "bool \<Rightarrow> (nat \<Rightarrow> thread_id) \<Rightarrow> actor_ptr set \<Rightarrow> actor_ptr set \<Rightarrow> sys \<Rightarrow> sched \<Rightarrow> bool" where
  "sched_sim early thr P X s c \<longleftrightarrow> m_workers_active s
     \<and> (\<forall>a. \<not> runs_inline (s_actors s a) \<and> (has_worker s a \<longleftrightarrow> a \<in> P))
     \<and> (\<forall>a \<in> P. sa_mailbox (sc_actor c a) = m_mailbox (s_actors s a) \<and> sa_phase (sc_actor c a) = m_stop_phase (s_actors s a)
          \<and> sa_worker (sc_actor c a) = unat (m_assigned_thread_id (s_actors s a))
          \<and> (if a \<in> X then m_stop_phase (s_actors s a) \<noteq> SP_none else sa_state (sc_actor c a) = m_state (s_actors s a))
          \<and> (early \<or> sa_active (sc_actor c a)) \<and> a_kind (s_actors s a) = Pooled
          \<and> (m_stop_executor (s_actors s a) = None \<or> m_stop_executor (s_actors s a) = Some (thr (sa_worker (sc_actor c a)))))
     \<and> (\<forall>w < length (m_workers s). sc_ready c w = m_workers s ! w)"

lemma has_worker_view: "sched_view s = sched_view t \<Longrightarrow> has_worker s a = has_worker t a"
  by (auto simp: sched_view_eq has_worker_def is_fast_def)

lemma sched_sim_view:
  assumes "sched_view s = sched_view t"
  shows "sched_sim early thr P X s c \<longleftrightarrow> sched_sim early thr P X t c"
  using assms has_worker_view [OF assms] unfolding sched_view_eq by (simp add: sched_sim_def runs_inline_def)

lemma sched_simD:
  assumes "sched_sim early thr P X s c"
  shows "m_workers_active s" "\<not> runs_inline (s_actors s a)" "has_worker s a \<longleftrightarrow> a \<in> P"
    "a \<in> P \<Longrightarrow> sa_mailbox (sc_actor c a) = m_mailbox (s_actors s a)"
    "a \<in> P \<Longrightarrow> sa_phase (sc_actor c a) = m_stop_phase (s_actors s a)"
    "a \<in> P \<Longrightarrow> sa_worker (sc_actor c a) = unat (m_assigned_thread_id (s_actors s a))"
    "a \<in> P \<Longrightarrow> a \<in> X \<Longrightarrow> m_stop_phase (s_actors s a) \<noteq> SP_none"
    "a \<in> P \<Longrightarrow> a \<notin> X \<Longrightarrow> sa_state (sc_actor c a) = m_state (s_actors s a)"
    "a \<in> P \<Longrightarrow> early \<or> sa_active (sc_actor c a)"
    "w < length (m_workers s) \<Longrightarrow> sc_ready c w = m_workers s ! w"
    "a \<in> P \<Longrightarrow> a_kind (s_actors s a) = Pooled"
    "a \<in> P \<Longrightarrow> m_stop_executor (s_actors s a) = None \<or> m_stop_executor (s_actors s a) = Some (thr (sa_worker (sc_actor c a)))"
  using assms unfolding sched_sim_def by (auto split: if_splits)

section \<open>Calls as client steps\<close>

definition client_call :: "bool \<Rightarrow> nat \<Rightarrow> sched \<Rightarrow> sched \<Rightarrow> bool" where
  "client_call early nw c c' \<longleftrightarrow> (client_step early nw)\<^sup>*\<^sup>* c c' \<and> sc_pending c' = sc_pending c
     \<and> (\<forall>w. sc_worker c w \<noteq> W_wait \<longrightarrow> sc_worker c' w = sc_worker c w)"

lemma client_call_refl: "client_call early nw c c"
  by (simp add: client_call_def)

lemma client_call_trans: "client_call early nw c c' \<Longrightarrow> client_call early nw c' c'' \<Longrightarrow> client_call early nw c c''"
  by (auto simp: client_call_def)

text \<open>Whoever made an actor busy puts it on its ready queue, looks whether its worker sleeps, and notifies it then.\<close>

lemma schedule_steps:
  "\<exists>c'. (client_step early nw)\<^sup>*\<^sup>* (pend (C_schedule a) c) c' \<and> sc_pending c' = sc_pending c
    \<and> sc_actor c' = sc_actor c \<and> sc_ready c' = (sc_ready c)(sa_worker (sc_actor c a) := ready_push a (sc_ready c (sa_worker (sc_actor c a))))
    \<and> (\<forall>w. sc_worker c w \<noteq> W_wait \<longrightarrow> sc_worker c' w = sc_worker c w)"
proof -
  let ?w = "sa_worker (sc_actor c a)"
  define c0 where "c0 = set_ready ?w (ready_push a (sc_ready c ?w)) c"
  have u: "unpend x (pend x d) = d" for x d by (simp add: unpend_def pend_def)
  have "client_step early nw (pend (C_schedule a) c) (pend (C_wake ?w) (set_ready ?w (ready_push a (sc_ready (pend (C_schedule a) c) ?w)) (unpend (C_schedule a) (pend (C_schedule a) c))))"
    by (rule cs_schedule) (simp_all add: pend_def)
  then have 1: "client_step early nw (pend (C_schedule a) c) (pend (C_wake ?w) c0)"
    unfolding u by (simp add: c0_def pend_def)
  have 2: "client_step early nw (pend (C_wake ?w) c0) (if sc_sleeping (pend (C_wake ?w) c0) ?w then pend (C_notify ?w) c0 else c0)"
    using cs_wake [of ?w "pend (C_wake ?w) c0" early nw] unfolding u by (simp add: pend_def)
  have 3: "client_step early nw (pend (C_notify ?w) c0) (if sc_worker (pend (C_notify ?w) c0) ?w = W_wait then go ?w W_check c0 else c0)"
    using cs_notify [of ?w "pend (C_notify ?w) c0" early nw] unfolding u by (simp add: pend_def)
  have "\<exists>c'. (client_step early nw)\<^sup>*\<^sup>* (pend (C_wake ?w) c0) c' \<and> (c' = c0 \<or> sc_worker c0 ?w = W_wait \<and> c' = go ?w W_check c0)"
  proof (cases "sc_sleeping (pend (C_wake ?w) c0) ?w")
    case True
    with 2 have "client_step early nw (pend (C_wake ?w) c0) (pend (C_notify ?w) c0)" by simp
    with 3 show ?thesis
      by (cases "sc_worker c0 ?w = W_wait") (auto simp: pend_def intro!: exI converse_rtranclp_into_rtranclp [OF _ r_into_rtranclp])
  next
    case False
    with 2 show ?thesis by auto
  qed
  then obtain c' where "(client_step early nw)\<^sup>*\<^sup>* (pend (C_wake ?w) c0) c'" "c' = c0 \<or> sc_worker c0 ?w = W_wait \<and> c' = go ?w W_check c0"
    by blast
  with converse_rtranclp_into_rtranclp [of "client_step early nw", OF 1] show ?thesis
    by (intro exI [of _ c']) (auto simp: c0_def sched_upd)
qed

lemma schedule_sim:
  assumes sim: "sched_sim early thr P X s c" and a: "a \<in> P"
  shows "\<exists>c'. (client_step early nw)\<^sup>*\<^sup>* (pend (C_schedule a) c) c' \<and> sc_pending c' = sc_pending c
    \<and> (\<forall>w. sc_worker c w \<noteq> W_wait \<longrightarrow> sc_worker c' w = sc_worker c w) \<and> sched_sim early thr P X (schedule a s) c'"
proof -
  let ?w = "unat (m_assigned_thread_id (s_actors s a))"
  have w: "sa_worker (sc_actor c a) = ?w" and hw: "has_worker s a" using sched_simD [OF sim] a by simp_all
  have r: "schedule a s = s\<lparr>m_workers := (m_workers s)[?w := ready_push a (m_workers s ! ?w)]\<rparr>"
    using hw by (simp add: schedule_def has_worker_def Let_def)
  obtain c' where c': "(client_step early nw)\<^sup>*\<^sup>* (pend (C_schedule a) c) c'" "sc_pending c' = sc_pending c" "sc_actor c' = sc_actor c"
    "sc_ready c' = (sc_ready c)(?w := ready_push a (sc_ready c ?w))" "\<forall>w. sc_worker c w \<noteq> W_wait \<longrightarrow> sc_worker c' w = sc_worker c w"
    using schedule_steps [of early nw a c] unfolding w by blast
  have "sched_sim early thr P X (schedule a s) c'"
    using sim c'(3,4) hw unfolding r sched_sim_def by (auto simp: has_worker_def nth_list_update)
  with c' show ?thesis by blast
qed

lemma set_mb_sim:
  assumes "sched_sim early thr P X s c" "a \<in> P"
  shows "sched_sim early thr P X (upd_actor a (\<lambda>A. A\<lparr>m_mailbox := mb\<rparr>) s) (set_mb a mb c)"
  using assms by (auto simp: sched_sim_def upd_actor_def set_mb_def has_worker_def is_fast_def runs_inline_def)

lemma outside_sim:
  assumes "sched_sim early thr P X s c" "a \<notin> P" "a_kind (f (s_actors s a)) = a_kind (s_actors s a)"
    "m_assigned_thread_id (f (s_actors s a)) = m_assigned_thread_id (s_actors s a)"
  shows "sched_sim early thr P X (upd_actor a f s) c"
proof -
  have "has_worker (upd_actor a f s) b = has_worker s b" for b using assms(3,4) by (auto simp: has_worker_def upd_actor_def is_fast_def)
  with assms show ?thesis by (auto simp: sched_sim_def upd_actor_def runs_inline_def)
qed

lemma schedule_outside: "sched_sim early thr P X s c \<Longrightarrow> a \<notin> P \<Longrightarrow> schedule a s = s"
  using schedule_spec(6) sched_simD(3) by blast

lemma push_step_sim:
  assumes sim: "sched_sim early thr P X s c"
  shows "\<exists>c'. client_call early nw c c' \<and> sched_sim early thr P X (push_step a msg s) c'"
proof -
  obtain r mb where p: "mailbox_push msg (m_mailbox (s_actors s a)) = (r, mb)" by fastforce
  let ?s = "upd_actor a (\<lambda>A. A\<lparr>m_mailbox := mb\<rparr>) s"
  show ?thesis
  proof (cases "a \<in> P")
    case False
    have o: "sched_sim early thr P X ?s c" by (rule outside_sim [OF sim False]) simp_all
    then have "push_step a msg s = ?s" using p schedule_outside [OF o False] by (simp add: push_step_def Let_def)
    with o client_call_refl show ?thesis by metis
  next
    case True
    have m: "sched_sim early thr P X ?s (set_mb a mb c)" by (rule set_mb_sim [OF sim True])
    have step: "client_step early nw c (if r = PR_unblocked then pend (C_schedule a) (set_mb a mb c) else set_mb a mb c)"
      using cs_push [where m = msg and s = c and a = a and r = r and mb = mb and early = early and nw = nw] p sched_simD(4) [OF sim True] by simp
    show ?thesis
    proof (cases "r = PR_unblocked")
      case False
      with step m p show ?thesis by (intro exI [of _ "set_mb a mb c"]) (auto simp: client_call_def push_step_def set_mb_def)
    next
      case u: True
      obtain c' where "(client_step early nw)\<^sup>*\<^sup>* (pend (C_schedule a) (set_mb a mb c)) c'" "sc_pending c' = sc_pending (set_mb a mb c)"
        "\<forall>w. sc_worker (set_mb a mb c) w \<noteq> W_wait \<longrightarrow> sc_worker c' w = sc_worker (set_mb a mb c) w" "sched_sim early thr P X (schedule a ?s) c'"
        using schedule_sim [OF m True] by blast
      with step u p show ?thesis
        by (intro exI [of _ c']) (auto simp: client_call_def push_step_def set_mb_def intro: converse_rtranclp_into_rtranclp)
    qed
  qed
qed

lemma send_sim:
  assumes "callbacks_observe user" and sim: "sched_sim early thr P X s c"
  shows "\<exists>c'. client_call early nw c c' \<and> sched_sim early thr P X (send user as_call a msg s) c'"
proof (cases "m_state (s_actors s a) = AS_running")
  case True
  obtain c' where "client_call early nw c c'" "sched_sim early thr P X (push_step a msg s) c'" using push_step_sim [OF sim] by blast
  moreover have "sched_view (send user as_call a msg s) = sched_view (push_step a msg s)"
    using scheduling.view_send [OF assms(1), of as_call a msg s] True by simp
  ultimately show ?thesis using sched_sim_view by blast
next
  case False
  then have "sched_view (send user as_call a msg s) = sched_view s" using scheduling.view_send [OF assms(1), of as_call a msg s] by simp
  with sim show ?thesis using sched_sim_view client_call_refl by blast
qed

section \<open>Requesting a stop\<close>

lemma set_stop_sim:
  assumes "sched_sim early thr P X s c" "a \<in> P" "a \<notin> X"
    "f (s_actors s a) = (s_actors s a)\<lparr>m_stop_discard := d, m_stop_notify_watchers := nt, m_stop_drain_deadline := dl, m_state := st, m_stop_phase := ph\<rparr>"
  shows "sched_sim early thr P X (upd_actor a f s) (set_stop a ph st c)"
  using assms by (auto simp: sched_sim_def upd_actor_def set_stop_def has_worker_def is_fast_def runs_inline_def)

lemma unblock_sim:
  assumes sim: "sched_sim early thr P X s c" and a: "a \<in> P" and u: "try_unblock (m_mailbox (s_actors s a)) = (ok, mb)"
    and s1: "s1 = upd_actor a (\<lambda>A. A\<lparr>m_mailbox := mb\<rparr>) s"
  shows "\<exists>c'. (client_step early nw)\<^sup>*\<^sup>* (pend (S_unblock a) c) c' \<and> sc_pending c' = sc_pending c
    \<and> (\<forall>w. sc_worker c w \<noteq> W_wait \<longrightarrow> sc_worker c' w = sc_worker c w) \<and> sched_sim early thr P X (if ok then schedule a s1 else s1) c'"
proof -
  have x: "set_mb a mb (unpend (S_unblock a) (pend (S_unblock a) c)) = set_mb a mb c" by (simp add: unpend_def pend_def)
  have step: "client_step early nw (pend (S_unblock a) c) (if ok then pend (C_schedule a) (set_mb a mb c) else set_mb a mb c)"
    using cs_unblock [where a = a and s = "pend (S_unblock a) c" and ok = ok and mb = mb and early = early and nw = nw] u sched_simD(4) [OF sim a]
    unfolding x by (simp add: pend_def)
  have m: "sched_sim early thr P X s1 (set_mb a mb c)" unfolding s1 by (rule set_mb_sim [OF sim a])
  show ?thesis
  proof (cases ok)
    case False
    with step m show ?thesis by (intro exI [of _ "set_mb a mb c"]) (auto simp: set_mb_def)
  next
    case True
    obtain c' where "(client_step early nw)\<^sup>*\<^sup>* (pend (C_schedule a) (set_mb a mb c)) c'" "sc_pending c' = sc_pending (set_mb a mb c)"
      "\<forall>w. sc_worker (set_mb a mb c) w \<noteq> W_wait \<longrightarrow> sc_worker c' w = sc_worker (set_mb a mb c) w" "sched_sim early thr P X (schedule a s1) c'"
      using schedule_sim [OF m a] by blast
    with step True show ?thesis by (intro exI [of _ c']) (auto simp: set_mb_def intro: converse_rtranclp_into_rtranclp)
  qed
qed

lemma reap_view: "sched_view (reap_stopped_fast_actors tid s) = sched_view s"
proof -
  have j: "sched_view (join_dedicated a s) = sched_view s" for a s by (auto simp: sched_view_eq join_dedicated_def upd_actor_def)
  have "sched_view (fold join_dedicated xs s) = sched_view s" for xs s by (induction xs arbitrary: s) (simp_all add: j)
  then show ?thesis by (simp add: reap_stopped_fast_actors_def sched_view_eq)
qed

lemma stop_end_view: "sched_view (stop_actor_end tid a s) = sched_view s"
  by (simp add: stop_actor_end_def reap_view)

lemma stop_actor_sim:
  assumes sim: "sched_sim early thr P X s c" and st: "stop_actor fw tid now ref cfg s = Some (r, s')"
  shows "\<exists>c'. client_call early nw c c' \<and> sched_sim early thr P X s' c'"
proof (cases "\<exists>a. ref = Some a \<and> m_state (s_actors s a) = AS_running \<and> m_stop_phase (s_actors s a) = SP_none")
  case False
  with st have "s' = s" by (auto simp: stop_actor_def split: option.splits if_splits)
  with sim client_call_refl show ?thesis by blast
next
  case True
  then obtain a where ref: "ref = Some a" and run: "m_state (s_actors s a) = AS_running" "m_stop_phase (s_actors s a) = SP_none" by blast
  define s1 where "s1 = upd_actor a (request_stop cfg now) s"
  obtain ok mb where u: "try_unblock (m_mailbox (s_actors s1 a)) = (ok, mb)" by fastforce
  define s2 where "s2 = upd_actor a (\<lambda>A. A\<lparr>m_mailbox := mb\<rparr>) s1"
  define s3 where "s3 = (if is_fast (s_actors s1 a) then s1 else if ok then schedule a s2 else s2)"
  have "m_workers_active s1" using sched_simD(1) [OF sim] by (simp add: s1_def upd_actor_def)
  then have "s' = s3 \<or> s' = stop_actor_end tid a s3"
    using st ref run u unfolding stop_actor_def by (auto simp: Let_def s1_def [symmetric] s2_def [symmetric] s3_def split: if_splits)
  then have view: "sched_view s' = sched_view s3" using stop_end_view by auto
  show ?thesis
  proof (cases "a \<in> P")
    case False
    have o1: "sched_sim early thr P X s1 c" unfolding s1_def by (rule outside_sim [OF sim False]) (simp_all add: request_stop_def)
    have o2: "sched_sim early thr P X s2 c" unfolding s2_def by (rule outside_sim [OF o1 False]) simp_all
    have "sched_sim early thr P X s3 c" using o1 o2 schedule_outside [OF o2 False] by (simp add: s3_def)
    with view show ?thesis using sched_sim_view client_call_refl by blast
  next
    case a: True
    have X: "a \<notin> X" using sched_simD(7) [OF sim a] run(2) by blast
    let ?c = "set_stop a SP_requested AS_stopping c"
    have "sa_state (sc_actor c a) = AS_running" "sa_phase (sc_actor c a) = SP_none" "early \<or> sa_active (sc_actor c a)"
      using sched_simD(5,8,9) [OF sim a] X run by simp_all
    then have step: "client_step early nw c (pend (S_unblock a) ?c)" by (rule cs_stop)
    have m: "sched_sim early thr P X s1 ?c" unfolding s1_def by (rule set_stop_sim [OF sim a X]) (simp add: request_stop_def)
    obtain c' where c': "(client_step early nw)\<^sup>*\<^sup>* (pend (S_unblock a) ?c) c'" "sc_pending c' = sc_pending ?c"
      "\<forall>w. sc_worker ?c w \<noteq> W_wait \<longrightarrow> sc_worker c' w = sc_worker ?c w" "sched_sim early thr P X (if ok then schedule a s2 else s2) c'"
      using unblock_sim [OF m a u s2_def] by blast
    have "\<not> is_fast (s_actors s1 a)" using sched_simD(3) [OF m, of a] a by (simp add: has_worker_def)
    with c'(4) have "sched_sim early thr P X s3 c'" by (simp add: s3_def)
    with view have "sched_sim early thr P X s' c'" using sched_sim_view by blast
    moreover have "client_call early nw c c'"
      using step c'(1-3) by (auto simp: client_call_def set_stop_def intro: converse_rtranclp_into_rtranclp)
    ultimately show ?thesis by blast
  qed
qed

lemma activate_sim:
  assumes sim: "sched_sim True thr P X s c" and new: "a \<in> P \<Longrightarrow> \<not> sa_active (sc_actor c a)"
  shows "\<exists>c'. client_call True nw c c' \<and> sched_sim True thr P X (activate_after_start a s) c'"
proof -
  obtain ok mb where b: "try_block (m_mailbox (s_actors s a)) = (ok, mb)" by fastforce
  let ?s = "upd_actor a (\<lambda>A. A\<lparr>m_mailbox := mb\<rparr>) s"
  show ?thesis
  proof (cases "a \<in> P")
    case False
    have o: "sched_sim True thr P X ?s c" by (rule outside_sim [OF sim False]) simp_all
    with schedule_outside [OF o False] b sim have "sched_sim True thr P X (activate_after_start a s) c"
      by (simp add: activate_after_start_def Let_def)
    with client_call_refl show ?thesis by blast
  next
    case True
    define c1 where "c1 = c\<lparr>sc_actor := (sc_actor c)(a := (sc_actor c a)\<lparr>sa_mailbox := mb, sa_active := True\<rparr>)\<rparr>"
    have step: "client_step True nw c (if ok then c1 else pend (C_schedule a) c1)"
      using cs_activate [where s = c and a = a and ok = ok and mb = mb, OF new [OF True] _ c1_def] b sched_simD(4) [OF sim True] by simp
    have m: "sched_sim True thr P X ?s c1"
      using sim True by (auto simp: sched_sim_def upd_actor_def c1_def has_worker_def is_fast_def runs_inline_def)
    have e: "activate_after_start a s = (if ok then ?s else schedule a ?s)"
      using b sched_simD(3) [OF sim, of a] True by (simp add: activate_after_start_def has_worker_def)
    show ?thesis
    proof (cases ok)
      case True
      with step m e show ?thesis by (intro exI [of _ c1]) (auto simp: client_call_def c1_def)
    next
      case False
      obtain c' where "(client_step True nw)\<^sup>*\<^sup>* (pend (C_schedule a) c1) c'" "sc_pending c' = sc_pending c1"
        "\<forall>w. sc_worker c1 w \<noteq> W_wait \<longrightarrow> sc_worker c' w = sc_worker c1 w" "sched_sim True thr P X (schedule a ?s) c'"
        using schedule_sim [OF m True] by blast
      with step False e show ?thesis
        by (intro exI [of _ c']) (auto simp: client_call_def c1_def intro: converse_rtranclp_into_rtranclp)
    qed
  qed
qed

section \<open>User code that acts through the framework\<close>

definition refines_calls :: "bool \<Rightarrow> nat \<Rightarrow> (nat \<Rightarrow> thread_id) \<Rightarrow> actor_ptr set \<Rightarrow> (sys \<Rightarrow> sys) \<Rightarrow> bool" where
  "refines_calls early nw thr P f \<longleftrightarrow> (\<forall>X s c. sched_sim early thr P X s c \<longrightarrow> (\<exists>c'. client_call early nw c c' \<and> sched_sim early thr P X (f s) c'))"

definition user_refines :: "bool \<Rightarrow> nat \<Rightarrow> (nat \<Rightarrow> thread_id) \<Rightarrow> actor_ptr set \<Rightarrow> user_code \<Rightarrow> bool" where
  "user_refines early nw thr P user \<longleftrightarrow> callbacks_observe user
     \<and> (\<forall>h a m. refines_calls early nw thr P (\<lambda>s. snd (uc_handler user h a m s)))
     \<and> (\<forall>a m. refines_calls early nw thr P (\<lambda>s. snd (uc_unhandled user a m s)))
     \<and> (\<forall>a. refines_calls early nw thr P (\<lambda>s. snd (uc_on_shutdown user a s)))
     \<and> (\<forall>a. refines_calls early nw thr P (\<lambda>s. snd (uc_on_stop user a s)))
     \<and> (\<forall>a m e. refines_calls early nw thr P (\<lambda>s. snd (uc_on_handler_exception user a m e s)))
     \<and> (\<forall>h a args. refines_calls early nw thr P (\<lambda>s. snd (uc_call_handler user h a args s)))"

lemma refines_callsD:
  "refines_calls early nw thr P f \<Longrightarrow> sched_sim early thr P X s c \<Longrightarrow> \<exists>c'. client_call early nw c c' \<and> sched_sim early thr P X (f s) c'"
  by (simp add: refines_calls_def)

lemma refines_view: "(\<And>s. sched_view (f s) = sched_view s) \<Longrightarrow> refines_calls early nw thr P f"
  unfolding refines_calls_def using sched_sim_view client_call_refl by blast

lemma refines_comp:
  assumes "refines_calls early nw thr P f" "refines_calls early nw thr P g"
  shows "refines_calls early nw thr P (\<lambda>s. g (f s))"
  unfolding refines_calls_def
proof (intro allI impI)
  fix X s c
  assume "sched_sim early thr P X s c"
  from refines_callsD [OF assms(1) this] obtain c1 where 1: "client_call early nw c c1" "sched_sim early thr P X (f s) c1" by blast
  from refines_callsD [OF assms(2) 1(2)] 1(1) client_call_trans
  show "\<exists>c'. client_call early nw c c' \<and> sched_sim early thr P X (g (f s)) c'" by blast
qed

lemma send_refines: "callbacks_observe user \<Longrightarrow> refines_calls early nw thr P (send user as_call a msg)"
  unfolding refines_calls_def using send_sim by blast

definition fw_refines :: "bool \<Rightarrow> nat \<Rightarrow> (nat \<Rightarrow> thread_id) \<Rightarrow> actor_ptr set \<Rightarrow> framework \<Rightarrow> bool" where
  "fw_refines early nw thr P fw \<longleftrightarrow> (\<forall>tid a m X s c r s'. sched_sim early thr P X s c \<and> fw_enqueue fw tid a m s = Some (r, s') \<longrightarrow>
     (\<exists>c'. client_call early nw c c' \<and> sched_sim early thr P X s' c'))"

lemma framework_refines:
  assumes "callbacks_observe user"
  shows "fw_refines early nw thr P (framework_of user clk d)"
proof (cases d)
  case (Suc n)
  show ?thesis
    unfolding fw_refines_def Suc
  proof (intro allI impI, elim conjE)
    fix tid a m X s c r s'
    assume sim: "sched_sim early thr P X s c" and "fw_enqueue (framework_of user clk (Suc n)) tid a m s = Some (r, s')"
    then have "s' = send user False a m s" using sched_simD(2) [OF sim, of a] by (simp add: actor_enqueue_def send_def)
    then show "\<exists>c'. client_call early nw c c' \<and> sched_sim early thr P X s' c'" using send_sim [OF assms sim] by simp
  qed
qed (simp add: fw_refines_def)

section \<open>Hooks, calls and notifications\<close>

lemma user_refinesD:
  assumes "user_refines early nw thr P user"
  shows "callbacks_observe user" "refines_calls early nw thr P (\<lambda>s. snd (uc_handler user h a m s))"
    "refines_calls early nw thr P (\<lambda>s. snd (uc_unhandled user a m s))" "refines_calls early nw thr P (\<lambda>s. snd (uc_on_shutdown user a s))"
    "refines_calls early nw thr P (\<lambda>s. snd (uc_on_stop user a s))" "refines_calls early nw thr P (\<lambda>s. snd (uc_on_handler_exception user a m e s))"
    "refines_calls early nw thr P (\<lambda>s. snd (uc_call_handler user i a args s))"
  using assms unfolding user_refines_def by blast+

lemma refines_cong_view:
  assumes "refines_calls early nw thr P f" "\<And>s. sched_view (g s) = sched_view (f s)"
  shows "refines_calls early nw thr P g"
  using assms unfolding refines_calls_def using sched_sim_view by blast

lemma hook_refines:
  assumes "user_refines early nw thr P user"
  shows "refines_calls early nw thr P (run_stop_hook user tid a hook)"
proof -
  note obs = user_refinesD(1) [OF assms]
  define f where "f = (\<lambda>s. snd (if hook = SH_on_shutdown then uc_on_shutdown user a s else uc_on_stop user a s))"
  have "refines_calls early nw thr P f" using user_refinesD(4,5) [OF assms, of a] by (cases hook) (simp_all add: f_def)
  moreover have "refines_calls early nw thr P (set_context tid (Some a))" by (rule refines_view) (rule scheduling.view_set_context)
  ultimately have "refines_calls early nw thr P (\<lambda>s. f (set_context tid (Some a) s))" by (rule refines_comp [rotated])
  then show ?thesis
    by (rule refines_cong_view)
      (simp add: run_stop_hook_def Let_def case_prod_beta scheduling.view_set_context scheduling.view_exception [OF obs] f_def split: option.split)
qed

lemma settle_view: "sched_view (settle p st s) = sched_view s"
  by (simp add: settle_def scheduling.view_promises)

lemma call_process_refines:
  assumes "user_refines early nw thr P user"
  shows "refines_calls early nw thr P (call_process user a cp)"
  unfolding refines_calls_def
proof (intro allI impI)
  fix X s c
  assume sim: "sched_sim early thr P X s c"
  have "sched_view (call_process user a cp s) = sched_view s
      \<or> (\<exists>h. sched_view (call_process user a cp s) = sched_view (snd (uc_call_handler user h a (call_args cp) s)))"
    by (auto simp: call_process_def settle_view split: option.split sum.split prod.split) (metis snd_conv)+
  then show "\<exists>c'. client_call early nw c c' \<and> sched_sim early thr P X (call_process user a cp s) c'"
    using sim client_call_refl sched_sim_view refines_callsD [OF user_refinesD(7) [OF assms] sim] by metis
qed

lemma tell_sim:
  assumes fw: "fw_refines early nw thr P fw" and sim: "sched_sim early thr P X s c" and t: "tell fw user tid (Some a) msg s = Some (r, s')"
  shows "\<exists>c'. client_call early nw c c' \<and> sched_sim early thr P X s' c'"
proof (cases "self_ref tid s")
  case (Inl e)
  with t sim client_call_refl show ?thesis by (auto simp: tell_def)
next
  case (Inr who)
  let ?s = "s\<lparr>m_next_message_id := m_next_message_id s + 1\<rparr>"
  have "sched_sim early thr P X ?s c" using sim sched_sim_view [OF scheduling.view_next_id] by blast
  moreover obtain m where "fw_enqueue fw tid a m ?s = Some (r, s')" using t Inr by (auto simp: tell_def next_message_id_def Let_def)
  ultimately show ?thesis using fw unfolding fw_refines_def by blast
qed

lemma notify_sim:
  assumes fw: "fw_refines early nw thr P fw" and obs: "callbacks_observe user"
    and sim: "sched_sim early thr P X s c" and n: "notify_all_watchers fw user tid a ws s = Some s'"
  shows "\<exists>c'. client_call early nw c c' \<and> sched_sim early thr P X s' c'"
  using sim n
proof (induction ws arbitrary: s c)
  case Nil
  with client_call_refl show ?case by auto
next
  case (Cons w ws)
  show ?case
  proof (cases "m_state (s_actors s w) = AS_running")
    case False
    with Cons show ?thesis by simp
  next
    case True
    define s1 where "s1 = snd (actor_name a s)"
    have sim1: "sched_sim early thr P X s1 c" using Cons.prems(1) sched_sim_view [OF scheduling.view_actor_name] by (simp add: s1_def)
    define m where "m = termination_message a (fst (actor_name a s)) s1"
    have "\<exists>r s2 s3. tell fw user tid (Some w) m s1 = Some (r, s2) \<and> sched_view s3 = sched_view s2
        \<and> notify_all_watchers fw user tid a ws s3 = Some s'"
      using Cons.prems(2) True
      by (auto simp: Let_def case_prod_beta s1_def m_def split: option.splits) (metis scheduling.view_exception [OF obs])
    then obtain r s2 s3 where t: "tell fw user tid (Some w) m s1 = Some (r, s2)"
      and rest: "sched_view s3 = sched_view s2" "notify_all_watchers fw user tid a ws s3 = Some s'" by blast
    obtain c1 where c1: "client_call early nw c c1" "sched_sim early thr P X s2 c1" using tell_sim [OF fw sim1 t] by blast
    with rest have "sched_sim early thr P X s3 c1" using sched_sim_view by blast
    from Cons.IH [OF this rest(2)] c1(1) client_call_trans show ?thesis by blast
  qed
qed

lemma end_watches_sim:
  assumes "fw_refines early nw thr P fw" "callbacks_observe user" "sched_sim early thr P X s c" "end_watches fw user tid a b s = Some s'"
  shows "\<exists>c'. client_call early nw c c' \<and> sched_sim early thr P X s' c'"
proof -
  let ?i = "m_instance_id (s_actors s a)"
  have "sched_sim early thr P X (snd (remove_watches ?i s)) c"
    using assms(3) sched_sim_view [OF scheduling.view_remove_watches] by blast
  with assms(4) notify_sim [OF assms(1,2)] client_call_refl show ?thesis
    by (cases b) (simp_all add: end_watches_def case_prod_beta, blast+)
qed

section \<open>Runs of a worker\<close>

definition worker_run :: "bool \<Rightarrow> nat \<Rightarrow> nat \<Rightarrow> sched \<Rightarrow> sched \<Rightarrow> bool" where
  "worker_run early nw budget c c' \<longleftrightarrow> (sched_step early nw budget)\<^sup>*\<^sup>* c c' \<and> sc_pending c' = sc_pending c"

lemma worker_run_refl: "worker_run early nw budget c c"
  by (simp add: worker_run_def)

lemma worker_run_trans:
  "worker_run early nw budget c c' \<Longrightarrow> worker_run early nw budget c' c'' \<Longrightarrow> worker_run early nw budget c c''"
  by (auto simp: worker_run_def)

lemma worker_run_step: "worker_step budget c c' \<Longrightarrow> sc_pending c' = sc_pending c \<Longrightarrow> worker_run early nw budget c c'"
  by (auto simp: worker_run_def sched_step_def)

lemma worker_run_call: "client_call early nw c c' \<Longrightarrow> worker_run early nw budget c c'"
proof -
  have "(sched_step early nw budget)\<^sup>*\<^sup>* c c'" if "(client_step early nw)\<^sup>*\<^sup>* c c'"
    using that by (rule rtranclp_mono [THEN predicate2D, rotated]) (auto simp: sched_step_def)
  then show "client_call early nw c c' \<Longrightarrow> worker_run early nw budget c c'" by (simp add: worker_run_def client_call_def)
qed

lemma call_keeps_pc: "client_call early nw c c' \<Longrightarrow> sc_worker c w = pc \<Longrightarrow> pc \<noteq> W_wait \<Longrightarrow> sc_worker c' w = pc"
  by (auto simp: client_call_def)

lemma call_keeps_stop:
  assumes "client_call early nw c c'" "sa_phase (sc_actor c a) \<noteq> SP_none"
  shows "sa_phase (sc_actor c' a) = sa_phase (sc_actor c a) \<and> sa_state (sc_actor c' a) = sa_state (sc_actor c a)"
proof -
  have "sa_phase (sc_actor c' a) = sa_phase (sc_actor c a) \<and> sa_state (sc_actor c' a) = sa_state (sc_actor c a)"
    if "(client_step early nw)\<^sup>*\<^sup>* c c'"
    using that
  proof induction
    case (step y z)
    from step.hyps(2) show ?case
      by cases (use step.IH assms(2) in \<open>auto simp: sched_upd\<close>)
  qed simp
  with assms(1) show ?thesis by (simp add: client_call_def)
qed

section \<open>Carrying out a stop\<close>

definition reaches :: "bool \<Rightarrow> nat \<Rightarrow> (nat \<Rightarrow> thread_id) \<Rightarrow> actor_ptr set \<Rightarrow> nat \<Rightarrow> actor_ptr set \<Rightarrow> nat \<Rightarrow> worker_pc \<Rightarrow> sched \<Rightarrow> sys \<Rightarrow> bool" where
  "reaches early nw thr P budget X w pc c s \<longleftrightarrow> (\<exists>c'. worker_run early nw budget c c' \<and> sc_worker c' w = pc \<and> sched_sim early thr P X s c')"

lemma reachesI: "sc_worker c w = pc \<Longrightarrow> sched_sim early thr P X s c \<Longrightarrow> reaches early nw thr P budget X w pc c s"
  unfolding reaches_def using worker_run_refl by blast

lemma reaches_run:
  "worker_run early nw budget c c' \<Longrightarrow> reaches early nw thr P budget X w pc c' s \<Longrightarrow> reaches early nw thr P budget X w pc c s"
  unfolding reaches_def using worker_run_trans by blast

lemma reaches_step:
  "worker_step budget c c' \<Longrightarrow> sc_pending c' = sc_pending c \<Longrightarrow> reaches early nw thr P budget X w pc c' s \<Longrightarrow>
    reaches early nw thr P budget X w pc c s"
  by (rule reaches_run [OF worker_run_step])

lemma go_sim [simp]: "sched_sim early thr P X s (go w pc c) \<longleftrightarrow> sched_sim early thr P X s c"
  unfolding sched_sim_def go_def by simp

lemma reaches_go:
  "worker_step budget c (go w' pc' c) \<Longrightarrow> reaches early nw thr P budget X w pc (go w' pc' c) s \<Longrightarrow> reaches early nw thr P budget X w pc c s"
  by (rule reaches_step) (simp_all add: go_def)

lemma step_fields [simp]: "sc_worker (go w pc c) w = pc" "sc_actor (go w pc c) = sc_actor c" "sc_pending (go w pc c) = sc_pending c"
    "sc_worker (set_mb a mb c) = sc_worker c" "sc_pending (set_mb a mb c) = sc_pending c"
    "sc_worker (set_ready w' q c) = sc_worker c" "sc_pending (set_ready w' q c) = sc_pending c"
  by (simp_all add: go_def set_mb_def set_ready_def)

lemma reaches_view:
  "sched_view s = sched_view t \<Longrightarrow> reaches early nw thr P budget X w pc c s \<longleftrightarrow> reaches early nw thr P budget X w pc c t"
  unfolding reaches_def using sched_sim_view by blast

lemma discard_one_view: "callbacks_observe user \<Longrightarrow> sched_view (discard_one user a msg s) = sched_view s"
  by (simp add: discard_one_def scheduling.view_destroy scheduling.view_rejected)

lemma discard_mailbox_sim:
  assumes "discard_mailbox user a s = Some s'" "callbacks_observe user" "a \<in> P" "sched_sim early thr P X s c" "sc_worker c w = W_stop a n"
  shows "reaches early nw thr P budget X w (W_stop a n) c s' \<and> m_stop_phase (s_actors s' a) = m_stop_phase (s_actors s a)"
proof -
  define Q where "Q = (\<lambda>user a s y. \<forall>c. callbacks_observe user \<and> a \<in> P \<and> sched_sim early thr P X s c \<and> sc_worker c w = W_stop a n \<longrightarrow>
    reaches early nw thr P budget X w (W_stop a n) c y \<and> m_stop_phase (s_actors y a) = m_stop_phase (s_actors s a))"
  have "Q user a s s'"
  proof (rule discard_mailbox.raw_induct [OF _ assms(1)])
    fix f :: "user_code \<Rightarrow> actor_ptr \<Rightarrow> sys \<Rightarrow> sys option"
    fix user a s y
    assume IH: "\<And>user a s y. f user a s = Some y \<Longrightarrow> Q user a s y"
      and body: "(case mailbox_pop (m_mailbox (s_actors s a)) of (None, mb) \<Rightarrow> Some (upd_actor a (m_mailbox_update (\<lambda>_. mb)) s)
        | (Some msg, mb) \<Rightarrow> f user a (discard_one user a msg (upd_actor a (m_mailbox_update (\<lambda>_. mb)) s))) = Some y"
    show "Q user a s y"
      unfolding Q_def
    proof (intro allI impI, elim conjE)
      fix c
      assume obs: "callbacks_observe user" and a: "a \<in> P" and sim: "sched_sim early thr P X s c" and pc: "sc_worker c w = W_stop a n"
      let ?mb = "snd (mailbox_pop (m_mailbox (s_actors s a)))"
      let ?s = "upd_actor a (\<lambda>A. A\<lparr>m_mailbox := ?mb\<rparr>) s" and ?c = "set_mb a ?mb c"
      have sim': "sched_sim early thr P X ?s ?c" by (rule set_mb_sim [OF sim a])
      have pc': "sc_worker ?c w = W_stop a n" "sc_pending ?c = sc_pending c" using pc by (simp_all add: set_mb_def)
      have "worker_step budget c (set_mb a (snd (mailbox_pop (sa_mailbox (sc_actor c a)))) c)" by (rule ws_discard [OF pc])
      then have step: "worker_step budget c ?c" using sched_simD(4) [OF sim a] by simp
      have ph: "m_stop_phase (s_actors ?s a) = m_stop_phase (s_actors s a)" by (simp add: upd_actor_def)
      have "reaches early nw thr P budget X w (W_stop a n) ?c y \<and> m_stop_phase (s_actors y a) = m_stop_phase (s_actors s a)"
      proof (cases "fst (mailbox_pop (m_mailbox (s_actors s a)))")
        case None
        with body have "y = ?s" by (simp add: case_prod_beta split: option.splits)
        with sim' pc' ph show ?thesis by (simp add: reachesI)
      next
        case (Some msg)
        note v = discard_one_view [OF obs, of a msg ?s]
        from Some body have "Q user a (discard_one user a msg ?s) y" by (intro IH) (simp add: case_prod_beta split: option.splits)
        moreover have "sched_sim early thr P X (discard_one user a msg ?s) ?c" using sim' sched_sim_view [OF v] by blast
        moreover have "m_stop_phase (s_actors (discard_one user a msg ?s) a) = m_stop_phase (s_actors s a)" using v ph by (simp add: sched_view_eq)
        ultimately show ?thesis using obs a pc'(1) unfolding Q_def by auto
      qed
      then show "reaches early nw thr P budget X w (W_stop a n) c y \<and> m_stop_phase (s_actors y a) = m_stop_phase (s_actors s a)"
        using reaches_step [OF step pc'(2)] by blast
    qed
  qed
  with assms show ?thesis unfolding Q_def by blast
qed

lemma discard_pending_sim:
  assumes "discard_pending_messages user a s = Some s'" "callbacks_observe user" "a \<in> P" "sched_sim early thr P X s c" "sc_worker c w = W_stop a n"
  shows "reaches early nw thr P budget X w (W_stop a n) c s' \<and> m_stop_phase (s_actors s' a) = m_stop_phase (s_actors s a)"
proof -
  have "\<not> is_stateful (s_actors s a)" using sched_simD(11) [OF assms(4,3)] by (simp add: is_stateful_def)
  with assms(1) have "discard_mailbox user a s = Some s'" by (simp add: discard_pending_messages_def)
  from discard_mailbox_sim [OF this assms(2-5)] show ?thesis .
qed

lemma close_view:
  assumes "callbacks_observe user"
  shows "sched_view (close_mailbox user a st skip s) = sched_view (upd_actor a (\<lambda>A. A\<lparr>m_mailbox := snd (mailbox_close (m_mailbox (s_actors s a)))\<rparr>) s)"
proof -
  have "sched_view (fold (\<lambda>msg s. destroy_message msg (if skip \<and> cas_framework_kind msg = FK_shutdown then s
      else (let (n, s2) = actor_name a s in report_dead_letter user n msg st (is_call msg) s2))) ms t) = sched_view t" for ms t
    by (induction ms arbitrary: t)
      (simp_all add: scheduling.view_destroy scheduling.view_report [OF assms] scheduling.view_actor_name Let_def case_prod_beta)
  then show ?thesis by (simp add: close_mailbox_def Let_def case_prod_beta)
qed

text \<open>Between the close and the end of a stop, the scheduler has the actor stopped already and the system not yet.\<close>

lemma stopped_step_sim:
  assumes sim: "sched_sim early thr P X s c" and a: "a \<in> P" and req: "m_stop_phase (s_actors s a) = SP_requested"
    and c': "c' = go w (W_loop True) (set_mb a (snd (mailbox_close (sa_mailbox (sc_actor c a)))) (set_stop a SP_requested AS_stopped c))"
  shows "sched_sim early thr P (insert a X) (upd_actor a (\<lambda>A. A\<lparr>m_mailbox := snd (mailbox_close (m_mailbox (s_actors s a)))\<rparr>) s) c'"
  using sim a req unfolding c' sched_sim_def
  by (auto simp: upd_actor_def sched_upd has_worker_def is_fast_def runs_inline_def)

lemma end_stop_sim:
  assumes sim: "sched_sim early thr P (insert a X) s c" and a: "a \<in> P" "a \<notin> X" and st: "sa_state (sc_actor c a) = st"
  shows "sched_sim early thr P X (upd_actor a (\<lambda>A. A\<lparr>m_state := st\<rparr>) s) c"
  using sim a st unfolding sched_sim_def
  by (auto simp: upd_actor_def has_worker_def is_fast_def runs_inline_def split: if_splits)

lemma finish_stop_sim:
  assumes fin: "finish_stop fw user tid a s = Some s'" and user: "user_refines early nw thr P user" and fw: "fw_refines early nw thr P fw"
    and sim: "sched_sim early thr P X s c" and a: "a \<in> P" "a \<notin> X" and req: "m_stop_phase (s_actors s a) = SP_requested"
    and pc: "sc_worker c w = W_stop a n"
  shows "reaches early nw thr P budget X w (W_loop True) c s'"
proof -
  note obs = user_refinesD(1) [OF user]
  define s1 where "s1 = run_stop_hook user tid a SH_on_stop (run_stop_hook user tid a SH_on_shutdown s)"
  have "refines_calls early nw thr P (\<lambda>s. run_stop_hook user tid a SH_on_stop (run_stop_hook user tid a SH_on_shutdown s))"
    by (rule refines_comp [OF hook_refines [OF user] hook_refines [OF user]])
  from refines_callsD [OF this sim] obtain c1 where c1: "client_call early nw c c1" "sched_sim early thr P X s1 c1"
    unfolding s1_def by blast
  have sim1: "sched_sim early thr P X (cancel_actor_timers a s1) c1" using c1(2) sched_sim_view [OF scheduling.view_cancel_timers] by blast
  have ph: "sa_phase (sc_actor c a) = SP_requested" using sched_simD(5) [OF sim a(1)] req by simp
  define t where "t = cancel_actor_timers a s1"
  obtain s3 where s3: "discard_pending_messages user a t = Some s3"
    using fin unfolding finish_stop_def Let_def s1_def [symmetric] t_def [symmetric] by (cases "discard_pending_messages user a t") simp_all
  have ph1: "m_stop_phase (s_actors t a) = SP_requested"
    using sched_simD(5) [OF sim1 a(1)] call_keeps_stop [OF c1(1)] ph by (simp add: t_def)
  obtain c3 where c3: "worker_run early nw budget c1 c3" "sc_worker c3 w = W_stop a n" "sched_sim early thr P X s3 c3"
    and ph3: "m_stop_phase (s_actors s3 a) = SP_requested"
    using discard_pending_sim [OF s3 obs a(1) _ call_keeps_pc [OF c1(1) pc]] sim1 ph1 unfolding reaches_def t_def by fastforce
  define c4 where "c4 = go w (W_loop True) (set_mb a (snd (mailbox_close (sa_mailbox (sc_actor c3 a)))) (set_stop a SP_requested AS_stopped c3))"
  have step: "worker_run early nw budget c3 c4" unfolding c4_def by (rule worker_run_step [OF ws_stopped [OF c3(2)]]) (simp add: sched_upd)
  define s4 where "s4 = unregister_own_name a (close_mailbox user a AS_stopping True s3)"
  have "sched_view s4 = sched_view (upd_actor a (\<lambda>A. A\<lparr>m_mailbox := snd (mailbox_close (m_mailbox (s_actors s3 a)))\<rparr>) s3)"
    by (simp add: s4_def scheduling.view_unregister close_view [OF obs])
  then have sim4: "sched_sim early thr P (insert a X) s4 c4"
    using stopped_step_sim [OF c3(3) a(1) ph3 c4_def] sched_sim_view by blast
  have st4: "sc_worker c4 w = W_loop True" "sa_phase (sc_actor c4 a) \<noteq> SP_none" "sa_state (sc_actor c4 a) = AS_stopped"
    by (simp_all add: c4_def sched_upd)
  obtain s5 where s5: "end_watches fw user tid a (m_stop_notify_watchers (s_actors s4 a)) s4 = Some s5"
    and s': "s' = upd_actor a (\<lambda>A. A\<lparr>m_state := AS_stopped\<rparr>) (unlist_actor a s5)"
    using fin s3 unfolding finish_stop_def Let_def s1_def [symmetric] t_def [symmetric] s4_def
    by (auto split: bind_splits)
  obtain c5 where c5: "client_call early nw c4 c5" "sched_sim early thr P (insert a X) s5 c5"
    using end_watches_sim [OF fw obs sim4 s5] by blast
  have "sched_sim early thr P (insert a X) (unlist_actor a s5) c5" using c5(2) sched_sim_view [OF scheduling.view_unlist] by blast
  then have "sched_sim early thr P X s' c5"
    unfolding s' using call_keeps_stop [OF c5(1) st4(2)] st4(3) by (intro end_stop_sim a) simp_all
  moreover have "sc_worker c5 w = W_loop True" using call_keeps_pc [OF c5(1) st4(1)] by simp
  moreover have "worker_run early nw budget c c5"
    using worker_run_call [OF c1(1)] c3(1) step worker_run_call [OF c5(1)] worker_run_trans by meson
  ultimately show ?thesis unfolding reaches_def by blast
qed

lemma claim_sim:
  assumes "sched_sim early thr P X s c" "a \<in> P" "tid = thr (sa_worker (sc_actor c a))"
  shows "sched_sim early thr P X (upd_actor a (\<lambda>A. A\<lparr>m_stop_executor := Some tid\<rparr>) s) c"
  using assms by (auto simp: sched_sim_def upd_actor_def has_worker_def is_fast_def runs_inline_def)

lemma claimed_sim:
  assumes obs: "callbacks_observe user" and sim: "sched_sim early thr P X s c" and a: "a \<in> P" and pc: "sc_worker c w = W_stop a n"
    and tid: "tid = thr (sa_worker (sc_actor c a))"
    and claim: "(let s1 = cancel_actor_timers a (upd_actor a (\<lambda>A. A\<lparr>m_stop_executor := Some tid\<rparr>) s)
       in if m_stop_discard (s_actors s1 a) then discard_pending_messages user a s1 else Some s1) = Some s2"
  shows "reaches early nw thr P budget X w (W_stop a n) c s2 \<and> m_stop_phase (s_actors s2 a) = m_stop_phase (s_actors s a)"
proof -
  define s0 where "s0 = upd_actor a (\<lambda>A. A\<lparr>m_stop_executor := Some tid\<rparr>) s"
  have v: "sched_view (cancel_actor_timers a s0) = sched_view s0" by (rule scheduling.view_cancel_timers)
  have sim1: "sched_sim early thr P X (cancel_actor_timers a s0) c" using claim_sim [OF sim a tid] sched_sim_view [OF v] by (simp add: s0_def)
  have ph: "m_stop_phase (s_actors (cancel_actor_timers a s0) a) = m_stop_phase (s_actors s a)"
    using v by (simp add: sched_view_eq) (simp add: s0_def upd_actor_def)
  show ?thesis
  proof (cases "m_stop_discard (s_actors (cancel_actor_timers a s0) a)")
    case True
    with claim have "discard_pending_messages user a (cancel_actor_timers a s0) = Some s2" by (simp add: s0_def [symmetric] Let_def)
    from discard_pending_sim [OF this obs a sim1 pc] ph show ?thesis by simp
  next
    case False
    with claim have "s2 = cancel_actor_timers a s0" by (simp add: s0_def [symmetric] Let_def)
    with sim1 pc ph show ?thesis by (simp add: reachesI)
  qed
qed

lemma service_stop_sim:
  assumes srv: "service_stop fw user tid now a s = Some (done, s')" and user: "user_refines early nw thr P user" and fw: "fw_refines early nw thr P fw"
    and sim: "sched_sim early thr P X s c" and a: "a \<in> P" "a \<notin> X" and req: "m_stop_phase (s_actors s a) = SP_requested"
    and pc: "sc_worker c w = W_stop a n" and tid: "tid = thr (sa_worker (sc_actor c a))"
  shows "if done then reaches early nw thr P budget X w (W_loop True) c s'
    else reaches early nw thr P budget X w (W_stop a n) c s' \<and> has_messages (s_actors s' a)"
proof -
  note obs = user_refinesD(1) [OF user]
  define ex where "ex = m_stop_executor (s_actors s a)"
  have ex: "ex = None \<or> ex = Some tid" using sched_simD(12) [OF sim a(1)] tid by (simp add: ex_def)
  define claim where "claim = (if ex = Some tid then Some s else
     (let s1 = cancel_actor_timers a (upd_actor a (\<lambda>A. A\<lparr>m_stop_executor := Some tid\<rparr>) s)
      in if m_stop_discard (s_actors s1 a) then discard_pending_messages user a s1 else Some s1))"
  have srv': "Option.bind claim (\<lambda>s2. let A = s_actors s2 a in
      if m_state A = AS_stopped then Some (True, s2)
      else if \<not> m_stop_discard A \<and> has_messages A \<and> now < m_stop_drain_deadline A then Some (False, s2)
      else map_option (\<lambda>s3. (True, s3)) (finish_stop fw user tid a s2)) = Some (done, s')"
    using srv ex unfolding service_stop_def claim_def ex_def [symmetric] by (auto simp: Let_def)
  then obtain s2 where s2: "claim = Some s2" by (cases claim) simp_all
  have "reaches early nw thr P budget X w (W_stop a n) c s2 \<and> m_stop_phase (s_actors s2 a) = SP_requested"
  proof (cases "ex = Some tid")
    case True
    with s2 sim pc req show ?thesis by (simp add: claim_def reachesI)
  next
    case False
    with s2 claimed_sim [OF obs sim a(1) pc tid, of s2] req show ?thesis by (simp add: claim_def)
  qed
  then obtain c2 where c2: "worker_run early nw budget c c2" "sc_worker c2 w = W_stop a n" "sched_sim early thr P X s2 c2"
    and req2: "m_stop_phase (s_actors s2 a) = SP_requested" unfolding reaches_def by blast
  have "if done then reaches early nw thr P budget X w (W_loop True) c2 s'
    else reaches early nw thr P budget X w (W_stop a n) c2 s' \<and> has_messages (s_actors s' a)"
  proof (cases "m_state (s_actors s2 a) = AS_stopped")
    case True
    with srv' s2 have r: "done" "s' = s2" by simp_all
    have "sa_state (sc_actor c2 a) = AS_stopped" using sched_simD(8) [OF c2(3) a] True by simp
    then have step: "worker_step budget c2 (go w (W_loop True) c2)" by (rule ws_completed [OF c2(2)])
    have "reaches early nw thr P budget X w (W_loop True) c2 s2" by (rule reaches_go [OF step]) (simp add: reachesI c2(3))
    with r show ?thesis by simp
  next
    case False
    show ?thesis
    proof (cases "done")
      case True
      with srv' s2 False have "finish_stop fw user tid a s2 = Some s'" by (auto simp: Let_def split: if_splits)
      from finish_stop_sim [OF this user fw c2(3) a req2 c2(2)] True show ?thesis by simp
    next
      case nd: False
      with srv' s2 False have "s' = s2" "has_messages (s_actors s2 a)" by (auto simp: Let_def split: if_splits)
      with nd c2(2,3) show ?thesis by (simp add: reachesI)
    qed
  qed
  with c2(1) reaches_run show ?thesis by (auto split: if_splits)
qed

lemma service_stop_request_pooled:
  assumes "service_stop_request fw user tid now a s = Some (done, s')" "reaches early nw thr P budget X w pc c s1" "a \<in> P"
    "service_stop fw user tid now a s = Some (done, s1)"
  shows "s' = s1"
proof -
  have "a_kind (s_actors s1 a) = Pooled" using assms(2,3) sched_simD(11) unfolding reaches_def by blast
  with assms(1,4) show ?thesis by (simp add: service_stop_request_def is_stateful_def)
qed

lemma service_stop_request_sim:
  assumes srv: "service_stop_request fw user tid now a s = Some (done, s')" and user: "user_refines early nw thr P user" and fw: "fw_refines early nw thr P fw"
    and sim: "sched_sim early thr P X s c" and a: "a \<in> P" "a \<notin> X" and req: "m_stop_phase (s_actors s a) = SP_requested"
    and pc: "sc_worker c w = W_stop a n" and tid: "tid = thr (sa_worker (sc_actor c a))"
  shows "if done then reaches early nw thr P budget X w (W_loop True) c s'
    else reaches early nw thr P budget X w (W_stop a n) c s' \<and> has_messages (s_actors s' a)"
proof -
  obtain s1 where s1: "service_stop fw user tid now a s = Some (done, s1)" using srv by (auto simp: service_stop_request_def)
  note r = service_stop_sim [OF s1 user fw sim a req pc tid, of budget]
  then have "s' = s1" using service_stop_request_pooled [OF srv _ a(1) s1] by (cases "done") auto
  with r show ?thesis by simp
qed

section \<open>A message\<close>

lemma reaches_call:
  assumes "client_call early nw c c'" "sc_worker c w = pc" "pc \<noteq> W_wait" "sched_sim early thr P X s c'"
  shows "reaches early nw thr P budget X w pc c s"
  using worker_run_call [OF assms(1)] call_keeps_pc [OF assms(1-3)] assms(4) unfolding reaches_def by blast

lemma shutdown_message_sim:
  assumes user: "user_refines early nw thr P user" and sim: "sched_sim early thr P X s c" and a: "a \<in> P" "a \<notin> X" and pc: "sc_worker c w = W_handle a n"
  shows "reaches early nw thr P budget X w (W_handle a n) c (dispatch_shutdown user tid a s)"
proof (cases "m_stop_phase (s_actors s a) = SP_none")
  case False
  with sim pc show ?thesis by (simp add: dispatch_shutdown_def reachesI)
next
  case True
  define s1 where "s1 = upd_actor a (\<lambda>A. A\<lparr>m_stop_phase := SP_system_shutdown\<rparr>) s"
  define c1 where "c1 = set_stop a SP_system_shutdown AS_stopping c"
  have step: "worker_step budget c c1"
    unfolding c1_def using sched_simD(5) [OF sim a(1)] True by (intro ws_shutdown_message [OF pc]) simp
  have sim1: "sched_sim early thr P (insert a X) s1 c1"
    using sim a unfolding s1_def c1_def sched_sim_def
    by (auto simp: upd_actor_def set_stop_def has_worker_def is_fast_def runs_inline_def)
  have c1: "sc_worker c1 w = W_handle a n" "sc_pending c1 = sc_pending c" "sa_phase (sc_actor c1 a) \<noteq> SP_none" "sa_state (sc_actor c1 a) = AS_stopping"
    using pc by (simp_all add: c1_def set_stop_def)
  obtain c2 where c2: "client_call early nw c1 c2" "sched_sim early thr P (insert a X) (run_stop_hook user tid a SH_on_shutdown s1) c2"
    using refines_callsD [OF hook_refines [OF user] sim1] by blast
  define s3 where "s3 = cancel_actor_timers a (run_stop_hook user tid a SH_on_shutdown s1)"
  have "sched_sim early thr P (insert a X) s3 c2" unfolding s3_def using c2(2) sched_sim_view [OF scheduling.view_cancel_timers] by blast
  then have "sched_sim early thr P X (upd_actor a (\<lambda>A. A\<lparr>m_state := AS_stopping\<rparr>) s3) c2"
    using call_keeps_stop [OF c2(1) c1(3)] c1(4) by (intro end_stop_sim a) simp_all
  then have "reaches early nw thr P budget X w (W_handle a n) c1 (upd_actor a (\<lambda>A. A\<lparr>m_state := AS_stopping\<rparr>) s3)"
    by (intro reaches_call [OF c2(1) c1(1)]) simp_all
  with True show ?thesis by (simp add: dispatch_shutdown_def s1_def [symmetric] s3_def Let_def reaches_step [OF step c1(2)])
qed

lemma handler_exception_sim:
  assumes user: "user_refines early nw thr P user" and sim: "sched_sim early thr P X s c"
    and h: "handle_handler_exception fw user tid now a msg e s = Some s'"
  shows "\<exists>c'. client_call early nw c c' \<and> sched_sim early thr P X s' c'"
proof -
  note obs = user_refinesD(1) [OF user]
  obtain r s1 where r: "uc_on_handler_exception user a msg e s = (r, s1)" by fastforce
  obtain c1 where c1: "client_call early nw c c1" "sched_sim early thr P X s1 c1"
    using refines_callsD [OF user_refinesD(6) [OF user] sim, of a msg e] r by auto
  define act where "act = (case r of Inr act \<Rightarrow> act | Inl _ \<Rightarrow> EA_stop)"
  define s2 where "s2 = report_actor_exception user a (message_type_of msg) (message_id msg) ''handler'' e act s1"
  have sim2: "sched_sim early thr P X s2 c1" unfolding s2_def using c1(2) sched_sim_view [OF scheduling.view_exception [OF obs]] by blast
  have "(if act = EA_stop \<and> s_alive s2 a then map_option snd (stop_actor fw tid now (Some a) exception_stop_config s2) else Some s2) = Some s'"
    using h unfolding handle_handler_exception_def r Let_def act_def s2_def by simp
  then have "s' = s2 \<or> (\<exists>q. stop_actor fw tid now (Some a) exception_stop_config s2 = Some (q, s'))"
    by (cases "act = EA_stop \<and> s_alive s2 a") auto
  then obtain c2 where "client_call early nw c1 c2" "sched_sim early thr P X s' c2"
    using sim2 client_call_refl stop_actor_sim [OF sim2] by blast
  with c1(1) client_call_trans show ?thesis by blast
qed

lemma dispatch_sim:
  assumes user: "user_refines early nw thr P user" and sim: "sched_sim early thr P X s c" and a: "a \<in> P" "a \<notin> X" and pc: "sc_worker c w = W_handle a n"
    and d: "dispatch_message fw user tid now a msg s = Some (r, s')"
  shows "r = None \<and> reaches early nw thr P budget X w (W_handle a n) c s'"
proof (cases "cas_framework_kind msg")
  case FK_shutdown
  with d shutdown_message_sim [OF user sim a pc] show ?thesis by (auto simp: dispatch_message_def)
next
  case FK_call_request
  have "r = None \<and> (s' = s \<or> (\<exists>cp. s' = call_process user a cp s))"
    using d FK_call_request by (auto simp: dispatch_message_def split: message_body.splits)
  with sim pc reachesI [OF pc sim] refines_callsD [OF call_process_refines [OF user] sim] reaches_call [OF _ pc] show ?thesis by blast
next
  case FK_user
  define out where "out = (case m_handlers (s_actors s a) (message_type_of msg) of
      Some h \<Rightarrow> uc_handler user h a msg s | None \<Rightarrow> uc_unhandled user a msg s)"
  obtain c1 where c1: "client_call early nw c c1" "sched_sim early thr P X (snd out) c1"
    using refines_callsD [OF user_refinesD(2) [OF user] sim] refines_callsD [OF user_refinesD(3) [OF user] sim]
    unfolding out_def by (cases "m_handlers (s_actors s a) (message_type_of msg)") (simp_all, blast+)
  have "r = None \<and> (s' = snd out \<or> (\<exists>e. handle_handler_exception fw user tid now a msg e (snd out) = Some s'))"
    using d FK_user sched_simD(2) [OF c1(2), of a]
    by (cases out) (auto simp: dispatch_message_def out_def [symmetric] split: option.splits)
  then obtain c2 where "r = None" "client_call early nw c1 c2" "sched_sim early thr P X s' c2"
    using c1(2) client_call_refl handler_exception_sim [OF user c1(2)] by blast
  with reaches_call [OF client_call_trans [OF c1(1)] pc] show ?thesis by simp
qed

lemma process_next_sim:
  assumes user: "user_refines early nw thr P user" and sim: "sched_sim early thr P X s c" and a: "a \<in> P" "a \<notin> X" and pc: "sc_worker c w = W_turn a n"
    and more: "\<not> turn_over budget n" "has_messages (s_actors s a)" and p: "process_next_message fw user tid now a s = Some (r, s')"
  shows "r = None \<and> reaches early nw thr P budget X w (W_run a (Suc n)) c s'"
proof -
  have kind: "\<not> runs_inline (s_actors s a)" "\<not> is_stateful (s_actors s a)"
    using sched_simD(2,11) [OF sim] a(1) by (simp_all add: is_stateful_def)
  obtain om mb where pop: "mailbox_pop (m_mailbox (s_actors s a)) = (om, mb)" by fastforce
  define s1 where "s1 = upd_actor a (\<lambda>A. A\<lparr>m_mailbox := mb\<rparr>) s"
  define c1 where "c1 = go w (W_handle a (Suc n)) (set_mb a mb c)"
  have "0 < mailbox_size (sa_mailbox (sc_actor c a))" using more(2) kind sched_simD(4) [OF sim a(1)] by (simp add: has_messages_def)
  then have "worker_step budget c (go w (W_handle a (Suc n)) (set_mb a (snd (mailbox_pop (sa_mailbox (sc_actor c a)))) c))"
    by (rule ws_message [OF pc more(1)])
  then have step: "worker_step budget c c1" using sched_simD(4) [OF sim a(1)] pop by (simp add: c1_def)
  have sim1: "sched_sim early thr P X s1 c1" unfolding s1_def c1_def using set_mb_sim [OF sim a(1)] by simp
  have pc1: "sc_worker c1 w = W_handle a (Suc n)" "sc_pending c1 = sc_pending c" by (simp_all add: c1_def go_def set_mb_def)
  have "r = None \<and> reaches early nw thr P budget X w (W_handle a (Suc n)) c1 s'"
  proof (cases om)
    case None
    with p kind pop sim1 pc1(1) show ?thesis by (simp add: process_next_message_def s1_def Let_def reachesI)
  next
    case (Some msg)
    let ?t = "set_context tid (Some a) s1"
    have simt: "sched_sim early thr P X ?t c1" using sim1 sched_sim_view [OF scheduling.view_set_context] by blast
    from p kind pop Some have "run_message fw user tid now a msg s1 = Some (r, s')" by (simp add: process_next_message_def s1_def Let_def)
    then obtain r' s2 where d: "dispatch_message fw user tid now a msg ?t = Some (r', s2)" and r: "r = r'"
      and v: "sched_view s' = sched_view s2"
      by (auto simp: run_message_def Let_def scheduling.view_destroy scheduling.view_set_context split: option.splits)
    from dispatch_sim [OF user simt a pc1(1) d] r v reaches_view [OF v] show ?thesis by simp
  qed
  then obtain c2 where c2: "worker_run early nw budget c1 c2" "sc_worker c2 w = W_handle a (Suc n)" "sched_sim early thr P X s' c2" and "r = None"
    unfolding reaches_def by blast
  have "reaches early nw thr P budget X w (W_run a (Suc n)) c2 s'"
    by (rule reaches_go [OF ws_handled [OF c2(2)]]) (simp add: reachesI c2(3))
  with \<open>r = None\<close> c2(1) reaches_run reaches_step [OF step pc1(2)] show ?thesis by blast
qed

section \<open>A turn of the worker\<close>

lemma requeue_sim:
  assumes sim: "sched_sim early thr P X s c" and a: "a \<in> P" and w: "w = unat (m_assigned_thread_id (s_actors s a))"
  shows "sched_sim early thr P X (s\<lparr>m_workers := (m_workers s)[w := ready_push a (m_workers s ! w)]\<rparr>) (set_ready w (ready_push a (sc_ready c w)) c)"
proof -
  have "w < length (m_workers s)" using sched_simD(3) [OF sim, of a] a by (simp add: w has_worker_def)
  with sim show ?thesis unfolding sched_sim_def by (auto simp: set_ready_def has_worker_def nth_list_update)
qed

lemma idle_sim:
  assumes sim: "sched_sim early thr P X s c" and a: "a \<in> P" and pc: "sc_worker c w = W_turn a k"
    and more: "\<not> turn_over budget k" "\<not> has_messages (s_actors s a)" and b: "try_block (m_mailbox (s_actors s a)) = (blocked, mb)"
  shows "reaches early nw thr P budget X w (if blocked then W_recheck a k else W_run a k) c (upd_actor a (\<lambda>A. A\<lparr>m_mailbox := mb\<rparr>) s)"
proof -
  have kind: "\<not> runs_inline (s_actors s a)" "\<not> is_stateful (s_actors s a)"
    using sched_simD(2,11) [OF sim] a(1) by (simp_all add: is_stateful_def)
  let ?c = "go w (W_block a k) c"
  have "mailbox_size (sa_mailbox (sc_actor c a)) = 0"
    using more(2) kind sched_simD(4) [OF sim a] by (simp add: has_messages_def word_gt_0_no word_neq_0_conv [symmetric])
  then have idle: "worker_step budget c ?c" by (rule ws_idle [OF pc more(1)])
  have bl: "worker_step budget ?c (go w (if blocked then W_recheck a k else W_run a k) (set_mb a mb ?c))"
    using b sched_simD(4) [OF sim a] by (intro ws_block) simp_all
  have "sched_sim early thr P X (upd_actor a (\<lambda>A. A\<lparr>m_mailbox := mb\<rparr>) s) (set_mb a mb ?c)"
    by (rule set_mb_sim [OF _ a]) (simp add: sim)
  then have "reaches early nw thr P budget X w (if blocked then W_recheck a k else W_run a k) ?c (upd_actor a (\<lambda>A. A\<lparr>m_mailbox := mb\<rparr>) s)"
    by (intro reaches_step [OF bl] reachesI) simp_all
  then show ?thesis by (rule reaches_go [OF idle])
qed

lemma recheck_sim:
  assumes sim: "sched_sim early thr P X s c" and a: "a \<in> P" and pc: "sc_worker c w = W_recheck a k"
    and req: "m_stop_phase (s_actors s a) = SP_requested" and u: "try_unblock (m_mailbox (s_actors s a)) = (ok, mb)"
  shows "reaches early nw thr P budget X w (if ok then W_run a k else W_loop True) c (upd_actor a (\<lambda>A. A\<lparr>m_mailbox := mb\<rparr>) s)"
proof -
  let ?c = "go w (W_unblock a k) c"
  have r: "worker_step budget c ?c" using ws_recheck [OF pc, of budget] sched_simD(5) [OF sim a] req by simp
  have ub: "worker_step budget ?c (go w (if ok then W_run a k else W_loop True) (set_mb a mb ?c))"
    using u sched_simD(4) [OF sim a] by (intro ws_unblock) simp_all
  have "sched_sim early thr P X (upd_actor a (\<lambda>A. A\<lparr>m_mailbox := mb\<rparr>) s) (set_mb a mb ?c)"
    by (rule set_mb_sim [OF _ a]) (simp add: sim)
  then have "reaches early nw thr P budget X w (if ok then W_run a k else W_loop True) ?c (upd_actor a (\<lambda>A. A\<lparr>m_mailbox := mb\<rparr>) s)"
    by (intro reaches_step [OF ub] reachesI) simp_all
  then show ?thesis by (rule reaches_go [OF r])
qed

text \<open>The head of the loop: the request of a stop is looked at before anything else.\<close>

lemma loop_head_sim:
  assumes user: "user_refines early nw thr P user" and fw: "fw_refines early nw thr P fw" and sim: "sched_sim early thr P X s c" and a: "a \<in> P" "a \<notin> X"
    and pc: "sc_worker c w = W_run a k" and tid: "tid = thr (sa_worker (sc_actor c a))"
    and h: "(if m_stop_phase (s_actors s a) = SP_requested then service_stop_request fw user tid now a s else Some (False, s)) = Some (done, s1)"
  shows "reaches early nw thr P budget X w (if done then W_loop True else W_turn a k) c s1"
proof (cases "m_stop_phase (s_actors s a) = SP_requested")
  case False
  have step: "worker_step budget c (go w (W_turn a k) c)" using ws_run [OF pc, of budget] sched_simD(5) [OF sim a(1)] False by simp
  have "reaches early nw thr P budget X w (W_turn a k) c s" by (rule reaches_go [OF step]) (simp add: reachesI sim)
  with h False show ?thesis by simp
next
  case True
  let ?c = "go w (W_stop a k) c"
  have step: "worker_step budget c ?c" using ws_run [OF pc, of budget] sched_simD(5) [OF sim a(1)] True by simp
  have "service_stop_request fw user tid now a s = Some (done, s1)" using h True by simp
  from service_stop_request_sim [OF this user fw _ a True, where c = ?c and w = w and n = k and budget = budget] sim tid
  have r: "if done then reaches early nw thr P budget X w (W_loop True) ?c s1
    else reaches early nw thr P budget X w (W_stop a k) ?c s1 \<and> has_messages (s_actors s1 a)" by simp
  have "reaches early nw thr P budget X w (if done then W_loop True else W_turn a k) ?c s1"
  proof (cases "done")
    case False
    with r obtain c1 where c1: "worker_run early nw budget ?c c1" "sc_worker c1 w = W_stop a k" "sched_sim early thr P X s1 c1"
      and m: "has_messages (s_actors s1 a)" unfolding reaches_def by auto
    have "0 < mailbox_size (sa_mailbox (sc_actor c1 a))"
      using m sched_simD(2,4,11) [OF c1(3)] a(1) by (simp add: has_messages_def is_stateful_def)
    then have "worker_step budget c1 (go w (W_turn a k) c1)" by (rule ws_drain [OF c1(2)])
    from reaches_go [OF this] c1(3) False show ?thesis by (simp add: reachesI reaches_run [OF c1(1)])
  qed (use r in simp)
  then show ?thesis by (rule reaches_go [OF step])
qed

lemma run_keeps_worker: "worker_run early nw budget c c' \<Longrightarrow> sa_worker (sc_actor c' a) = sa_worker (sc_actor c a)"
proof -
  have "sa_worker (sc_actor c' a) = sa_worker (sc_actor c a)" if "(sched_step early nw budget)\<^sup>*\<^sup>* c c'"
    using that
  proof induction
    case (step y z)
    from step.hyps(2) have "sa_worker (sc_actor z a) = sa_worker (sc_actor y a)"
      unfolding sched_step_def by (elim disjE client_step.cases worker_step.cases) (auto simp: sched_upd)
    with step.IH show ?case by simp
  qed simp
  then show "worker_run early nw budget c c' \<Longrightarrow> sa_worker (sc_actor c' a) = sa_worker (sc_actor c a)" by (simp add: worker_run_def)
qed

text \<open>What the loop is to achieve from the place \<open>W_run a k\<close>, and what the recursive calls achieve.\<close>

definition loop_reaches :: "bool \<Rightarrow> nat \<Rightarrow> (nat \<Rightarrow> thread_id) \<Rightarrow> actor_ptr set \<Rightarrow> nat \<Rightarrow> actor_ptr \<Rightarrow> size_t \<Rightarrow> size_t \<Rightarrow> sys \<Rightarrow> exn option \<times> sys \<Rightarrow> bool" where
  "loop_reaches early nw thr P w a budget handled s y \<longleftrightarrow>
     (\<forall>c k. sched_sim early thr P {} s c \<and> sc_worker c w = W_run a k \<and> w = sa_worker (sc_actor c a) \<and> handled = of_nat k \<and> k \<le> unat budget \<longrightarrow>
        fst y = None \<and> reaches early nw thr P (unat budget) {} w (W_loop True) c (snd y))"

lemma loop_reachesD:
  assumes "loop_reaches early nw thr P w a budget (of_nat k) s y" "reaches early nw thr P (unat budget) {} w (W_run a k) c s"
    "w = sa_worker (sc_actor c a)" "k \<le> unat budget"
  shows "fst y = None \<and> reaches early nw thr P (unat budget) {} w (W_loop True) c (snd y)"
proof -
  obtain c1 where c1: "worker_run early nw (unat budget) c c1" "sc_worker c1 w = W_run a k" "sched_sim early thr P {} s c1"
    using assms(2) unfolding reaches_def by blast
  have "w = sa_worker (sc_actor c1 a)" using run_keeps_worker [OF c1(1)] assms(3) by simp
  with assms(1,4) c1(2,3) have "fst y = None \<and> reaches early nw thr P (unat budget) {} w (W_loop True) c1 (snd y)"
    unfolding loop_reaches_def by blast
  with reaches_run [OF c1(1)] show ?thesis by blast
qed

lemma idle_turn_sim:
  assumes sim: "sched_sim early thr P {} s c" and a: "a \<in> P" and pc: "sc_worker c w = W_turn a k" and w: "w = sa_worker (sc_actor c a)"
    and k: "k \<le> unat budget" "\<not> turn_over (unat budget) k" and none: "\<not> has_messages (s_actors s a)"
    and IH: "\<And>s y. f s = Some y \<Longrightarrow> loop_reaches early nw thr P w a budget (of_nat k) s y"
    and body: "(let (blocked, mb) = try_block (m_mailbox (s_actors s a));
           s2 = upd_actor a (\<lambda>A. A\<lparr>m_mailbox := mb\<rparr>) s
       in if blocked then
            (if m_stop_phase (s_actors s2 a) = SP_requested then
               (let (unblocked, mb') = try_unblock (m_mailbox (s_actors s2 a));
                    s3 = upd_actor a (\<lambda>A. A\<lparr>m_mailbox := mb'\<rparr>) s2
                in if unblocked then f s3 else Some (None, s3))
             else Some (None, s2))
          else f s2) = Some y"
  shows "fst y = None \<and> reaches early nw thr P (unat budget) {} w (W_loop True) c (snd y)"
proof -
  obtain blocked mb where b: "try_block (m_mailbox (s_actors s a)) = (blocked, mb)" by fastforce
  define s2 where "s2 = upd_actor a (\<lambda>A. A\<lparr>m_mailbox := mb\<rparr>) s"
  note r = idle_sim [OF sim a pc k(2) none b, of nw, folded s2_def]
  show ?thesis
  proof (cases blocked)
    case False
    with body b have "f s2 = Some y" by (simp add: s2_def)
    with r False show ?thesis by (intro loop_reachesD [OF IH _ w k(1)]) simp_all
  next
    case True
    with r obtain c2 where c2: "worker_run early nw (unat budget) c c2" "sc_worker c2 w = W_recheck a k" "sched_sim early thr P {} s2 c2"
      unfolding reaches_def by auto
    have w2: "w = sa_worker (sc_actor c2 a)" using run_keeps_worker [OF c2(1)] w by simp
    have "fst y = None \<and> reaches early nw thr P (unat budget) {} w (W_loop True) c2 (snd y)"
    proof (cases "m_stop_phase (s_actors s2 a) = SP_requested")
      case False
      with body b True have y: "y = (None, s2)" by (simp add: s2_def)
      have "worker_step (unat budget) c2 (go w (W_loop True) c2)"
        using ws_recheck [OF c2(2), of "unat budget"] sched_simD(5) [OF c2(3) a] False by simp
      from reaches_go [OF this] y c2(3) show ?thesis by (simp add: reachesI)
    next
      case req: True
      obtain ok mb' where u: "try_unblock (m_mailbox (s_actors s2 a)) = (ok, mb')" by fastforce
      note q = recheck_sim [OF c2(3) a c2(2) req u, of nw "unat budget"]
      show ?thesis
      proof (cases ok)
        case ok: True
        with body b True req u have "f (upd_actor a (\<lambda>A. A\<lparr>m_mailbox := mb'\<rparr>) s2) = Some y" by (simp add: s2_def Let_def)
        with q ok show ?thesis by (intro loop_reachesD [OF IH _ w2 k(1)]) simp_all
      next
        case False
        with body b True req u have "y = (None, upd_actor a (\<lambda>A. A\<lparr>m_mailbox := mb'\<rparr>) s2)" by (simp add: s2_def Let_def)
        with q False show ?thesis by simp
      qed
    qed
    with reaches_run [OF c2(1)] show ?thesis by blast
  qed
qed

lemma busy_turn_sim:
  assumes user: "user_refines early nw thr P user" and sim: "sched_sim early thr P {} s c" and a: "a \<in> P" and pc: "sc_worker c w = W_turn a k"
    and w: "w = sa_worker (sc_actor c a)" and k: "k < unat budget" "\<not> turn_over (unat budget) k" and more: "has_messages (s_actors s a)"
    and IH: "\<And>s y. f s = Some y \<Longrightarrow> loop_reaches early nw thr P w a budget (of_nat k + 1) s y"
    and body: "(case process_next_message fw user tid now a s of
           None \<Rightarrow> None | Some (Some e, s2) \<Rightarrow> Some (Some e, s2) | Some (None, s2) \<Rightarrow> f s2) = Some y"
  shows "fst y = None \<and> reaches early nw thr P (unat budget) {} w (W_loop True) c (snd y)"
proof -
  obtain r s2 where p: "process_next_message fw user tid now a s = Some (r, s2)" using body by (auto split: option.splits)
  note q = process_next_sim [OF user sim a _ pc k(2) more p]
  then have "f s2 = Some y" using body p by simp
  with IH have "loop_reaches early nw thr P w a budget (of_nat (Suc k)) s2 y" by (simp add: add.commute)
  from loop_reachesD [OF this _ w] q k(1) show ?thesis by simp
qed

text \<open>One iteration of the loop, with the later ones as an argument.\<close>

definition loop_body ::
  "(size_t \<Rightarrow> sys \<Rightarrow> (exn option \<times> sys) option) \<Rightarrow> framework \<Rightarrow> user_code \<Rightarrow> time_point \<Rightarrow> thread_id \<Rightarrow> nat \<Rightarrow> actor_ptr \<Rightarrow> size_t \<Rightarrow> size_t \<Rightarrow> sys
     \<Rightarrow> (exn option \<times> sys) option" where
  "loop_body rest fw user now tid w a budget handled s =
     Option.bind
       (if m_stop_phase (s_actors s a) = SP_requested then service_stop_request fw user tid now a s else Some (False, s))
       (\<lambda>(done, s1).
          if done then Some (None, s1)
          else if budget \<le> handled then Some (None, s1\<lparr>m_workers := (m_workers s1)[w := ready_push a (m_workers s1 ! w)]\<rparr>)
          else if has_messages (s_actors s1 a) then
            (case process_next_message fw user tid now a s1 of
               None \<Rightarrow> None
             | Some (Some e, s2) \<Rightarrow> Some (Some e, s2)
             | Some (None, s2) \<Rightarrow> rest (handled + 1) s2)
          else
            (let (blocked, mb) = try_block (m_mailbox (s_actors s1 a));
                 s2 = upd_actor a (\<lambda>A. A\<lparr>m_mailbox := mb\<rparr>) s1
             in if blocked then
                  (if m_stop_phase (s_actors s2 a) = SP_requested then
                     (let (unblocked, mb') = try_unblock (m_mailbox (s_actors s2 a));
                          s3 = upd_actor a (\<lambda>A. A\<lparr>m_mailbox := mb'\<rparr>) s2
                      in if unblocked then rest handled s3 else Some (None, s3))
                   else Some (None, s2))
                else rest handled s2))"

lemma run_actor_loop_body:
  "run_actor_loop fw user clk tid w a budget handled n s =
     loop_body (\<lambda>h. run_actor_loop fw user clk tid w a budget h (Suc n)) fw user (clk n) tid w a budget handled s"
  unfolding loop_body_def by (rule run_actor_loop.simps)

lemma loop_body_sim:
  assumes body: "loop_body rest fw user now tid w a budget handled s = Some y"
    and user: "user_refines early nw thr P user" and fw: "fw_refines early nw thr P fw" and a: "a \<in> P" and b: "budget \<noteq> 0" and tid: "tid = thr w"
    and IH: "\<And>h s y. rest h s = Some y \<Longrightarrow> loop_reaches early nw thr P w a budget h s y"
  shows "loop_reaches early nw thr P w a budget handled s y"
  unfolding loop_reaches_def
proof (intro allI impI, elim conjE)
  fix c k
  assume sim: "sched_sim early thr P {} s c" and pc: "sc_worker c w = W_run a k" and w: "w = sa_worker (sc_actor c a)"
    and hk: "handled = of_nat k" and kb: "k \<le> unat budget"
  obtain d s1 where h: "(if m_stop_phase (s_actors s a) = SP_requested then service_stop_request fw user tid now a s else Some (False, s)) = Some (d, s1)"
    using body unfolding loop_body_def
    by (cases "if m_stop_phase (s_actors s a) = SP_requested then service_stop_request fw user tid now a s else Some (False, s)") auto
  obtain c1 where c1: "worker_run early nw (unat budget) c c1" "sc_worker c1 w = (if d then W_loop True else W_turn a k)" "sched_sim early thr P {} s1 c1"
    using loop_head_sim [OF user fw sim a _ pc _ h] tid w unfolding reaches_def by auto
  have w1: "w = sa_worker (sc_actor c1 a)" using run_keeps_worker [OF c1(1)] w by simp
  have "k < 2 ^ 64" using kb unsigned_less [of budget, where 'a = nat] by simp
  then have "unat handled = k" by (simp add: hk unat_of_nat_64)
  then have over: "turn_over (unat budget) k \<longleftrightarrow> budget \<le> handled" using b by (simp add: turn_over_def word_le_nat_alt unsigned_eq_0_iff)
  note body' = body [unfolded loop_body_def h bind.bind_lunit case_prod_conv]
  consider (stopped) d | (over) "\<not> d" "budget \<le> handled" | (more) "\<not> d" "\<not> budget \<le> handled" "has_messages (s_actors s1 a)"
    | (idle) "\<not> d" "\<not> budget \<le> handled" "\<not> has_messages (s_actors s1 a)" by blast
  then have "fst y = None \<and> reaches early nw thr P (unat budget) {} w (W_loop True) c1 (snd y)"
  proof cases
    case stopped
    with body' c1(2,3) show ?thesis by (auto simp: reachesI)
  next
    case over
    then have pc1: "sc_worker c1 w = W_turn a k" "turn_over (unat budget) k" using c1(2) \<open>turn_over _ _ \<longleftrightarrow> _\<close> by simp_all
    have ww: "w = unat (m_assigned_thread_id (s_actors s1 a))" using sched_simD(6) [OF c1(3) a] w1 by simp
    from reaches_step [OF ws_requeue [OF pc1]] requeue_sim [OF c1(3) a ww] body' over show ?thesis by (auto simp: reachesI)
  next
    case more
    then have pc1: "sc_worker c1 w = W_turn a k" "\<not> turn_over (unat budget) k" "k < unat budget"
      using c1(2) over kb b by (auto simp: turn_over_def unsigned_eq_0_iff)
    show ?thesis
      by (rule busy_turn_sim [where f = "rest (handled + 1)", OF user c1(3) a pc1(1) w1 pc1(3,2) more(3)])
        (use IH hk body' more in auto)
  next
    case idle
    then have pc1: "sc_worker c1 w = W_turn a k" "\<not> turn_over (unat budget) k" using c1(2) over by simp_all
    show ?thesis
      by (rule idle_turn_sim [where f = "rest handled", OF c1(3) a pc1(1) w1 kb pc1(2) idle(3)])
        (use IH hk body' idle in auto)
  qed
  with reaches_run [OF c1(1)] show "fst y = None \<and> reaches early nw thr P (unat budget) {} w (W_loop True) c (snd y)" by blast
qed

lemma run_actor_loop_sim:
  assumes "run_actor_loop fw user clk tid w a budget handled n s = Some y"
    and "user_refines early nw thr P user" "fw_refines early nw thr P fw" "a \<in> P" "budget \<noteq> 0" "tid = thr w"
  shows "loop_reaches early nw thr P w a budget handled s y"
proof -
  let ?Q = "\<lambda>fw user (clk :: nat \<Rightarrow> time_point) tid w a budget handled (n :: nat) s y.
    user_refines early nw thr P user \<and> fw_refines early nw thr P fw \<and> a \<in> P \<and> budget \<noteq> 0 \<and> tid = thr w \<longrightarrow>
    loop_reaches early nw thr P w a budget handled s y"
  have "?Q fw user clk tid w a budget handled n s y"
  proof (rule run_actor_loop.raw_induct [OF _ assms(1), where P = ?Q], intro impI, elim conjE, goal_cases)
    case (1 f fw user clk tid w a budget handled n s y)
    have "loop_body (\<lambda>h. f fw user clk tid w a budget h (Suc n)) fw user (clk n) tid w a budget handled s = Some y"
      unfolding loop_body_def by (rule 1(2))
    from loop_body_sim [OF this 1(3-7)] 1(1,3-7) show ?case by blast
  qed
  with assms show ?thesis by blast
qed

section \<open>Property\<close>

text \<open>
  Property C4. The detailed operations implement the scheduler. Let user code act on the scheduler only through calls (\<open>user_refines\<close>), and let
  a worker be about to run a pooled actor, in corresponding states of the system and of the scheduler. If \<open>run_actor\<close> returns,
  with all the messages, stops, hooks and notifications it executes, it does so without an exception, and what it did is a
  sequence of steps of the scheduler that leaves the worker at its loop, nothing pending, and the states
  in correspondence: every reachable state of the detailed system satisfies what \<open>Scheduler\<close> shows.
\<close>

theorem run_actor_refines_scheduler:
  assumes user: "user_refines early nw thr P user"
    and sim: "sched_sim early thr P {} s c" and a: "a \<in> P" "w = sa_worker (sc_actor c a)" and pc: "sc_worker c w = W_enter a"
    and run: "run_actor (framework_of user clk d) user clk (thr w) w a s = Some (r, s')"
  shows "r = None \<and> (\<exists>c'. (sched_step early nw (unat (message_budget s)))\<^sup>*\<^sup>* c c' \<and> sc_pending c' = sc_pending c
      \<and> sc_worker c' w = W_loop True \<and> sched_sim early thr P {} s' c'
      \<and> (reachable (sched_init nw) (sched_step early nw (unat (message_budget s))) c \<longrightarrow>
           reachable (sched_init nw) (sched_step early nw (unat (message_budget s))) c'))"
proof -
  let ?b = "message_budget s"
  have b: "?b \<noteq> 0" by (simp add: message_budget_def)
  have fw: "fw_refines early nw thr P (framework_of user clk d)" by (rule framework_refines) (rule user_refinesD(1) [OF user])
  have st: "sa_state (sc_actor c a) = m_state (s_actors s a)" using sched_simD(8) [OF sim a(1)] by simp
  have "r = None \<and> reaches early nw thr P (unat ?b) {} w (W_loop True) c s'"
  proof (cases "m_state (s_actors s a) = AS_stopped")
    case True
    then have "worker_step (unat ?b) c (go w (W_loop True) c)" using ws_enter [OF pc, of "unat ?b"] st by simp
    from reaches_go [OF this] sim run True show ?thesis by (simp add: run_actor_def reachesI)
  next
    case False
    then have step: "worker_step (unat ?b) c (go w (W_run a 0) c)" using ws_enter [OF pc, of "unat ?b"] st by simp
    have "run_actor_loop (framework_of user clk d) user clk (thr w) w a ?b 0 0 s = Some (r, s')"
      using run False by (simp add: run_actor_def)
    from run_actor_loop_sim [OF this user fw a(1) b refl]
    have "fst (r, s') = None \<and> reaches early nw thr P (unat ?b) {} w (W_loop True) (go w (W_run a 0) c) (snd (r, s'))"
      unfolding loop_reaches_def by (elim allE [of _ "go w (W_run a 0) c"] allE [of _ 0]) (use sim a(2) in simp)
    with reaches_go [OF step] show ?thesis by simp
  qed
  moreover have "reachable (sched_init nw) (sched_step early nw (unat ?b)) c'"
    if "(sched_step early nw (unat ?b))\<^sup>*\<^sup>* c c'" "reachable (sched_init nw) (sched_step early nw (unat ?b)) c" for c'
    using that by induction (blast intro: reachable_step)+
  ultimately show ?thesis unfolding reaches_def worker_run_def by blast
qed

section \<open>Witness\<close>

text \<open>One worker, whose actor 3 has an ordinary message that nobody handles.\<close>

definition pool_state :: sys where
  "pool_state = upd_actor 3 (\<lambda>A. A\<lparr>m_mailbox := mailbox_init\<lparr>m_others := [sample_user 1], m_other_count := 1\<rparr>\<rparr>)
     (sys_init\<lparr>m_workers := [ready_init], m_workers_active := True\<rparr>)"

definition pool_sched :: sched where
  "pool_sched = \<lparr>sc_actor = (\<lambda>a. \<lparr>sa_mailbox = m_mailbox (s_actors pool_state a), sa_state = AS_running, sa_phase = SP_none,
       sa_active = True, sa_worker = 0\<rparr>),
     sc_ready = (\<lambda>_. ready_init), sc_sleeping = (\<lambda>_. False), sc_worker = (\<lambda>w. if w < 1 then W_enter 3 else W_exit),
     sc_pending = {#}, sc_shutdown = False\<rparr>"

lemma idle_user_refines: "user_refines early nw thr P idle_user"
  unfolding user_refines_def using idle_user_observes by (auto simp: idle_user_def intro!: refines_view)

lemma pool_sim: "sched_sim False thr UNIV {} pool_state pool_sched"
  by (auto simp: sched_sim_def pool_state_def pool_sched_def concrete_state runs_inline_def has_worker_def is_fast_def)

lemma pool_run: "\<exists>s'. run_actor (framework_of idle_user (\<lambda>_. 0) 1) idle_user (\<lambda>_. 0) 5 0 3 pool_state = Some (None, s')"
  unfolding run_actor_def
  by (subst run_actor_loop.simps, simp add: pool_state_def concrete_state message_budget_def has_messages_def runs_inline_def is_stateful_def
      mailbox_size_def call_size_def other_size_def process_next_message_def mailbox_pop_def take_node_def dequeue_node_def count_fetch_sub_def
      is_call_def sample_user_def cas_framework_kind_def run_message_def dispatch_message_def idle_user_def destroy_message_def Let_def,
      subst run_actor_loop.simps, simp add: has_messages_def runs_inline_def is_stateful_def mailbox_size_def call_size_def other_size_def
      try_block_def Let_def upd_actor_def)

theorem run_actor_refines_scheduler_witness:
  "\<exists>s' c'. run_actor (framework_of idle_user (\<lambda>_. 0) 1) idle_user (\<lambda>_. 0) 5 0 3 pool_state = Some (None, s')
     \<and> (sched_step False 1 (unat (message_budget pool_state)))\<^sup>*\<^sup>* pool_sched c' \<and> sc_worker c' 0 = W_loop True
     \<and> sched_sim False (\<lambda>_. 5) UNIV {} s' c'"
proof -
  obtain s' where r: "run_actor (framework_of idle_user (\<lambda>_. 0) 1) idle_user (\<lambda>_. 0) ((\<lambda>_. 5) (0 :: nat)) 0 3 pool_state = Some (None, s')"
    using pool_run by auto
  have "0 = sa_worker (sc_actor pool_sched 3)" "sc_worker pool_sched 0 = W_enter 3" by (simp_all add: pool_sched_def)
  from run_actor_refines_scheduler [OF idle_user_refines pool_sim UNIV_I this r, of 1] r show ?thesis by auto
qed

end
