(* ===== verification/System_Invariants.thy ===== *)
theory System_Invariants
  imports Actor_Api Fast_Actor Worker
begin

text \<open>
  The invariants of the components, for the whole system. A component's theory shows its invariant for the component's own operations; here
  it is shown that nothing else in the framework disturbs it, whatever the framework calls in which order.

  The locale \<open>framework_invariant\<close> takes any property of the state that depends only on the mailboxes, stashes, timers and watches, and that
  the operations on these keep. It proves once that sending, dispatching, stopping, inline turns, worker turns and dedicated threads keep
  it, if user code does. Theory \<open>System_Reachable\<close> extends it to the life cycle and the interface for users, and interprets it.
\<close>

section \<open>What the invariants speak of\<close>

definition core_view :: "sys \<Rightarrow> (actor_ptr \<Rightarrow> mailbox \<times> stash \<times> timer_id set) \<times> (size_t \<Rightarrow> (size_t \<times> actor_ptr) list) \<times> (size_t \<Rightarrow> size_t list)
    \<times> timer_manager \<times> (timer_id \<Rightarrow> (actor_ptr \<times> message) option)" where
  "core_view s = (\<lambda>a. (m_mailbox (s_actors s a), m_stash (s_actors s a), m_active_timers (s_actors s a)),
     m_watchers s, m_watching s, m_timer_manager s, s_timer_target s)"

lemma core_view_eq:
  "core_view s = core_view t \<longleftrightarrow> (\<forall>a. m_mailbox (s_actors s a) = m_mailbox (s_actors t a) \<and> m_stash (s_actors s a) = m_stash (s_actors t a)
       \<and> m_active_timers (s_actors s a) = m_active_timers (s_actors t a))
     \<and> m_watchers s = m_watchers t \<and> m_watching s = m_watching t \<and> m_timer_manager s = m_timer_manager t \<and> s_timer_target s = s_timer_target t"
  by (auto simp: core_view_def fun_eq_iff)

interpretation core: report_view core_view
  by unfold_locales
    (auto simp: core_view_eq upd_actor_def update_high_water_marks_def schedule_def Let_def)

lemma core_schedule: "core_view (schedule a s) = core_view s"
  by (simp add: core_view_eq schedule_def Let_def)

lemma core_upd:
  assumes "\<And>A. m_mailbox (f A) = m_mailbox A" "\<And>A. m_stash (f A) = m_stash A" "\<And>A. m_active_timers (f A) = m_active_timers A"
  shows "core_view (upd_actor a f s) = core_view s"
  using assms by (simp add: core_view_eq upd_actor_def)

lemma core_invalid_target:
  assumes "callbacks_observe user"
  shows "core_view (report_invalid_target user t s) = core_view s"
proof -
  have "core_view (run_dead_letter_handler user i u) = core_view u" for i u
    by (rule core.view_quiet) (rule dead_letter_handler_quiet [OF assms])
  then show ?thesis by (simp add: report_invalid_target_def Let_def core_view_def to_stderr_def)
qed

definition user_invariant :: "(sys \<Rightarrow> bool) \<Rightarrow> user_code \<Rightarrow> bool" where
  "user_invariant I user \<longleftrightarrow> callbacks_observe user
     \<and> (\<forall>h a m s. I s \<longrightarrow> I (snd (uc_handler user h a m s))) \<and> (\<forall>a m s. I s \<longrightarrow> I (snd (uc_unhandled user a m s)))
     \<and> (\<forall>a s. I s \<longrightarrow> I (snd (uc_on_start user a s))) \<and> (\<forall>a s. I s \<longrightarrow> I (snd (uc_on_shutdown user a s)))
     \<and> (\<forall>a s. I s \<longrightarrow> I (snd (uc_on_stop user a s))) \<and> (\<forall>a m e s. I s \<longrightarrow> I (snd (uc_on_handler_exception user a m e s)))
     \<and> (\<forall>h a v s. I s \<longrightarrow> I (snd (uc_call_handler user h a v s)))"

definition fw_invariant :: "(sys \<Rightarrow> bool) \<Rightarrow> framework \<Rightarrow> bool" where
  "fw_invariant I fw \<longleftrightarrow> (\<forall>tid a m s r s'. fw_enqueue fw tid a m s = Some (r, s') \<longrightarrow> I s \<longrightarrow> I s')
     \<and> (\<forall>tid a s s'. fw_run_stop fw tid a s = Some s' \<longrightarrow> I s \<longrightarrow> I s')"

section \<open>Invariants of the framework\<close>

locale framework_invariant =
  fixes I :: "sys \<Rightarrow> bool"
  assumes I_core: "core_view t = core_view s \<Longrightarrow> I s \<Longrightarrow> I t"
    and I_push: "I s \<Longrightarrow> I (upd_actor a (\<lambda>A. A\<lparr>m_mailbox := snd (mailbox_push m (m_mailbox A))\<rparr>) s)"
    and I_pop: "I s \<Longrightarrow> I (upd_actor a (\<lambda>A. A\<lparr>m_mailbox := snd (mailbox_pop (m_mailbox A))\<rparr>) s)"
    and I_close: "I s \<Longrightarrow> I (upd_actor a (\<lambda>A. A\<lparr>m_mailbox := snd (mailbox_close (m_mailbox A))\<rparr>) s)"
    and I_block: "I s \<Longrightarrow> I (upd_actor a (\<lambda>A. A\<lparr>m_mailbox := snd (try_block (m_mailbox A))\<rparr>) s)"
    and I_unblock: "I s \<Longrightarrow> I (upd_actor a (\<lambda>A. A\<lparr>m_mailbox := snd (try_unblock (m_mailbox A))\<rparr>) s)"
    and I_select: "I s \<Longrightarrow> stash_next (m_stash (s_actors s a)) (m_mailbox (s_actors s a)) = Some (r, st, mb) \<Longrightarrow>
      I (upd_actor a (\<lambda>A. A\<lparr>m_stash := st, m_mailbox := mb\<rparr>) s)"
    and I_drop_held: "I s \<Longrightarrow> I (upd_actor a (\<lambda>A. A\<lparr>m_stash := snd (stash_drop_held (m_stash A))\<rparr>) s)"
    and I_remove_watches: "I s \<Longrightarrow> I (snd (remove_watches i s))"
    and I_cancel_timers: "I s \<Longrightarrow> I (cancel_actor_timers a s)"
begin

lemma I_upd:
  assumes "I s" "\<And>A. m_mailbox (f A) = m_mailbox A" "\<And>A. m_stash (f A) = m_stash A" "\<And>A. m_active_timers (f A) = m_active_timers A"
  shows "I (upd_actor a f s)"
  by (rule I_core [OF core_upd assms(1)]) (simp_all add: assms(2-4))

text \<open>An update of the mailbox with the value that an operation on it returns.\<close>

lemma I_boxes:
  "I s \<Longrightarrow> mailbox_push m (m_mailbox (s_actors s a)) = (p, mb) \<Longrightarrow> I (upd_actor a (\<lambda>A. A\<lparr>m_mailbox := mb\<rparr>) s)"
  "I s \<Longrightarrow> mailbox_pop (m_mailbox (s_actors s a)) = (q, mb) \<Longrightarrow> I (upd_actor a (\<lambda>A. A\<lparr>m_mailbox := mb\<rparr>) s)"
  "I s \<Longrightarrow> mailbox_close (m_mailbox (s_actors s a)) = (ms, mb) \<Longrightarrow> I (upd_actor a (\<lambda>A. A\<lparr>m_mailbox := mb\<rparr>) s)"
  "I s \<Longrightarrow> try_block (m_mailbox (s_actors s a)) = (b, mb) \<Longrightarrow> I (upd_actor a (\<lambda>A. A\<lparr>m_mailbox := mb\<rparr>) s)"
  "I s \<Longrightarrow> try_unblock (m_mailbox (s_actors s a)) = (b, mb) \<Longrightarrow> I (upd_actor a (\<lambda>A. A\<lparr>m_mailbox := mb\<rparr>) s)"
  using I_push [of s a m] I_pop [of s a] I_close [of s a] I_block [of s a] I_unblock [of s a] by (simp_all add: upd_actor_def)

lemma I_books:
  "I s \<Longrightarrow> I (snd (actor_name a s))" "I s \<Longrightarrow> I (destroy_message msg s)" "I s \<Longrightarrow> I (set_context tid c s)"
  "I s \<Longrightarrow> I (unregister_own_name a s)" "I s \<Longrightarrow> I (unlist_actor a s)" "I s \<Longrightarrow> I (schedule a s)" "I s \<Longrightarrow> I (settle p st s)"
  "I s \<Longrightarrow> I (s\<lparr>m_next_message_id := i\<rparr>)"
  by (rule I_core; simp add: core.view_actor_name core.view_destroy core.view_set_context core.view_unregister core.view_unlist core_schedule
      core.view_promises core.view_next_id settle_def)+

lemma I_reports:
  assumes "callbacks_observe user" "I s"
  shows "I (report_dead_letter user n msg st c s)" "I (report_rejected user a msg c s)" "I (drop_message user a msg st c s)"
    "I (report_actor_exception user a t i src e act s)"
  by (rule I_core [OF _ assms(2)]; simp add: core.view_report [OF assms(1)] core.view_rejected [OF assms(1)] core.view_drop [OF assms(1)]
      core.view_exception [OF assms(1)])+

lemma I_send:
  assumes "callbacks_observe user" "I s"
  shows "I (send user as_call a msg s)"
proof -
  obtain p mb where p: "mailbox_push msg (m_mailbox (s_actors s a)) = (p, mb)" by fastforce
  have "I (push_step a msg s)" using I_boxes(1) [OF assms(2) p] I_books(6) by (simp add: push_step_def p Let_def)
  with assms(2) show ?thesis
    using core.view_send [OF assms(1), of as_call a msg s] I_core by (metis (full_types))
qed

lemma I_fold: "(\<And>x s. I s \<Longrightarrow> I (f x s)) \<Longrightarrow> I s \<Longrightarrow> I (fold f xs s)"
  by (induction xs arbitrary: s) auto

lemma I_user:
  assumes "user_invariant I user" "I s"
  shows "I (snd (uc_handler user h a m s))" "I (snd (uc_unhandled user a m s))" "I (snd (uc_on_start user a s))"
    "I (snd (uc_on_shutdown user a s))" "I (snd (uc_on_stop user a s))" "I (snd (uc_on_handler_exception user a m e s))"
    "I (snd (uc_call_handler user h a v s))"
  using assms by (simp_all add: user_invariant_def)

lemma I_observes: "user_invariant I user \<Longrightarrow> callbacks_observe user"
  by (simp add: user_invariant_def)

lemma I_hook:
  assumes "user_invariant I user" "I s"
  shows "I (run_stop_hook user tid a hook s)"
  using assms(2)
  by (simp add: run_stop_hook_def Let_def case_prod_beta I_books I_user(4,5) [OF assms(1)] I_reports [OF I_observes [OF assms(1)]] split: option.split)

lemma I_discard_one: "callbacks_observe user \<Longrightarrow> I s \<Longrightarrow> I (discard_one user a msg s)"
  by (simp add: discard_one_def I_books I_reports)

lemma I_discard_mailbox:
  assumes "discard_mailbox user a s = Some s'" "callbacks_observe user" "I s"
  shows "I s'"
proof -
  have "callbacks_observe user \<longrightarrow> I s \<longrightarrow> I s'"
  proof (rule discard_mailbox.raw_induct [OF _ assms(1), where P = "\<lambda>user a s s'. callbacks_observe user \<longrightarrow> I s \<longrightarrow> I s'"], intro impI)
    fix f user a s s'
    assume IH: "\<And>user a s s'. f user a s = Some s' \<Longrightarrow> callbacks_observe user \<longrightarrow> I s \<longrightarrow> I s'"
      and eq: "(case mailbox_pop (m_mailbox (s_actors s a)) of
          (None, mb) \<Rightarrow> Some (upd_actor a (\<lambda>A. A\<lparr>m_mailbox := mb\<rparr>) s)
        | (Some msg, mb) \<Rightarrow> f user a (discard_one user a msg (upd_actor a (\<lambda>A. A\<lparr>m_mailbox := mb\<rparr>) s))) = Some s'"
      and obs: "callbacks_observe user" and I: "I s"
    obtain r mb where p: "mailbox_pop (m_mailbox (s_actors s a)) = (r, mb)" by fastforce
    note I1 = I_boxes(2) [OF I p]
    show "I s'"
      using eq p I1 IH obs I_discard_one [OF obs I1] by (cases r) auto
  qed
  with assms(2,3) show ?thesis by blast
qed

lemma I_drop_held_all: "callbacks_observe user \<Longrightarrow> I s \<Longrightarrow> I (drop_held user a s)"
  unfolding drop_held_def Let_def by (intro I_drop_held I_fold) (rule I_reports)

lemma I_discard_pending:
  "discard_pending_messages user a s = Some s' \<Longrightarrow> callbacks_observe user \<Longrightarrow> I s \<Longrightarrow> I s'"
  by (auto simp: discard_pending_messages_def split: if_splits dest: I_discard_mailbox intro: I_drop_held_all)

lemma I_close_mailbox:
  assumes "callbacks_observe user" "I s"
  shows "I (close_mailbox user a st skip s)"
proof -
  obtain ms mb where c: "mailbox_close (m_mailbox (s_actors s a)) = (ms, mb)" by fastforce
  show ?thesis
    unfolding close_mailbox_def c Let_def prod.case
    by (intro I_fold I_boxes(3) [OF assms(2) c]) (simp add: I_books I_reports [OF assms(1)] case_prod_beta)
qed

lemma I_fw:
  "fw_invariant I fw \<Longrightarrow> fw_enqueue fw tid a m s = Some (r, s') \<Longrightarrow> I s \<Longrightarrow> I s'"
  "fw_invariant I fw \<Longrightarrow> fw_run_stop fw tid a s = Some s' \<Longrightarrow> I s \<Longrightarrow> I s'"
  unfolding fw_invariant_def by blast+

lemma I_tell:
  assumes "callbacks_observe user" "fw_invariant I fw" "tell fw user tid target msg s = Some (r, s')" "I s"
  shows "I s'"
proof -
  have "I (report_invalid_target user t s)" for t
    by (rule I_core [OF core_invalid_target [OF assms(1)] assms(4)])
  then show ?thesis
    using assms(3,4) I_fw(1) [OF assms(2) _ I_books(8) [OF assms(4)]]
    by (auto simp: tell_def next_message_id_def Let_def split: option.splits sum.splits)
qed

lemma I_notify:
  assumes "callbacks_observe user" "fw_invariant I fw"
  shows "notify_all_watchers fw user tid a ws s = Some s' \<Longrightarrow> I s \<Longrightarrow> I s'"
proof (induction ws arbitrary: s)
  case (Cons w ws)
  obtain n s1 where n: "actor_name a s = (n, s1)" by fastforce
  have I1: "I s1" using I_books(1) [OF Cons.prems(2), of a] n by simp
  note told = I_tell [OF assms _ I1, where target = "Some w"]
  show ?case
    using Cons.prems Cons.IH told I_reports(4) [OF assms(1)] n
    by (auto split: if_splits option.splits)
qed simp

lemma I_end_watches:
  "end_watches fw user tid a notify s = Some s' \<Longrightarrow> callbacks_observe user \<Longrightarrow> fw_invariant I fw \<Longrightarrow> I s \<Longrightarrow> I s'"
  using I_remove_watches [of s "m_instance_id (s_actors s a)"]
  by (auto simp: end_watches_def case_prod_beta split: if_splits dest: I_notify)

lemma I_finish_stop:
  assumes user: "user_invariant I user" and fw: "fw_invariant I fw" and run: "finish_stop fw user tid a s = Some s'" and I: "I s"
  shows "I s'"
proof -
  note obs = I_observes [OF user]
  let ?s2 = "cancel_actor_timers a (run_stop_hook user tid a SH_on_stop (run_stop_hook user tid a SH_on_shutdown s))"
  have "I ?s2" by (intro I_cancel_timers I_hook [OF user] I)
  moreover obtain s3 where s3: "discard_pending_messages user a ?s2 = Some s3"
    using run by (auto simp: finish_stop_def Let_def bind_eq_Some_conv)
  ultimately have "I s3" using I_discard_pending obs by blast
  then have I4: "I (unregister_own_name a (close_mailbox user a AS_stopping True s3))" by (intro I_books(4) I_close_mailbox obs)
  obtain s5 where s5: "end_watches fw user tid a (m_stop_notify_watchers (s_actors (unregister_own_name a (close_mailbox user a AS_stopping True s3)) a))
      (unregister_own_name a (close_mailbox user a AS_stopping True s3)) = Some s5"
    "s' = upd_actor a (\<lambda>A. A\<lparr>m_state := AS_stopped\<rparr>) (unlist_actor a s5)"
    using run s3 by (auto simp: finish_stop_def Let_def bind_eq_Some_conv)
  have "I s5" by (rule I_end_watches [OF s5(1) obs fw I4])
  then show ?thesis unfolding s5(2) by (intro I_upd I_books(5)) simp_all
qed

lemma I_service_stop:
  assumes user: "user_invariant I user" and fw: "fw_invariant I fw" and run: "service_stop fw user tid now a s = Some (d, s')" and I: "I s"
  shows "I s'"
proof -
  let ?s1 = "cancel_actor_timers a (upd_actor a (\<lambda>A. A\<lparr>m_stop_executor := Some tid\<rparr>) s)"
  have I1: "I ?s1" by (intro I_cancel_timers I_upd I) simp_all
  have disc: "discard_pending_messages user a ?s1 = Some t \<Longrightarrow> I t" for t by (rule I_discard_pending [OF _ I_observes [OF user] I1])
  have fin: "finish_stop fw user tid a t = Some s' \<Longrightarrow> I t \<Longrightarrow> I s'" for t by (rule I_finish_stop [OF user fw])
  show ?thesis
    using run I I1 disc fin
    by (auto simp: service_stop_def Let_def bind_eq_Some_conv split: if_splits)
qed

lemma I_service_stop_request:
  "user_invariant I user \<Longrightarrow> fw_invariant I fw \<Longrightarrow> service_stop_request fw user tid now a s = Some (d, s') \<Longrightarrow> I s \<Longrightarrow> I s'"
  by (auto simp: service_stop_request_def dest: I_service_stop intro: I_drop_held_all I_observes split: if_splits)

text \<open>Stop requests, and what a handler can do to its actor.\<close>

lemma I_reap: "I s \<Longrightarrow> I (reap_stopped_fast_actors tid s)"
proof -
  have join: "I t \<Longrightarrow> I (join_dedicated a t)" for a t
    unfolding join_dedicated_def by (auto intro!: I_upd)
  have "I s \<Longrightarrow> I (s\<lparr>m_fast_actors := fs\<rparr>)" for fs by (rule I_core) (simp_all add: core_view_def)
  then show "I s \<Longrightarrow> I (reap_stopped_fast_actors tid s)"
    unfolding reap_stopped_fast_actors_def Let_def case_prod_beta by (intro I_fold join)
qed

lemma I_stop_end: "I s \<Longrightarrow> I (stop_actor_end tid a s)"
  by (simp add: stop_actor_end_def I_reap)

lemma I_stop_actor:
  assumes "fw_invariant I fw" "stop_actor fw tid now ref cfg s = Some (r, s')" "I s"
  shows "I s'"
proof (cases ref)
  case (Some a)
  let ?s1 = "upd_actor a (request_stop cfg now) s"
  have I1: "I ?s1" by (rule I_upd [OF assms(3)]) (simp_all add: request_stop_def)
  obtain b mb where u: "try_unblock (m_mailbox (s_actors ?s1 a)) = (b, mb)" by fastforce
  note I2 = I_boxes(5) [OF I1 u]
  show ?thesis
    using assms(2,3) I1 I2 I_books(6) [OF I2, of a] I_stop_end I_fw(2) [OF assms(1) _ I1] u
    by (auto simp: stop_actor_def Some Let_def split: if_splits)
qed (use assms in \<open>simp add: stop_actor_def\<close>)

lemma I_handler_exception:
  assumes user: "user_invariant I user" and fw: "fw_invariant I fw" and run: "handle_handler_exception fw user tid now a msg e s = Some s'"
    and I: "I s"
  shows "I s'"
proof -
  obtain r s1 where r: "uc_on_handler_exception user a msg e s = (r, s1)" by fastforce
  have "I s1" using I_user(6) [OF user I, of a msg e] r by simp
  note I2 = I_reports(4) [OF I_observes [OF user] this]
  show ?thesis
    using run I2 I_stop_actor [OF fw _ I2]
    by (auto simp: handle_handler_exception_def r Let_def split: if_splits sum.splits)
qed

lemma I_dispatch_shutdown: "user_invariant I user \<Longrightarrow> I s \<Longrightarrow> I (dispatch_shutdown user tid a s)"
  unfolding dispatch_shutdown_def Let_def by (auto intro!: I_upd I_cancel_timers I_hook)

lemma I_call_process:
  assumes "user_invariant I user" "I s"
  shows "I (call_process user a c s)"
proof -
  have "I (snd (uc_call_handler user h a (call_args c) s))" for h by (rule I_user(7) [OF assms])
  then have "I (settle p st (snd (uc_call_handler user h a (call_args c) s)))" for h p st by (rule I_books(7))
  with I_books(7) [OF assms(2)] show ?thesis
    by (auto simp: call_process_def case_prod_beta split: option.splits sum.splits)
qed

lemma I_dispatch:
  assumes user: "user_invariant I user" and fw: "fw_invariant I fw" and run: "dispatch_message fw user tid now a msg s = Some (r, s')" and I: "I s"
  shows "I s'"
proof (cases "cas_framework_kind msg")
  case FK_user
  let ?r = "case m_handlers (s_actors s a) (message_type_of msg) of Some h \<Rightarrow> uc_handler user h a msg s | None \<Rightarrow> uc_unhandled user a msg s"
  obtain x s1 where x: "?r = (x, s1)" by fastforce
  have "I (snd ?r)" using I_user [OF user I] by (simp split: option.split)
  then have I1: "I s1" by (simp add: x)
  show ?thesis
    using run FK_user x I1 I_handler_exception [OF user fw _ I1]
    by (cases x) (auto simp: dispatch_message_def split: if_splits)
qed (use run I I_dispatch_shutdown [OF user I] I_call_process [OF user I] in \<open>auto simp: dispatch_message_def split: message_body.splits\<close>)

text \<open>Turns of inline actors and of executors.\<close>

lemma I_run_deferred:
  assumes "run_deferred fw user tid now a s = Some (r, s')" and user: "user_invariant I user" and fw: "fw_invariant I fw" and "I s"
  shows "I s'"
proof -
  let ?P = "\<lambda>fw user tid now a s y. user_invariant I user \<longrightarrow> fw_invariant I fw \<longrightarrow> I s \<longrightarrow> I (snd y)"
  have "?P fw user tid now a s (r, s')"
  proof (rule run_deferred.raw_induct [OF _ assms(1), where P = ?P], intro impI)
    fix f fw user tid now a s y
    assume IH: "\<And>fw user tid now a s y. f fw user tid now a s = Some y \<Longrightarrow> ?P fw user tid now a s y"
      and eq: "(case m_deferred (s_actors s a) of
          [] \<Rightarrow> Some (None, s)
        | next # rest \<Rightarrow>
            (case dispatch_message fw user tid now a next (upd_actor a (\<lambda>A. A\<lparr>m_deferred := rest\<rparr>) s) of
               None \<Rightarrow> None
             | Some (Some e, s1) \<Rightarrow> Some (Some e, destroy_message next s1)
             | Some (None, s1) \<Rightarrow> f fw user tid now a (destroy_message next s1))) = Some y"
      and user: "user_invariant I user" and fw: "fw_invariant I fw" and I: "I s"
    have I1: "I (upd_actor a (\<lambda>A. A\<lparr>m_deferred := rest\<rparr>) s)" for rest by (rule I_upd [OF I]) simp_all
    note disp = I_dispatch [OF user fw _ I1]
    show "I (snd y)"
      using eq I IH [THEN mp, OF _ user, THEN mp, OF _ fw] disp I_books(2)
      by (auto split: list.splits option.splits prod.splits)
  qed
  with assms(2-4) show ?thesis by simp
qed

lemma I_end_turn: "callbacks_observe user \<Longrightarrow> I s \<Longrightarrow> I (end_turn user tid a prev s)"
  unfolding end_turn_def Let_def by (intro I_books(3) I_upd I_fold I_reports) simp_all

lemma I_run_turn:
  assumes user: "user_invariant I user" and fw: "fw_invariant I fw" and run: "run_turn fw user tid now a msg s = Some (r, s')" and I: "I s"
  shows "I s'"
proof -
  let ?s1 = "upd_actor a (\<lambda>A. A\<lparr>m_dispatching_thread := Some tid\<rparr>) (set_context tid (Some a) s)"
  have I1: "I ?s1" by (intro I_upd I_books I) simp_all
  have "I t \<Longrightarrow> I (end_turn user tid a prev t)" for t prev by (rule I_end_turn [OF I_observes [OF user]])
  then show ?thesis
    using run I_dispatch [OF user fw _ I1] I_run_deferred [OF _ user fw]
    by (auto simp: run_turn_def Let_def split: option.splits prod.splits)
qed

lemma I_dispatch_inline:
  assumes user: "user_invariant I user" and fw: "fw_invariant I fw" and run: "dispatch_inline fw user tid now a msg c s = Some (r, s')" and I: "I s"
  shows "I s'"
  using run I_run_turn [OF user fw _ I] I_books(2) I_reports(2) [OF I_observes [OF user] I]
  by (auto simp: dispatch_inline_def split: if_splits)

lemma I_enqueue:
  assumes user: "user_invariant I user" and fw: "fw_invariant I fw" and I: "I s"
  shows "actor_enqueue fw user now tid a msg s = Some (r, s') \<Longrightarrow> I s'"
    "actor_enqueue_call fw user now tid a msg s = Some (r, s') \<Longrightarrow> I s'"
proof -
  note obs = I_observes [OF user]
  have "I (upd_actor a (\<lambda>A. A\<lparr>m_deferred := ms A\<rparr>) s)" for ms by (rule I_upd [OF I]) simp_all
  then show "actor_enqueue fw user now tid a msg s = Some (r, s') \<Longrightarrow> I s'"
    using I_send [OF obs I, of False a msg] I_dispatch_inline [OF user fw _ I] I_books(2) [OF I_reports(2) [OF obs I]]
    by (auto simp: actor_enqueue_def inline_enqueue_message_def send_def split: if_splits)
  show "actor_enqueue_call fw user now tid a msg s = Some (r, s') \<Longrightarrow> I s'"
    using I_send [OF obs I, of True a msg] I_dispatch_inline [OF user fw _ I] I_books(2) [OF I_books(1) [OF I]]
    by (auto simp: actor_enqueue_call_def inline_enqueue_call_message_def send_def case_prod_beta split: if_splits)
qed

lemma I_run_message:
  assumes user: "user_invariant I user" and fw: "fw_invariant I fw" and run: "run_message fw user tid now a msg s = Some (r, s')" and I: "I s"
  shows "I s'"
  using run I_dispatch [OF user fw _ I_books(3) [OF I]] I_books(2,3)
  by (auto simp: run_message_def Let_def split: option.splits prod.splits)

lemma I_process_next:
  assumes user: "user_invariant I user" and fw: "fw_invariant I fw" and run: "process_next_message fw user tid now a s = Some (r, s')" and I: "I s"
  shows "I s'"
proof (cases "is_stateful (s_actors s a)")
  case True
  show ?thesis
  proof (cases "stash_next (m_stash (s_actors s a)) (m_mailbox (s_actors s a))")
    case (Some x)
    obtain m st mb where x: "x = (m, st, mb)" by (cases x)
    note I1 = I_select [OF I Some [unfolded x]]
    show ?thesis
      using run I I1 True Some x I_run_message [OF user fw _ I1]
      by (cases m) (auto simp: process_next_message_def Let_def split: if_splits)
  qed (use run I True in \<open>auto simp: process_next_message_def Let_def split: if_splits\<close>)
next
  case False
  obtain m mb where p: "mailbox_pop (m_mailbox (s_actors s a)) = (m, mb)" by fastforce
  note I1 = I_boxes(2) [OF I p]
  show ?thesis
    using run I I1 False p I_run_message [OF user fw _ I1]
    by (cases m) (auto simp: process_next_message_def Let_def split: if_splits)
qed

text \<open>The loop of a stop in the caller's thread, and the two callbacks of the framework by induction on their depth.\<close>

lemma I_stop_loop:
  assumes "stop_loop fw user clk n tid a s = Some s'" and user: "user_invariant I user" and fw: "fw_invariant I fw" and "I s"
  shows "I s'"
proof -
  let ?P = "\<lambda>fw user clk n tid a s s'. user_invariant I user \<longrightarrow> fw_invariant I fw \<longrightarrow> I s \<longrightarrow> I s'"
  have "?P fw user clk n tid a s s'"
  proof (rule stop_loop.raw_induct [OF _ assms(1), where P = ?P], intro impI)
    fix f fw user clk n tid a s s'
    assume IH: "\<And>fw user clk n tid a s s'. f fw user clk n tid a s = Some s' \<Longrightarrow> ?P fw user clk n tid a s s'"
      and eq: "(case service_stop_request fw user tid (clk n) a s of
          None \<Rightarrow> None
        | Some (done, s1) \<Rightarrow> if done then Some s1
            else (case process_next_message fw user tid (clk n) a s1 of
                    None \<Rightarrow> None | Some (_, s2) \<Rightarrow> f fw user clk (Suc n) tid a s2)) = Some s'"
      and user: "user_invariant I user" and fw: "fw_invariant I fw" and I: "I s"
    obtain d s1 where s1: "service_stop_request fw user tid (clk n) a s = Some (d, s1)" using eq by (auto split: option.splits)
    note I1 = I_service_stop_request [OF user fw s1 I]
    show "I s'"
    proof (cases d)
      case False
      then obtain r s2 where s2: "process_next_message fw user tid (clk n) a s1 = Some (r, s2)" "f fw user clk (Suc n) tid a s2 = Some s'"
        using eq s1 by (auto split: option.splits)
      from IH [OF s2(2)] user fw I_process_next [OF user fw s2(1) I1] show ?thesis by blast
    qed (use eq s1 I1 in simp)
  qed
  with assms(2-4) show ?thesis by simp
qed

lemma I_framework: "user_invariant I user \<Longrightarrow> fw_invariant I (framework_of user clk d)"
proof (induction d)
  case (Suc d)
  note fw = Suc.IH [OF Suc.prems]
  show ?case
    unfolding fw_invariant_def
  proof (intro conjI allI impI)
    show "I s'" if "fw_enqueue (framework_of user clk (Suc d)) tid a m s = Some (r, s')" "I s" for tid a m s r s'
      using that I_enqueue(1) [OF Suc.prems fw that(2), of "clk 0" tid a m] by simp
    show "I s'" if "fw_run_stop (framework_of user clk (Suc d)) tid a s = Some s'" "I s" for tid a s s'
      using that I_stop_loop [OF _ Suc.prems fw that(2), of clk 0 tid a s'] by (simp add: run_stop_to_completion_def)
  qed
qed (simp add: fw_invariant_def)

text \<open>Expired timers and calls.\<close>

lemma I_timer_callback:
  assumes user: "user_invariant I user" and fw: "fw_invariant I fw" and run: "timer_callback fw user tid now a msg s = Some s'" and I: "I s"
  shows "I s'"
  using run I I_enqueue(1) [OF user fw I_books(8) [OF I]] I_reports(4) [OF I_observes [OF user]]
  by (auto simp: timer_callback_def next_message_id_def Let_def split: if_splits option.splits prod.splits)

lemma I_check_call: "I s \<Longrightarrow> I (snd (check_call_allowed tid a s))"
  by (auto simp: check_call_allowed_def Let_def case_prod_beta I_books split: option.split)

lemma I_call:
  assumes user: "user_invariant I user" and fw: "fw_invariant I fw" and run: "call fw user tid now target request c s = Some (r, s')" and I: "I s"
  shows "I s'"
proof (cases target)
  case (Some a)
  obtain e s1 where c: "check_call_allowed tid a s = (e, s1)" by fastforce
  have I1: "I s1" using I_check_call [OF I, of tid a] c by simp
  show ?thesis
    using run I1 c I_enqueue(2) [OF user fw I_books(8) [OF I1]]
    by (auto simp: call_def Some next_message_id_def Let_def split: option.splits sum.splits prod.splits)
qed (use run I in \<open>simp add: call_def\<close>)

text \<open>A turn of a worker: \<open>rest\<close> stands for the next round of the loop.\<close>

lemma I_loop_body:
  assumes user: "user_invariant I user" and fw: "fw_invariant I fw" and run: "loop_body rest fw user now tid w a budget done_so_far s = Some y"
    and I: "I s" and rest: "\<And>k t y. rest k t = Some y \<Longrightarrow> I t \<Longrightarrow> I (snd y)"
  shows "I (snd y)"
proof -
  obtain d s1 where s1: "(if m_stop_phase (s_actors s a) = SP_requested then service_stop_request fw user tid now a s else Some (False, s)) = Some (d, s1)"
    using run by (auto simp: loop_body_def bind_eq_Some_conv)
  then have I1: "I s1" using I_service_stop_request [OF user fw _ I] I by (auto split: if_splits)
  have "I (s1\<lparr>m_workers := ws\<rparr>)" for ws by (rule I_core [OF _ I1]) (simp add: core_view_def)
  obtain b mb where b: "try_block (m_mailbox (s_actors s1 a)) = (b, mb)" by fastforce
  let ?s2 = "upd_actor a (\<lambda>A. A\<lparr>m_mailbox := mb\<rparr>) s1"
  note I2 = I_boxes(4) [OF I1 b]
  obtain u mb' where u: "try_unblock (m_mailbox (s_actors ?s2 a)) = (u, mb')" by fastforce
  note I3 = I_boxes(5) [OF I2 u]
  have served: "I (snd y)" if "process_next_message fw user tid now a s1 = Some (x, s2)"
      "(case x of Some e \<Rightarrow> Some (Some e, s2) | None \<Rightarrow> rest (done_so_far + 1) s2) = Some y" for x s2
    using that I_process_next [OF user fw that(1) I1] rest by (auto split: option.splits)
  have idle: "I (snd y)" if "(if b then if m_stop_phase (s_actors ?s2 a) = SP_requested
        then let (unblocked, mb') = try_unblock (m_mailbox (s_actors ?s2 a)); s3 = upd_actor a (\<lambda>A. A\<lparr>m_mailbox := mb'\<rparr>) ?s2
             in if unblocked then rest done_so_far s3 else Some (None, s3)
        else Some (None, ?s2) else rest done_so_far ?s2) = Some y"
    using that I2 I3 u rest [of done_so_far] by (auto simp: Let_def split: if_splits)
  show ?thesis
  proof (cases "d \<or> budget \<le> done_so_far")
    case False
    show ?thesis
    proof (cases "has_messages (s_actors s1 a)")
      case True
      with False run s1 served show ?thesis by (auto simp: loop_body_def split: option.splits prod.splits)
    next
      case False
      with \<open>\<not> (d \<or> budget \<le> done_so_far)\<close> run s1 b idle show ?thesis by (simp add: loop_body_def Let_def)
    qed
  qed (use run s1 I1 \<open>\<And>ws. I (s1\<lparr>m_workers := ws\<rparr>)\<close> in \<open>auto simp: loop_body_def split: if_splits\<close>)
qed

lemma I_run_actor:
  assumes run: "run_actor fw user clk tid w a s = Some y" and user: "user_invariant I user" and fw: "fw_invariant I fw" and I: "I s"
  shows "I (snd y)"
proof (cases "m_state (s_actors s a) = AS_stopped")
  case False
  let ?P = "\<lambda>fw user clk tid w a budget k n s y. user_invariant I user \<and> fw_invariant I fw \<and> I s \<longrightarrow> I (snd y)"
  have loop: "run_actor_loop fw user clk tid w a (message_budget s) 0 0 s = Some y"
    using run False by (simp add: run_actor_def)
  have "?P fw user clk tid w a (message_budget s) 0 0 s y"
  proof (rule run_actor_loop.raw_induct [OF _ loop, where P = ?P], intro impI, elim conjE, goal_cases)
    case (1 f fw user clk tid w a budget k n s y)
    have "loop_body (\<lambda>h. f fw user clk tid w a budget h (Suc n)) fw user (clk n) tid w a budget k s = Some y"
      unfolding loop_body_def by (rule 1(2))
    from I_loop_body [OF 1(3,4) this 1(5)] 1(1,3,4) show ?case by blast
  qed
  with user fw I show ?thesis by blast
qed (use run I in \<open>auto simp: run_actor_def\<close>)

text \<open>Threads that wait or poll: \<open>env\<close> is what the other threads do meanwhile.\<close>

lemma I_await:
  assumes "\<And>n s. I s \<Longrightarrow> I (env n s)" "await env p n s = Some y" "I s"
  shows "I (snd y)"
proof -
  let ?P = "\<lambda>env p n s y. (\<forall>n s. I s \<longrightarrow> I (env n s)) \<longrightarrow> I s \<longrightarrow> I (snd y)"
  have "?P env p n s y"
    by (rule await.raw_induct [OF _ assms(2), where P = ?P]) (fastforce split: if_splits)
  with assms(1,3) show ?thesis by blast
qed

lemma I_await_until:
  assumes "\<And>n s. I s \<Longrightarrow> I (env n s)" "await_until env clk deadline p n s = Some y" "I s"
  shows "I (snd y)"
proof -
  let ?P = "\<lambda>env clk deadline p n s y. (\<forall>n s. I s \<longrightarrow> I (env n s)) \<longrightarrow> I s \<longrightarrow> I (snd y)"
  have "?P env clk deadline p n s y"
    by (rule await_until.raw_induct [OF _ assms(2), where P = ?P]) (fastforce split: if_splits)
  with assms(1,3) show ?thesis by blast
qed

lemma I_monitor:
  assumes "\<And>n s. I s \<Longrightarrow> I (env n s)" "monitor_drain env clk deadline n s = Some s'" "I s"
  shows "I s'"
proof -
  let ?P = "\<lambda>env clk deadline n s s'. (\<forall>n s. I s \<longrightarrow> I (env n s)) \<longrightarrow> I s \<longrightarrow> I s'"
  have "?P env clk deadline n s s'"
    by (rule monitor_drain.raw_induct [OF _ assms(2), where P = ?P]) (fastforce split: if_splits)
  with assms(1,3) show ?thesis by blast
qed

lemma I_blocking_call:
  assumes "user_invariant I user" "fw_invariant I fw" "\<And>n s. I s \<Longrightarrow> I (env n s)" "I s"
  shows "blocking_call fw user env tid now ref request c s = Some (r, s') \<Longrightarrow> I s'"
    "timed_call fw user env clk timeout tid ref request c s = Some (r', s') \<Longrightarrow> I s'"
proof -
  note called = I_call [OF assms(1,2) _ assms(4)]
  show "blocking_call fw user env tid now ref request c s = Some (r, s') \<Longrightarrow> I s'"
    using called I_await [OF assms(3), where y = "(r, s')"]
    by (auto simp: blocking_call_def split: option.splits sum.splits prod.splits)
  have "I (report_invalid_target user t s)" for t by (rule I_core [OF core_invalid_target [OF I_observes [OF assms(1)]] assms(4)])
  then show "timed_call fw user env clk timeout tid ref request c s = Some (r', s') \<Longrightarrow> I s'"
    using called I_await_until [OF assms(3), where y = "(r', s')"]
    by (auto simp: timed_call_def split: option.splits sum.splits prod.splits)
qed

lemma I_process_in_context:
  assumes "user_invariant I user" "fw_invariant I fw" "process_in_context fw user tid now a s = Some s'" "I s"
  shows "I s'"
  using assms(3) I_process_next [OF assms(1,2) _ I_books(3) [OF assms(4)]] I_books(3) by (auto simp: process_in_context_def)

lemma I_drain:
  assumes "drain_at_shutdown fw user env clk n tid a s = Some s'" "user_invariant I user" "fw_invariant I fw" "\<And>n s. I s \<Longrightarrow> I (env n s)" "I s"
  shows "I s'"
proof -
  let ?P = "\<lambda>fw user env clk n tid a s s'. user_invariant I user \<and> fw_invariant I fw \<and> (\<forall>n s. I s \<longrightarrow> I (env n s)) \<and> I s \<longrightarrow> I s'"
  have "?P fw user env clk n tid a s s'"
  proof (rule drain_at_shutdown.raw_induct [OF _ assms(1), where P = ?P], intro impI, elim conjE, goal_cases)
    case (1 f fw user env clk n tid a s s')
    show ?case
    proof (cases "has_messages (s_actors s a)")
      case True
      then obtain s1 where s1: "process_in_context fw user tid (clk n) a s = Some s1" "f fw user env clk (Suc n) tid a (env n s1) = Some s'"
        using 1(2) by (auto split: option.splits)
      from 1(1) [OF s1(2)] I_process_in_context [OF 1(3,4) s1(1) 1(6)] 1(3-5) show ?thesis by blast
    qed (use 1 in simp)
  qed
  with assms(2-5) show ?thesis by blast
qed

lemma I_dedicated_thread:
  assumes "run_dedicated_thread_started fw user env clk n tid a s = Some s'" "user_invariant I user" "fw_invariant I fw"
    "\<And>n s. I s \<Longrightarrow> I (env n s)" "I s"
  shows "I s'"
proof -
  let ?P = "\<lambda>fw user env clk n tid a s s'. user_invariant I user \<and> fw_invariant I fw \<and> (\<forall>n s. I s \<longrightarrow> I (env n s)) \<and> I s \<longrightarrow> I s'"
  have "?P fw user env clk n tid a s s'"
  proof (rule run_dedicated_thread_started.raw_induct [OF _ assms(1), where P = ?P], intro impI, elim conjE, goal_cases)
    case (1 f fw user env clk n tid a s s')
    have again: ?case if "f fw user env clk (Suc n) tid a (env n t) = Some s'" "I t" for t
      using 1(1) [OF that(1)] that(2) 1(3-5) by blast
    consider (stop) "m_stop_phase (s_actors s a) = SP_requested" | (shutdown) "m_stop_phase (s_actors s a) = SP_system_shutdown"
      | (running) "m_stop_phase (s_actors s a) \<noteq> SP_requested" "m_stop_phase (s_actors s a) \<noteq> SP_system_shutdown" by blast
    then show ?case
    proof cases
      case stop
      then obtain d s1 where s1: "service_stop_request fw user tid (clk n) a s = Some (d, s1)" using 1(2) by (auto split: option.splits)
      note I1 = I_service_stop_request [OF 1(3,4) s1 1(6)]
      show ?thesis
      proof (cases d)
        case False
        then obtain r s2 where "process_next_message fw user tid (clk n) a s1 = Some (r, s2)" "f fw user env clk (Suc n) tid a (env n s2) = Some s'"
          using 1(2) stop s1 by (auto split: option.splits)
        from again [OF this(2) I_process_next [OF 1(3,4) this(1) I1]] show ?thesis .
      qed (use 1(2) stop s1 I1 in simp)
    next
      case shutdown
      then obtain s1 where "drain_at_shutdown fw user env clk n tid a s = Some s1" "s' = run_stop_hook user tid a SH_on_stop s1"
        using 1(2) by auto
      with I_drain [OF this(1) 1(3,4)] I_hook [OF 1(3)] 1(5,6) show ?thesis by blast
    next
      case running
      show ?thesis
      proof (cases "has_messages (s_actors s a)")
        case True
        then obtain s1 where "process_in_context fw user tid (clk n) a s = Some s1" "f fw user env clk (Suc n) tid a (env n s1) = Some s'"
          using 1(2) running by (auto split: option.splits)
        from again [OF this(2) I_process_in_context [OF 1(3,4) this(1) 1(6)]] show ?thesis .
      qed (use 1(2,6) running again in simp)
    qed
  qed
  with assms(2-5) show ?thesis by blast
qed

lemma I_on_start:
  assumes "user_invariant I user" "I s"
  shows "I (snd (run_on_start user tid a s))"
proof -
  have "I (upd_actor a (\<lambda>A. A\<lparr>m_in_on_start := b\<rparr>) t)" "I (upd_actor a (\<lambda>A. A\<lparr>m_started := b\<rparr>) t)" if "I t" for b t
    using that by (auto intro!: I_upd)
  with I_user(3) [OF assms(1)] I_books(3) assms(2) show ?thesis
    by (simp add: run_on_start_def Let_def case_prod_beta)
qed

end

end
