(* ===== verification/System_Reachable.thy ===== *)
theory System_Reachable
  imports System_Invariants
begin

text \<open>
  The states a program can bring the system into. \<open>system_invariant\<close> adds to \<open>framework_invariant\<close> what the operations for users and
  the life cycle need; the invariants of mailboxes and stashes (\<open>boxes_ok\<close>), of the watch tables and of the timers interpret it, and
  so does their conjunction. \<open>api_step\<close> lists the operations of the library that a program, a worker, a dedicated thread and the
  timer thread perform; the property says that no sequence of them breaks an invariant.
\<close>

section \<open>Invariants of the whole system\<close>

locale system_invariant = framework_invariant I for I :: "sys \<Rightarrow> bool" +
  assumes I_watch: "I s \<Longrightarrow> I (watch w d s)" "I s \<Longrightarrow> I (unwatch w d s)"
    and I_no_watches: "I s \<Longrightarrow> I (s\<lparr>m_watchers := (\<lambda>_. []), m_watching := (\<lambda>_. [])\<rparr>)"
    and I_timers: "I s \<Longrightarrow> timer_ids_fresh s \<Longrightarrow> I (snd (schedule_once a delay msg now s))"
      "I s \<Longrightarrow> timer_ids_fresh s \<Longrightarrow> I (snd (schedule_periodic a delay msg now s))" "I s \<Longrightarrow> I (cancel_timer a tid s)"
    and I_timer_thread: "I s \<Longrightarrow> is_top (m_timer_manager s) tid \<Longrightarrow> I (s\<lparr>m_timer_manager := snd (timer_turn now tid (m_timer_manager s))\<rparr>)"
      "I s \<Longrightarrow> I (s\<lparr>m_timer_manager := timer_start (m_timer_manager s)\<rparr>)" "I s \<Longrightarrow> I (s\<lparr>m_timer_manager := timer_stop (m_timer_manager s)\<rparr>)"
    and I_filter: "I s \<Longrightarrow> I (upd_actor a (accept_message_type t) s)" "I s \<Longrightarrow> I (upd_actor a (reject_message_type t) s)"
      "I s \<Longrightarrow> I (upd_actor a accept_all_message_types s)" "I s \<Longrightarrow> I (upd_actor a reject_all_message_types s)"
    and I_fresh: "I s \<Longrightarrow> m_active_timers (s_actors s a) = {} \<Longrightarrow> m_mailbox A = mailbox_init \<Longrightarrow> stash_inv (m_stash A) \<Longrightarrow>
      m_active_timers A = {} \<Longrightarrow> I (s\<lparr>s_actors := (s_actors s)(a := A)\<rparr>)"
begin

lemma I_activate:
  assumes "I s"
  shows "I (activate_after_start a s)"
proof -
  obtain b mb where b: "try_block (m_mailbox (s_actors s a)) = (b, mb)" by fastforce
  from I_boxes(4) [OF assms b] assms I_books(6) show ?thesis by (simp add: activate_after_start_def b Let_def)
qed

lemma I_prepare: "I s \<Longrightarrow> I (prepare_actor a s)"
  by (rule I_core) (auto simp: core_view_eq prepare_actor_def assign_default_name_def publish_name_def upd_actor_def Let_def)

lemma I_list: "I s \<Longrightarrow> I (list_actor hw a s)"
  by (rule I_core) (auto simp: core_view_eq list_actor_def assign_thread_def ensure_workers_def upd_actor_def Let_def)

lemma I_discard_unstarted:
  assumes "discard_unstarted_actor fw user tid a s = Some s'" "callbacks_observe user" "fw_invariant I fw" "I s"
  shows "I s'"
proof -
  let ?s2 = "close_mailbox user a AS_stopped False (cancel_actor_timers a (upd_actor a (\<lambda>A. A\<lparr>m_state := AS_stopped\<rparr>) s))"
  have "I ?s2" by (intro I_close_mailbox I_cancel_timers I_upd assms(2,4)) simp_all
  from I_books(1) [OF this] have I3: "I (snd (actor_name a ?s2))" .
  have reg: "I t \<Longrightarrow> I (t\<lparr>s_registry := r\<rparr>)" for t r by (rule I_core) (simp_all add: core_view_def)
  have erase: "I t \<Longrightarrow> I (erase_actor a t)" for t by (rule I_core) (simp_all add: core_view_def erase_actor_def Let_def)
  show ?thesis
    using assms(1) I_end_watches [OF _ assms(2,3) reg [OF I3]] erase
    by (auto simp: discard_unstarted_actor_def Let_def case_prod_beta)
qed

lemma I_register:
  assumes user: "user_invariant I user" and fw: "fw_invariant I fw" and run: "register_actor fw user hw tid now thr a s = Some (r, s')" and I: "I s"
  shows "I s'"
proof -
  let ?s2 = "list_actor hw a (prepare_actor a s)"
  have I2: "I ?s2" by (intro I_list I_prepare I)
  obtain x s3 where x: "run_on_start user tid a ?s2 = (x, s3)" by fastforce
  have I3: "I s3" using I_on_start [OF user I2, of tid a] x by simp
  define s5 where "s5 = (if is_fast (s_actors (activate_after_start a s3) a) \<and> m_dedicated_thread (s_actors (activate_after_start a s3) a) = None
      then upd_actor a (\<lambda>A. A\<lparr>m_dedicated_thread := Some thr\<rparr>) (activate_after_start a s3) else activate_after_start a s3)"
  have "I (upd_actor a (\<lambda>A. A\<lparr>m_dedicated_thread := Some thr\<rparr>) (activate_after_start a s3))" by (intro I_upd I_activate I3) simp_all
  then have I5: "I s5" using I_activate [OF I3, of a] by (simp add: s5_def)
  show ?thesis
  proof (cases "m_running (prepare_actor a s)")
    case True
    have "(case x of Inl e \<Rightarrow> map_option (\<lambda>s4. (Some e, s4)) (discard_unstarted_actor fw user tid a s3)
        | Inr _ \<Rightarrow> if m_shutdown_started s5 \<and> m_state (s_actors s5 a) = AS_running
            then actor_enqueue fw user now tid a (shutdown_message s5) s5 else Some (None, s5)) = Some (r, s')"
      using run [unfolded register_actor_def Let_def] True unfolding x by (cases x) (simp_all only: s5_def sum.case prod.case if_False not_not if_True simp_thms)
    then show ?thesis
      using I_discard_unstarted [OF _ I_observes [OF user] fw I3] I_enqueue(1) [OF user fw I5] I5
      by (cases x) (auto split: if_splits)
  qed (use run I2 in \<open>simp add: register_actor_def Let_def\<close>)
qed

lemma I_start_actors: "user_invariant I user \<Longrightarrow> I s \<Longrightarrow> I (snd (start_actors user tid bs s))"
proof (induction bs arbitrary: s)
  case (Cons b bs)
  obtain x s1 where x: "run_on_start user tid b s = (x, s1)" by fastforce
  have "I s1" using I_on_start [OF Cons.prems, of tid b] x by simp
  with Cons.IH [OF Cons.prems(1) I_activate] x show ?case by (simp split: sum.split)
qed simp

lemma I_launch: "I s \<Longrightarrow> I (launch_threads n thr s)"
proof -
  have "I s \<Longrightarrow> I (s\<lparr>m_workers_active := True, m_thread_pool := tp\<rparr>)" for tp by (rule I_core) (simp_all add: core_view_def)
  then show "I s \<Longrightarrow> I (launch_threads n thr s)"
    unfolding launch_threads_def Let_def by (intro I_fold I_upd) simp_all
qed

lemma I_start:
  assumes user: "user_invariant I user" and run: "start user hw tid thr s = Some (r, s')" and I: "I s"
  shows "I s'"
proof (cases "m_running s \<or> m_has_run s")
  case False
  obtain n s2 where s2: "size_pool hw (s\<lparr>m_running := True, m_has_run := True, m_shutdown_requested := False, m_shutdown_started := False\<rparr>) = (n, s2)"
    by fastforce
  have "core_view s2 = core_view s" using s2 by (auto simp: core_view_def size_pool_def ensure_workers_def Let_def)
  then have I2: "I s2" using I_core I by blast
  obtain ws where ws: "clear_all (m_workers s2) = Some ws" using run False s2 by (auto simp: start_def Let_def)
  have "I (s2\<lparr>m_workers := ws\<rparr>)" by (rule I_core [OF _ I2]) (simp add: core_view_def)
  then have "I (s2\<lparr>m_workers := ws, m_timer_manager := timer_start (m_timer_manager s2)\<rparr>)" (is "I ?s3")
    using I_timer_thread(2) [of "s2\<lparr>m_workers := ws\<rparr>"] by simp
  note I4 = I_start_actors [OF user this, of tid "concat (m_actors_per_thread ?s3)"]
  obtain x s4 where x: "start_actors user tid (concat (m_actors_per_thread ?s3)) ?s3 = (x, s4)" by fastforce
  with I4 have "I s4" by simp
  moreover have "s' = (case x of Some e \<Rightarrow> s4 | None \<Rightarrow> launch_threads n thr s4)"
    using run False s2 ws x by (auto simp: start_def Let_def split: option.splits)
  ultimately show ?thesis using I_launch by (auto split: option.split)
qed (use run I in \<open>auto simp: start_def split: if_splits\<close>)

lemma I_inject:
  assumes "user_invariant I user" "fw_invariant I fw"
  shows "inject_shutdown fw user tid now bs s = Some (r, s') \<Longrightarrow> I s \<Longrightarrow> I s'"
proof (induction bs arbitrary: s)
  case (Cons b bs)
  note sent = I_enqueue(1) [OF assms Cons.prems(2), of now tid b "shutdown_message s"]
  show ?case
  proof (cases "m_state (s_actors s b) = AS_running")
    case True
    then obtain x s1 where x: "actor_enqueue fw user now tid b (shutdown_message s) s = Some (x, s1)"
      using Cons.prems(1) by (auto split: option.splits)
    from sent [OF x] Cons.IH [of s1] Cons.prems(1) True x show ?thesis by (cases x) simp_all
  qed (use Cons in simp)
qed simp

lemma I_log: "I s \<Longrightarrow> I (log_undrained kind bs s)"
proof (induction bs arbitrary: s)
  case (Cons b bs)
  have "I t \<Longrightarrow> I (t\<lparr>m_shutdown_log := l\<rparr>)" for t l by (rule I_core) (simp_all add: core_view_def)
  from Cons.IH [OF this [OF I_books(1) [OF Cons.prems]]] Cons.IH [OF Cons.prems] show ?case by (simp add: case_prod_beta Let_def)
qed simp

lemma I_shutdown:
  assumes user: "user_invariant I user" and fw: "fw_invariant I fw" and env: "\<And>n s. I s \<Longrightarrow> I (env n s)"
    and run: "shutdown fw user env clk tid cfg s = Some (r, s')" and I: "I s"
  shows "I s'"
proof -
  let ?s1 = "s\<lparr>m_shutdown_started := True, m_shutdown_log := []\<rparr>"
  have I1: "I ?s1" by (rule I_core [OF _ I]) (simp add: core_view_def)
  obtain x s2 where x: "inject_shutdown fw user tid (clk 0) (snapshot_pooled_actors ?s1 @ snapshot_fast_actors ?s1) ?s1 = Some (x, s2)"
    using run by (auto simp: shutdown_def Let_def split: option.splits)
  note I2 = I_inject [OF user fw x I1]
  have flag: "I t \<Longrightarrow> I (t\<lparr>m_shutdown_requested := True\<rparr>)" for t by (rule I_core) (simp_all add: core_view_def)
  have mon: "monitor_drain env clk deadline n s2 = Some t \<Longrightarrow> I t" for deadline n t by (rule I_monitor [OF _ _ I2]) (rule env)
  show ?thesis
    using run x I2 mon flag [OF I_log [OF I_log]] by (cases x) (auto simp: shutdown_def Let_def)
qed

lemma I_complete_stops:
  assumes "fw_invariant I fw"
  shows "complete_stops fw tid bs s = Some s' \<Longrightarrow> I s \<Longrightarrow> I s'"
  by (induction bs arbitrary: s) (auto simp: bind_eq_Some_conv split: if_splits dest: I_fw(2) [OF assms])

lemma I_wait:
  assumes user: "user_invariant I user" and fw: "fw_invariant I fw" and env: "\<And>s. I s \<Longrightarrow> I (env s)"
    and run: "wait_for_shutdown fw user env tid s = Some s'" and I: "I s"
  shows "I s'"
proof -
  let ?s1 = "s\<lparr>m_timer_manager := timer_stop (m_timer_manager s), m_running := False\<rparr>"
  have flags: "I t \<Longrightarrow> I (t\<lparr>m_running := b\<rparr>)" "I t \<Longrightarrow> I (t\<lparr>m_thread_pool := tp\<rparr>)" "I t \<Longrightarrow> I (t\<lparr>m_workers_active := b\<rparr>)" for t b tp
    by (rule I_core; simp add: core_view_def)+
  have "I ?s1" using flags(1) [OF I_timer_thread(3) [OF I], of False] by simp
  then have I2: "I ((env ?s1)\<lparr>m_thread_pool := []\<rparr>)" (is "I ?s2") by (rule flags(2) [OF env])
  have join: "I t \<Longrightarrow> I (join_dedicated a t)" for a t unfolding join_dedicated_def by (auto intro!: I_upd)
  have I3: "I ((fold join_dedicated (m_fast_actors ?s2) ?s2)\<lparr>m_workers_active := False\<rparr>)" (is "I ?s3") by (intro flags I_fold join I2)
  obtain s4 where s4: "complete_stops fw tid (snapshot_pooled_actors ?s3 @ snapshot_fast_actors ?s3) ?s3 = Some s4"
    "s' = (let s5 = fold mark_stopped (m_fast_actors ?s2) (reap_stopped_fast_actors tid s4) in fold (stop_pooled user tid) (snapshot_pooled_actors s5) s5)"
    using run by (auto simp: wait_for_shutdown_def complete_pending_stops_def Let_def)
  have mark: "I t \<Longrightarrow> I (mark_stopped a t)" for a t unfolding mark_stopped_def by (rule I_upd) simp_all
  have stop: "I t \<Longrightarrow> I (stop_pooled user tid a t)" for a t
    unfolding stop_pooled_def by (intro mark I_hook [OF user] I_cancel_timers)
  show ?thesis
    unfolding s4(2) Let_def by (intro I_fold stop mark I_reap I_complete_stops [OF fw s4(1) I3])
qed

lemma I_reset: "I s \<Longrightarrow> I (snd (reset s))"
  by (cases "m_running s", simp add: reset_def, rule I_core [OF _ I_no_watches]) (simp_all add: reset_def core_view_def)

end

section \<open>Mailboxes and stashes\<close>

definition boxes_ok :: "sys \<Rightarrow> bool" where
  "boxes_ok s \<longleftrightarrow> (\<forall>a. mailbox_wf (m_mailbox (s_actors s a)) \<and> stash_inv (m_stash (s_actors s a)))"

lemma stash_pull_wf:
  assumes "stash_pull st mb = Some (r, st', mb')" "stash_inv st" "mailbox_wf mb"
  shows "stash_inv st' \<and> mailbox_wf mb'"
proof -
  let ?P = "\<lambda>st mb y. stash_inv st \<longrightarrow> mailbox_wf mb \<longrightarrow> stash_inv (fst (snd y)) \<and> mailbox_wf (snd (snd y))"
  have "?P st mb (r, st', mb')"
  proof (rule stash_pull.raw_induct [OF _ assms(1), where P = ?P], intro impI)
    fix f st mb y
    assume IH: "\<And>st mb y. f st mb = Some y \<Longrightarrow> ?P st mb y" and st: "stash_inv st" and mb: "mailbox_wf mb"
      and eq: "(case mailbox_pop mb of (None, mb') \<Rightarrow> Some (None, st, mb')
        | (Some m, mb') \<Rightarrow> if \<not> is_user m then Some (Some m, st, mb') else f (stash_hold m st) mb') = Some y"
    obtain x mb' where x: "mailbox_pop mb = (x, mb')" by fastforce
    have "mailbox_wf mb'" using mailbox_pop_wf [OF mb] x by simp
    with eq x st IH stash_hold_inv [OF st] show "stash_inv (fst (snd y)) \<and> mailbox_wf (snd (snd y))"
      by (auto split: option.splits if_splits)
  qed
  with assms(2,3) show ?thesis by simp
qed

lemma stash_next_wf:
  assumes "stash_next st mb = Some (r, st', mb')" "stash_inv st" "mailbox_wf mb"
  shows "stash_inv st'" "mailbox_wf mb'"
proof -
  obtain x st1 mb1 where x: "stash_pull st mb = Some (x, st1, mb1)"
    using assms(1) by (auto simp: stash_next_def bind_eq_Some_conv)
  from stash_pull_wf [OF x assms(2,3)] stash_select_inv [of st1] assms(1) x show "stash_inv st'" "mailbox_wf mb'"
    by (auto simp: stash_next_def Let_def case_prod_beta split: option.splits)
qed

section \<open>What the services leave alone\<close>

lemma watch_frame:
  "s_actors (watch w d s) = s_actors s" "m_timer_manager (watch w d s) = m_timer_manager s" "s_timer_target (watch w d s) = s_timer_target s"
  "s_actors (unwatch w d s) = s_actors s" "m_timer_manager (unwatch w d s) = m_timer_manager s" "s_timer_target (unwatch w d s) = s_timer_target s"
  "s_actors (snd (remove_watches i s)) = s_actors s" "m_timer_manager (snd (remove_watches i s)) = m_timer_manager s"
  "s_timer_target (snd (remove_watches i s)) = s_timer_target s"
  by (simp_all add: watch_def unwatch_def remove_watches_def Let_def split: option.split)

definition timer_frame :: "sys \<Rightarrow> sys \<Rightarrow> bool" where
  "timer_frame s t \<longleftrightarrow> (\<forall>b. m_mailbox (s_actors t b) = m_mailbox (s_actors s b) \<and> m_stash (s_actors t b) = m_stash (s_actors s b))
     \<and> m_watchers t = m_watchers s \<and> m_watching t = m_watching s"

lemma timer_frames:
  "timer_frame s (snd (schedule_once a delay msg now s))" "timer_frame s (snd (schedule_periodic a delay msg now s))"
  "timer_frame s (cancel_timer a tid s)" "timer_frame s (cancel_actor_timers a s)"
proof -
  have "timer_frame s (snd (schedule_timer a msg delay ivl now s))" for ivl
    by (simp add: timer_frame_def schedule_timer_def case_prod_beta)
  moreover have "timer_frame t (track_timer a tid t)" for t tid
    by (simp add: timer_frame_def track_timer_def upd_actor_def Let_def)
  ultimately have "timer_frame s (track_timer a tid (snd (schedule_timer a msg delay ivl now s)))" for tid ivl
    by (simp add: timer_frame_def)
  then show "timer_frame s (snd (schedule_once a delay msg now s))" "timer_frame s (snd (schedule_periodic a delay msg now s))"
    by (simp_all add: schedule_once_def schedule_periodic_def case_prod_beta timer_frame_def)
  show "timer_frame s (cancel_timer a tid s)"
    by (simp add: timer_frame_def cancel_timer_def cancel_timer_internal_def upd_actor_def)
  have "timer_frame t (fold cancel_timer_internal ts t)" for ts t
    by (induction ts arbitrary: t) (simp_all add: timer_frame_def cancel_timer_internal_def)
  then show "timer_frame s (cancel_actor_timers a s)"
    by (simp add: timer_frame_def cancel_actor_timers_def upd_actor_def)
qed

section \<open>The invariants\<close>

lemma boxes_frame: "timer_frame s t \<Longrightarrow> boxes_ok s \<Longrightarrow> boxes_ok t"
  by (simp add: timer_frame_def boxes_ok_def)

interpretation boxes: system_invariant boxes_ok
proof unfold_locales
  fix s t a m tid now delay i w d ty A r st mb
  assume I: "boxes_ok s"
  note upd = boxes_ok_def upd_actor_def
  show "boxes_ok t" if "core_view t = core_view s" using I that by (simp add: boxes_ok_def core_view_eq)
  show "boxes_ok (upd_actor a (\<lambda>A. A\<lparr>m_mailbox := snd (mailbox_push m (m_mailbox A))\<rparr>) s)"
    "boxes_ok (upd_actor a (\<lambda>A. A\<lparr>m_mailbox := snd (mailbox_pop (m_mailbox A))\<rparr>) s)"
    "boxes_ok (upd_actor a (\<lambda>A. A\<lparr>m_mailbox := snd (mailbox_close (m_mailbox A))\<rparr>) s)"
    "boxes_ok (upd_actor a (\<lambda>A. A\<lparr>m_mailbox := snd (try_block (m_mailbox A))\<rparr>) s)"
    "boxes_ok (upd_actor a (\<lambda>A. A\<lparr>m_mailbox := snd (try_unblock (m_mailbox A))\<rparr>) s)"
    "boxes_ok (upd_actor a (\<lambda>A. A\<lparr>m_stash := snd (stash_drop_held (m_stash A))\<rparr>) s)"
    using I by (simp_all add: upd mailbox_push_wf mailbox_pop_wf mailbox_close_wf try_block_wf stash_drop_held_def stash_inv_def)
  show "boxes_ok (upd_actor a (\<lambda>A. A\<lparr>m_stash := st, m_mailbox := mb\<rparr>) s)"
    if "stash_next (m_stash (s_actors s a)) (m_mailbox (s_actors s a)) = Some (r, st, mb)"
    using I stash_next_wf [OF that] by (simp add: upd)
  show "boxes_ok (upd_actor a (accept_message_type ty) s)" "boxes_ok (upd_actor a (reject_message_type ty) s)"
    "boxes_ok (upd_actor a accept_all_message_types s)" "boxes_ok (upd_actor a reject_all_message_types s)"
    using I by (simp_all add: upd accept_message_type_def reject_message_type_def accept_all_message_types_def reject_all_message_types_def
        stash_filter_inv)
  show "boxes_ok (snd (remove_watches i s))" "boxes_ok (watch w d s)" "boxes_ok (unwatch w d s)"
    "boxes_ok (s\<lparr>m_watchers := \<lambda>_. [], m_watching := \<lambda>_. []\<rparr>)" "boxes_ok (s\<lparr>m_timer_manager := snd (timer_turn now tid (m_timer_manager s))\<rparr>)"
    "boxes_ok (s\<lparr>m_timer_manager := timer_start (m_timer_manager s)\<rparr>)" "boxes_ok (s\<lparr>m_timer_manager := timer_stop (m_timer_manager s)\<rparr>)"
    using I by (simp_all add: boxes_ok_def watch_frame)
  show "boxes_ok (s\<lparr>s_actors := (s_actors s)(a := A)\<rparr>)" if "m_mailbox A = mailbox_init" "stash_inv (m_stash A)"
    using I that by (simp add: boxes_ok_def mailbox_wf_def mailbox_init_def mailbox_caches_ok_def lane_defs)
qed (blast intro: boxes_frame timer_frames)+

lemma watch_inv_tables: "m_watchers t = m_watchers s \<Longrightarrow> m_watching t = m_watching s \<Longrightarrow> watch_inv s \<Longrightarrow> watch_inv t"
  by (simp add: watch_inv_def)

lemma watch_inv_frame: "timer_frame s t \<Longrightarrow> watch_inv s \<Longrightarrow> watch_inv t"
  by (simp add: timer_frame_def watch_inv_def)

interpretation watches: system_invariant watch_inv
proof unfold_locales
  fix s i a delay msg now tid
  assume I: "watch_inv s"
  show "watch_inv (snd (remove_watches i s))"
    using watch_protocol.inv_step [OF I ws_end [OF surjective_pairing]] .
  show "watch_inv (s\<lparr>m_watchers := \<lambda>_. [], m_watching := \<lambda>_. []\<rparr>)" by (simp add: watch_inv_def)
  show "watch_inv (snd (schedule_once a delay msg now s))" "watch_inv (snd (schedule_periodic a delay msg now s))"
    "watch_inv (cancel_timer a tid s)" "watch_inv (cancel_actor_timers a s)"
    by (rule watch_inv_frame [OF _ I], rule timer_frames)+
qed (simp_all add: watch_keeps_inv unwatch_keeps_inv core_view_eq upd_actor_def watch_inv_tables)

lemma timers_tracked_cong:
  assumes "m_timer_manager t = m_timer_manager s" "s_timer_target t = s_timer_target s"
    "\<And>a. m_active_timers (s_actors t a) = m_active_timers (s_actors s a)" "timers_tracked s"
  shows "timers_tracked t"
  using assms by (simp add: timers_tracked_def)

lemma timers_tracked_upd: "timers_tracked s \<Longrightarrow> (\<And>A. m_active_timers (f A) = m_active_timers A) \<Longrightarrow> timers_tracked (upd_actor a f s)"
  by (rule timers_tracked_cong [of _ s]) (simp_all add: upd_actor_def)

interpretation timers: system_invariant timers_tracked
proof unfold_locales
  fix s a i msg now tid A
  assume I: "timers_tracked s"
  show "timers_tracked (snd (schedule_once a delay msg now s))" "timers_tracked (snd (schedule_periodic a delay msg now s))" if "timer_ids_fresh s" for delay
    using actor_timers.inv_step [OF I at_once [OF that surjective_pairing]] actor_timers.inv_step [OF I at_periodic [OF that surjective_pairing]] .
  show "timers_tracked (cancel_timer a tid s)" "timers_tracked (cancel_actor_timers a s)"
    using actor_timers.inv_step [OF I at_cancel] actor_timers.inv_step [OF I at_cancel_all] .
  show "timers_tracked (s\<lparr>m_timer_manager := snd (timer_turn now tid (m_timer_manager s))\<rparr>)" if "is_top (m_timer_manager s) tid"
    using actor_timers.inv_step [OF I at_turn [OF that surjective_pairing]] .
  have ti: "timer_inv (m_timer_manager s)" using I by (simp add: timers_tracked_def)
  have p: "is_pending (timer_start (m_timer_manager s)) k \<longleftrightarrow> is_pending (m_timer_manager s) k" "\<not> is_pending (timer_stop (m_timer_manager s)) k" for k
    by (simp_all add: is_pending_def timer_start_def timer_stop_def)
  show "timers_tracked (s\<lparr>m_timer_manager := timer_start (m_timer_manager s)\<rparr>)" "timers_tracked (s\<lparr>m_timer_manager := timer_stop (m_timer_manager s)\<rparr>)"
    using I timer_start_inv [OF ti] timer_stop_inv [OF ti] p by (simp_all add: timers_tracked_def)
  show "timers_tracked (s\<lparr>s_actors := (s_actors s)(a := A)\<rparr>)" if "m_active_timers (s_actors s a) = {}" "m_active_timers A = {}"
    using I that unfolding timers_tracked_def by fastforce
qed (auto intro: timers_tracked_cong timers_tracked_upd simp: core_view_eq watch_frame accept_message_type_def reject_message_type_def
     accept_all_message_types_def reject_all_message_types_def)

text \<open>All of them together.\<close>

definition system_ok :: "sys \<Rightarrow> bool" where
  "system_ok s \<longleftrightarrow> boxes_ok s \<and> watch_inv s \<and> timers_tracked s"

lemma system_invariant_conj:
  assumes "system_invariant I" "system_invariant J"
  shows "system_invariant (\<lambda>s. I s \<and> J s)"
proof -
  note f = assms [THEN system_invariant.axioms(1)] and y = assms [THEN system_invariant.axioms(2)]
  show ?thesis
    using f y unfolding system_invariant_def framework_invariant_def system_invariant_axioms_def by meson
qed

interpretation all: system_invariant system_ok
  unfolding system_ok_def [abs_def]
  by (intro system_invariant_conj boxes.system_invariant_axioms watches.system_invariant_axioms timers.system_invariant_axioms)

section \<open>What a program can do\<close>

text \<open>
  The operations of the library, as the threads of a program perform them: the interface for users, the turns of workers, the threads of
  fast actors and the timer thread. An operation that waits lets the others act meanwhile: \<open>env\<close> is any sequence of such steps.
\<close>

inductive api_step :: "user_code \<Rightarrow> sys \<Rightarrow> sys \<Rightarrow> bool" for user where
  api_tell: "tell (framework_of user clk d) user tid target msg s = Some (r, s') \<Longrightarrow> api_step user s s'"
| api_call: "blocking_call (framework_of user clk d) user env tid now ref request c s = Some (r', s') \<Longrightarrow>
    (\<forall>n x. (api_step user)\<^sup>*\<^sup>* x (env n x)) \<Longrightarrow> api_step user s s'"
| api_timed_call: "timed_call (framework_of user clk d) user env clk' timeout tid ref request c s = Some (r'', s') \<Longrightarrow>
    (\<forall>n x. (api_step user)\<^sup>*\<^sup>* x (env n x)) \<Longrightarrow> api_step user s s'"
| api_stop: "stop_actor (framework_of user clk d) tid now ref cfg s = Some (sr, s') \<Longrightarrow> api_step user s s'"
| api_stop_by_name: "stop_actor_by_name (framework_of user clk d) tid now nm cfg s = Some (sr, s') \<Longrightarrow> api_step user s s'"
| api_watch: "api_step user s (watch w x s)"
| api_unwatch: "api_step user s (unwatch w x s)"
| api_once: "timer_ids_fresh s \<Longrightarrow> api_step user s (snd (schedule_once a delay msg now s))"
| api_periodic: "timer_ids_fresh s \<Longrightarrow> api_step user s (snd (schedule_periodic a ivl msg now s))"
| api_cancel: "api_step user s (cancel_timer a timer s)"
| api_filter: "f \<in> {accept_message_type t, reject_message_type t, accept_all_message_types, reject_all_message_types} \<Longrightarrow>
    api_step user s (upd_actor a f s)"
| api_name: "api_step user s (set_name a nm s)"
| api_create: "m_active_timers (s_actors s a) = {} \<Longrightarrow> m_mailbox (ctor (actor_init kind tname)) = mailbox_init \<Longrightarrow>
    stash_inv (m_stash (ctor (actor_init kind tname))) \<Longrightarrow> m_active_timers (ctor (actor_init kind tname)) = {} \<Longrightarrow>
    create (framework_of user clk d) user hw tid now thr ctor kind tname a s = Some (cr, s') \<Longrightarrow> api_step user s s'"
| api_configure: "api_step user s (snd (configure config s))"
| api_start: "start user hw tid thrs s = Some (r, s') \<Longrightarrow> api_step user s s'"
| api_worker: "run_actor (framework_of user clk d) user clk' tid i a s = Some (r, s') \<Longrightarrow> api_step user s s'"
| api_thread: "run_dedicated_thread (framework_of user clk d) user env clk' tid a s = Some e \<Longrightarrow>
    (\<forall>n x. (api_step user)\<^sup>*\<^sup>* x (env n x)) \<Longrightarrow> e \<in> {Thread_returns s', Process_terminates s'} \<Longrightarrow> api_step user s s'"
| api_timer_turn: "is_top (m_timer_manager s) timer \<Longrightarrow>
    api_step user s (s\<lparr>m_timer_manager := snd (timer_turn now timer (m_timer_manager s))\<rparr>)"
| api_timer_fires: "timer_callback (framework_of user clk d) user tid now a msg s = Some s' \<Longrightarrow> api_step user s s'"
| api_shutdown: "shutdown (framework_of user clk d) user env clk' tid scfg s = Some (r, s') \<Longrightarrow>
    (\<forall>n x. (api_step user)\<^sup>*\<^sup>* x (env n x)) \<Longrightarrow> api_step user s s'"
| api_wait: "wait_for_shutdown (framework_of user clk d) user env_join tid s = Some s' \<Longrightarrow>
    (\<forall>x. (api_step user)\<^sup>*\<^sup>* x (env_join x)) \<Longrightarrow> api_step user s s'"
| api_reset: "api_step user s (snd (reset s))"

definition pristine :: "sys \<Rightarrow> bool" where
  "pristine s \<longleftrightarrow> no_watches s \<and> no_timers s \<and> (\<forall>a. m_mailbox (s_actors s a) = mailbox_init \<and> m_stash (s_actors s a) = stash_init)"

lemma steps_keep:
  assumes "(\<lambda>x y. R x y \<and> (J x \<longrightarrow> J y))\<^sup>*\<^sup>* x y" "J x"
  shows "J y"
  using assms by (induction rule: rtranclp_induct) auto

context system_invariant
begin

lemma I_create:
  assumes "user_invariant I user" "fw_invariant I fw" "create fw user hw tid now thr ctor kind tname a s = Some (r, s')" "I s"
    "m_active_timers (s_actors s a) = {}" "m_mailbox (ctor (actor_init kind tname)) = mailbox_init"
    "stash_inv (m_stash (ctor (actor_init kind tname)))" "m_active_timers (ctor (actor_init kind tname)) = {}"
  shows "I s'"
  using assms(3) I_register [OF assms(1,2) _ I_fresh [OF assms(4-8)]] by (auto simp: create_def)

lemma I_thread:
  assumes user: "user_invariant I user" and fw: "fw_invariant I fw" and env: "\<And>n s. I s \<Longrightarrow> I (env n s)" and I: "I s"
    and run: "run_dedicated_thread fw user env clk tid a s = Some e" "e \<in> {Thread_returns s', Process_terminates s'}"
  shows "I s'"
proof -
  obtain x s1 where x: "run_on_start user tid a s = (x, s1)" by fastforce
  have I1: "I s1" using I_on_start [OF user I, of tid a] x by simp
  have "run_dedicated_thread_started fw user env clk 0 tid a s1 = Some t \<Longrightarrow> I t" for t
    by (rule I_dedicated_thread [OF _ user fw _ I1]) (assumption, rule env)
  with run x I_reports(4) [OF I_observes [OF user] I1] show ?thesis
    by (auto simp: run_dedicated_thread_def split: sum.splits)
qed

lemma I_stop_by_name:
  assumes "fw_invariant I fw" "stop_actor_by_name fw tid now nm cfg s = Some (r, s')" "I s"
  shows "I s'"
proof -
  have "I (s\<lparr>s_registry := reg\<rparr>)" for reg by (rule I_core [OF _ assms(3)]) (simp add: core_view_def)
  with assms(2) I_stop_actor [OF assms(1)] show ?thesis
    by (auto simp: stop_actor_by_name_def Let_def case_prod_beta split: option.splits)
qed

lemma I_name: "I s \<Longrightarrow> I (set_name a nm s)"
  by (rule I_core) (auto simp: core_view_eq set_name_def publish_name_def upd_actor_def Let_def case_prod_beta split: option.split)

lemma I_configure: "I s \<Longrightarrow> I (snd (configure config s))"
  by (rule I_core) (simp_all add: core_view_def configure_def)

lemma I_step:
  assumes "user_invariant I user"
  shows "api_step user s t \<Longrightarrow> I s \<longrightarrow> I t"
proof (induction rule: api_step.induct)
  case (api_call clk d env tid now ref request c s r' s')
  from I_blocking_call(1) [OF assms I_framework [OF assms] _ _ api_call(1)] steps_keep [where J = I] api_call(2) show ?case by blast
next
  case (api_timed_call clk d env clk' timeout tid ref request c s r'' s')
  from I_blocking_call(2) [OF assms I_framework [OF assms] _ _ api_timed_call(1)] steps_keep [where J = I] api_timed_call(2) show ?case by blast
next
  case (api_thread clk d env clk' tid a s e s')
  from I_thread [OF assms I_framework [OF assms] _ _ api_thread(1,2)] steps_keep [where J = I] api_thread(3) show ?case by blast
next
  case (api_shutdown clk d env clk' tid scfg s r s')
  from I_shutdown [OF assms I_framework [OF assms] _ api_shutdown(1)] steps_keep [where J = I] api_shutdown(2) show ?case by blast
next
  case (api_wait clk d env_join tid s s')
  from I_wait [OF assms I_framework [OF assms] _ api_wait(1)] steps_keep [where J = I] api_wait(2) show ?case by blast
next
  case (api_tell clk d tid target msg s r s')
  from I_tell [OF I_observes [OF assms] I_framework [OF assms] api_tell] show ?case by blast
next
  case (api_stop clk d tid now ref cfg s sr s')
  from I_stop_actor [OF I_framework [OF assms] api_stop] show ?case by blast
next
  case (api_stop_by_name clk d tid now nm cfg s sr s')
  from I_stop_by_name [OF I_framework [OF assms] api_stop_by_name] show ?case by blast
next
  case (api_create s a ctor kind tname clk d hw tid now thr cr s')
  from I_create [OF assms I_framework [OF assms] api_create(5) _ api_create(1-4)] show ?case by blast
next
  case (api_start hw tid thrs s r s')
  from I_start [OF assms api_start] show ?case by blast
next
  case (api_worker clk d clk' tid i a s r s')
  from I_run_actor [OF api_worker assms I_framework [OF assms]] show ?case by simp
next
  case (api_timer_fires clk d tid now a msg s s')
  from I_timer_callback [OF assms I_framework [OF assms] api_timer_fires] show ?case by blast
qed (auto intro: I_watch I_timers I_timer_thread I_filter I_name I_configure I_reset)

end

section \<open>User code\<close>

text \<open>
  What handlers and hooks usually do: they send to actors with a mailbox, request stops while the workers run, watch, schedule and
  cancel timers, and set their filter. User code that only acts this way keeps every invariant of the system.
\<close>

inductive client_action :: "user_code \<Rightarrow> sys \<Rightarrow> sys \<Rightarrow> bool" for user where
  ca_tell: "\<not> runs_inline (s_actors s a) \<Longrightarrow> tell (framework_of user clk d) user tid (Some a) msg s = Some (r, s') \<Longrightarrow> client_action user s s'"
| ca_stop: "m_workers_active s \<Longrightarrow> stop_actor (framework_of user clk d) tid now ref cfg s = Some (sr, s') \<Longrightarrow> client_action user s s'"
| ca_watch: "client_action user s (watch w x s)"
| ca_unwatch: "client_action user s (unwatch w x s)"
| ca_once: "timer_ids_fresh s \<Longrightarrow> client_action user s (snd (schedule_once a delay msg now s))"
| ca_periodic: "timer_ids_fresh s \<Longrightarrow> client_action user s (snd (schedule_periodic a ivl msg now s))"
| ca_cancel: "client_action user s (cancel_timer a timer s)"
| ca_filter: "f \<in> {accept_message_type t, reject_message_type t, accept_all_message_types, reject_all_message_types} \<Longrightarrow>
    client_action user s (upd_actor a f s)"

definition acts_only :: "user_code \<Rightarrow> bool" where
  "acts_only user \<longleftrightarrow> callbacks_observe user
     \<and> (\<forall>h a m s. (client_action user)\<^sup>*\<^sup>* s (snd (uc_handler user h a m s))) \<and> (\<forall>a m s. (client_action user)\<^sup>*\<^sup>* s (snd (uc_unhandled user a m s)))
     \<and> (\<forall>a s. (client_action user)\<^sup>*\<^sup>* s (snd (uc_on_start user a s))) \<and> (\<forall>a s. (client_action user)\<^sup>*\<^sup>* s (snd (uc_on_shutdown user a s)))
     \<and> (\<forall>a s. (client_action user)\<^sup>*\<^sup>* s (snd (uc_on_stop user a s)))
     \<and> (\<forall>a m e s. (client_action user)\<^sup>*\<^sup>* s (snd (uc_on_handler_exception user a m e s)))
     \<and> (\<forall>h a v s. (client_action user)\<^sup>*\<^sup>* s (snd (uc_call_handler user h a v s)))"

lemma stop_actor_active:
  assumes "m_workers_active s"
  shows "stop_actor fw tid now ref cfg s = stop_actor fw' tid now ref cfg s"
  using assms by (simp add: stop_actor_def upd_actor_def split: option.split)

context system_invariant
begin

lemma I_action:
  assumes obs: "callbacks_observe user" and step: "client_action user s t" and I: "I s"
  shows "I t"
  using step
proof cases
  case (ca_tell a clk d tid msg r)
  show ?thesis
  proof (cases "self_ref tid s")
    case (Inr who)
    show ?thesis
    proof (cases d)
      case (Suc d')
      have "t = enqueue_message user a (told_message who msg s) (s\<lparr>m_next_message_id := m_next_message_id s + 1\<rparr>)"
        using ca_tell(2) tell_enqueues [OF Inr ca_tell(1), of user clk d' msg] unfolding Suc by simp
      with I_send [OF obs I_books(8) [OF I], of False a "told_message who msg s"] show ?thesis by (simp add: send_def)
    qed (use ca_tell(2) Inr in \<open>simp add: tell_def Let_def case_prod_beta\<close>)
  qed (use ca_tell(2) I in \<open>simp add: tell_def\<close>)
next
  case (ca_stop clk d tid now ref cfg sr)
  have "fw_invariant I (framework_of user clk 0)" by (simp add: fw_invariant_def)
  from I_stop_actor [OF this _ I] ca_stop(2) stop_actor_active [OF ca_stop(1)] show ?thesis by metis
qed (use I in \<open>auto intro: I_watch I_timers I_filter\<close>)

lemma I_actions: "(client_action user)\<^sup>*\<^sup>* s t \<Longrightarrow> callbacks_observe user \<Longrightarrow> I s \<Longrightarrow> I t"
  by (induction rule: rtranclp_induct) (auto dest: I_action)

lemma I_acts_only:
  assumes "acts_only user"
  shows "user_invariant I user"
proof -
  note acts = assms [unfolded acts_only_def]
  have "callbacks_observe user" using acts by blast
  note keep = I_actions [OF _ this]
  show ?thesis
    unfolding user_invariant_def by (intro conjI allI impI; (rule keep)?) (use acts in simp_all)
qed

lemma I_reachable:
  assumes "\<And>s. pristine s \<Longrightarrow> I s" "acts_only user" "reachable pristine (api_step user) s"
  shows "I s"
  using assms(3)
proof induction
  case (reachable_step s t)
  with I_step [OF I_acts_only [OF assms(2)]] show ?case by blast
qed (use assms(1) in blast)

end

lemma pristine_ok: "pristine s \<Longrightarrow> system_ok s"
  using watch_protocol.inv_init actor_timers.inv_init stash_init_inv
  by (simp add: pristine_def system_ok_def boxes_ok_def mailbox_wf_def mailbox_init_def mailbox_caches_ok_def lane_defs)

section \<open>Property\<close>


section \<open>Witness\<close>

definition watching_user :: user_code where
  "watching_user = idle_user\<lparr>uc_unhandled := \<lambda>a m s. (None, watch (Some a) (Some 4) s)\<rparr>"

lemma watching_user_acts: "acts_only watching_user"
  using idle_user_observes ca_watch
  by (auto simp: acts_only_def watching_user_def idle_user_def callbacks_observe_def)

definition told_system :: sys where
  "told_system = enqueue_message watching_user 3 (told_message None (sample_user 1) sys_init)
     (sys_init\<lparr>m_next_message_id := m_next_message_id sys_init + 1\<rparr>)"

lemma told_reachable: "reachable pristine (api_step watching_user) told_system"
proof (rule reachable_step [OF reachable_init])
  show "pristine sys_init" by (simp add: pristine_def no_watches_def no_timers_def concrete_state)
  have "self_ref 0 sys_init = Inr None" "\<not> runs_inline (s_actors sys_init 3)" by (simp_all add: self_ref_def concrete_state runs_inline_def)
  from api_tell [OF tell_enqueues [OF this]] show "api_step watching_user sys_init told_system" by (simp add: told_system_def)
qed

lemma told_state:
  fixes m assumes "m = told_message None (sample_user 1) sys_init"
  shows "m_state (s_actors told_system a) = AS_running" "a_kind (s_actors told_system 3) = Pooled" "m_stop_phase (s_actors told_system 3) = SP_none"
    "m_mailbox (s_actors told_system 3) = mailbox_init\<lparr>m_stack := Head m [], m_other_count := 1\<rparr>"
    "m_config told_system = m_config sys_init" "m_handlers (s_actors told_system 3) = (\<lambda>_. None)" "m_watching told_system = (\<lambda>_. [])"
    "m_instance_id (s_actors told_system a) = 0"
proof -
  have "\<not> is_call m" by (simp add: assms is_call_def sample_user_def cas_framework_kind_def)
  note d = told_system_def enqueue_message_def mailbox_push_def count_fetch_add_def link_node_def check_threshold_def threshold_step_def
    update_high_water_marks_def other_size_def call_size_def Let_def concrete_state
  show "m_state (s_actors told_system a) = AS_running" "a_kind (s_actors told_system 3) = Pooled" "m_stop_phase (s_actors told_system 3) = SP_none"
    "m_mailbox (s_actors told_system 3) = mailbox_init\<lparr>m_stack := Head m [], m_other_count := 1\<rparr>"
    "m_config told_system = m_config sys_init" "m_handlers (s_actors told_system 3) = (\<lambda>_. None)" "m_watching told_system = (\<lambda>_. [])"
    "m_instance_id (s_actors told_system a) = 0"
    unfolding told_system_def assms [symmetric] using \<open>\<not> is_call m\<close> by (simp_all add: d)
qed

lemma told_processed:
  "\<exists>s'. process_next_message fw watching_user 5 0 3 told_system = Some (None, s') \<and> m_stop_phase (s_actors s' 3) = SP_none
     \<and> a_kind (s_actors s' 3) = Pooled \<and> m_mailbox (s_actors s' 3) = mailbox_init \<and> m_watching s' 0 = [0]"
proof -
  define m where "m = told_message None (sample_user 1) sys_init"
  have m: "\<not> is_call m" "cas_framework_kind m = FK_user" "\<And>s. destroy_message m s = s"
    by (simp_all add: m_def is_call_def sample_user_def cas_framework_kind_def destroy_message_def)
  have pop: "mailbox_pop (mailbox_init\<lparr>m_stack := Head m [], m_other_count := 1\<rparr>) = (Some m, mailbox_init)"
    using m(1) by (simp add: mailbox_pop_alt pop_prepare_def mailbox_init_def fetch_more_def take_head_def take_node_def dequeue_node_def
        split_stack_eq count_fetch_sub_def Let_def)
  show ?thesis
    by (simp add: process_next_message_def runs_inline_def is_stateful_def told_state [OF m_def] pop run_message_def dispatch_message_def m
        watching_user_def watch_def set_context_def upd_actor_def Let_def split: option.split)
qed

lemma told_turn:
  "\<exists>s'. run_actor fw watching_user (\<lambda>_. 0) 5 0 3 told_system = Some (None, s') \<and> m_watching s' 0 = [0]"
proof -
  obtain s1 where s1: "process_next_message fw watching_user 5 0 3 told_system = Some (None, s1)" "m_stop_phase (s_actors s1 3) = SP_none"
    "a_kind (s_actors s1 3) = Pooled" "m_mailbox (s_actors s1 3) = mailbox_init" "m_watching s1 0 = [0]"
    using told_processed by blast
  have "run_actor_loop fw watching_user (\<lambda>_. 0) 5 0 3 64 1 1 s1 = Some (None, upd_actor 3 (\<lambda>A. A\<lparr>m_mailbox := mailbox_init\<lparr>m_stack := Blocked_tag\<rparr>\<rparr>) s1)"
    by (subst run_actor_loop.simps)
      (simp add: s1 has_messages_def runs_inline_def is_stateful_def mailbox_size_def call_size_def other_size_def mailbox_init_def
        try_block_def Let_def upd_actor_def word_le_nat_alt)
  moreover have "run_actor fw watching_user (\<lambda>_. 0) 5 0 3 told_system = run_actor_loop fw watching_user (\<lambda>_. 0) 5 0 3 64 1 1 s1"
    unfolding run_actor_def
    by (subst run_actor_loop.simps)
      (simp add: told_state [OF refl] message_budget_def sys_init_def s1 has_messages_def runs_inline_def is_stateful_def mailbox_size_def
        call_size_def other_size_def mailbox_init_def)
  ultimately show ?thesis using s1(5) by (simp add: upd_actor_def)
qed


end
