(* ===== verification/Worker_Turn.thy ===== *)
theory Worker_Turn
  imports Worker
begin

text \<open>
  A turn of a worker ends (source/system.cpp: \<open>run_actor\<close>). \<open>executing\<close> is what holds of a pooled actor while its worker runs it; user code is
  asked to keep it, as code that acts through the framework does. Then every call of \<open>run_actor\<close> returns and leaves the actor stopped, idle or at the back of its ready queue.
\<close>

section \<open>An actor being run\<close>

definition executing :: "thread_id \<Rightarrow> nat \<Rightarrow> actor_ptr \<Rightarrow> sys \<Rightarrow> bool" where
  "executing tid w a s \<longleftrightarrow> m_workers_active s \<and> (\<forall>b. \<not> runs_inline (s_actors s b)) \<and> a_kind (s_actors s a) = Pooled
     \<and> has_worker s a \<and> unat (m_assigned_thread_id (s_actors s a)) = w
     \<and> mailbox_inv (m_mailbox (s_actors s a)) \<and> \<not> mailbox_blocked (m_mailbox (s_actors s a)) \<and> \<not> mailbox_closed (m_mailbox (s_actors s a))
     \<and> (m_stop_executor (s_actors s a) = None \<or> m_stop_executor (s_actors s a) = Some tid)
     \<and> m_state (s_actors s a) \<noteq> AS_stopped
     \<and> (m_stop_phase (s_actors s a) = SP_requested \<longrightarrow> m_state (s_actors s a) = AS_stopping)"

definition keeps_executing :: "thread_id \<Rightarrow> nat \<Rightarrow> actor_ptr \<Rightarrow> (sys \<Rightarrow> sys) \<Rightarrow> bool" where
  "keeps_executing tid w a f \<longleftrightarrow> (\<forall>s. executing tid w a s \<longrightarrow> executing tid w a (f s))"

definition user_keeps :: "thread_id \<Rightarrow> nat \<Rightarrow> actor_ptr \<Rightarrow> user_code \<Rightarrow> bool" where
  "user_keeps tid w a user \<longleftrightarrow> callbacks_observe user \<and> hooks_respect user a
     \<and> (\<forall>h m. keeps_executing tid w a (\<lambda>s. snd (uc_handler user h a m s)))
     \<and> (\<forall>m. keeps_executing tid w a (\<lambda>s. snd (uc_unhandled user a m s)))
     \<and> keeps_executing tid w a (\<lambda>s. snd (uc_on_shutdown user a s))
     \<and> (\<forall>m e. keeps_executing tid w a (\<lambda>s. snd (uc_on_handler_exception user a m e s)))
     \<and> (\<forall>h args. keeps_executing tid w a (\<lambda>s. snd (uc_call_handler user h a args s)))"

lemma user_keepsD:
  assumes "user_keeps tid w a user"
  shows "callbacks_observe user" "hooks_respect user a"
    "executing tid w a s \<Longrightarrow> executing tid w a (snd (uc_handler user h a m s))"
    "executing tid w a s \<Longrightarrow> executing tid w a (snd (uc_unhandled user a m s))"
    "executing tid w a s \<Longrightarrow> executing tid w a (snd (uc_on_shutdown user a s))"
    "executing tid w a s \<Longrightarrow> executing tid w a (snd (uc_on_handler_exception user a m e s))"
    "executing tid w a s \<Longrightarrow> executing tid w a (snd (uc_call_handler user i a args s))"
  using assms unfolding user_keeps_def keeps_executing_def by blast+

lemma executing_view: "sched_view s = sched_view t \<Longrightarrow> executing tid w a s \<longleftrightarrow> executing tid w a t"
  using has_worker_view unfolding executing_def sched_view_eq runs_inline_def by auto

lemma executing_mailbox:
  assumes "executing tid w a s" "mailbox_inv mb" "\<not> mailbox_blocked mb" "\<not> mailbox_closed mb"
  shows "executing tid w a (upd_actor a (\<lambda>A. A\<lparr>m_mailbox := mb\<rparr>) s)"
  using assms by (auto simp: executing_def upd_actor_def has_worker_def is_fast_def runs_inline_def)

lemma executing_stopping: "executing tid w a s \<Longrightarrow> executing tid w a (upd_actor a (\<lambda>A. A\<lparr>m_state := AS_stopping\<rparr>) s)"
  by (auto simp: executing_def upd_actor_def has_worker_def is_fast_def runs_inline_def)

lemma executing_hook:
  assumes user: "user_keeps tid w a user" and ex: "executing tid w a s"
  shows "executing tid w a (run_stop_hook user tid a SH_on_shutdown s)"
proof -
  note obs = user_keepsD(1) [OF user]
  have "executing tid w a (set_context tid (Some a) s)" using ex executing_view [OF scheduling.view_set_context] by blast
  then have h: "executing tid w a (snd (uc_on_shutdown user a (set_context tid (Some a) s)))" by (rule user_keepsD(5) [OF user])
  have "sched_view (run_stop_hook user tid a SH_on_shutdown s) = sched_view (snd (uc_on_shutdown user a (set_context tid (Some a) s)))"
    by (simp add: run_stop_hook_def Let_def case_prod_beta scheduling.view_set_context scheduling.view_exception [OF obs] split: option.split)
  with h show ?thesis using executing_view by blast
qed

lemma executing_shutdown:
  assumes user: "user_keeps tid w a user" and ex: "executing tid w a s"
  shows "executing tid w a (dispatch_shutdown user tid a s)"
proof (cases "m_stop_phase (s_actors s a) = SP_none")
  case True
  define s1 where "s1 = upd_actor a (\<lambda>A. A\<lparr>m_stop_phase := SP_system_shutdown\<rparr>) s"
  have "executing tid w a s1" using ex by (auto simp: s1_def executing_def upd_actor_def has_worker_def is_fast_def runs_inline_def)
  then have "executing tid w a (run_stop_hook user tid a SH_on_shutdown s1)" by (rule executing_hook [OF user])
  then have "executing tid w a (cancel_actor_timers a (run_stop_hook user tid a SH_on_shutdown s1))"
    using executing_view [OF scheduling.view_cancel_timers] by blast
  from executing_stopping [OF this] True show ?thesis by (simp add: dispatch_shutdown_def Let_def s1_def [symmetric])
qed (use ex in \<open>simp add: dispatch_shutdown_def\<close>)

lemma executing_stop_self:
  assumes ex: "executing tid w a s"
  shows "\<exists>q s'. stop_actor fw tid now (Some a) cfg s = Some (q, s') \<and> executing tid w a s'"
proof (cases "m_state (s_actors s a) \<noteq> AS_running \<or> m_stop_phase (s_actors s a) \<noteq> SP_none")
  case True
  with ex show ?thesis by (auto simp: stop_actor_def)
next
  case False
  define s1 where "s1 = upd_actor a (request_stop cfg now) s"
  have ex1: "executing tid w a s1"
    using ex by (auto simp: s1_def executing_def upd_actor_def request_stop_def has_worker_def is_fast_def runs_inline_def)
  then have "try_unblock (m_mailbox (s_actors s1 a)) = (False, m_mailbox (s_actors s1 a))" "m_workers_active s1" "\<not> is_fast (s_actors s1 a)"
    by (auto simp: executing_def try_unblock_def mailbox_blocked_def is_fast_def)
  moreover have "upd_actor a (\<lambda>A. A\<lparr>m_mailbox := m_mailbox (s_actors s1 a)\<rparr>) s1 = s1" by (simp add: upd_actor_def)
  ultimately have "\<exists>q s'. stop_actor fw tid now (Some a) cfg s = Some (q, s') \<and> (s' = s1 \<or> s' = stop_actor_end tid a s1)"
    using False by (auto simp: stop_actor_def Let_def s1_def [symmetric])
  with ex1 executing_view [OF stop_end_view] show ?thesis by metis
qed

section \<open>A message\<close>

lemma executing_exception:
  assumes user: "user_keeps tid w a user" and ex: "executing tid w a s"
  shows "\<exists>s'. handle_handler_exception fw user tid now a msg e s = Some s' \<and> executing tid w a s'"
proof -
  note obs = user_keepsD(1) [OF user]
  obtain r s1 where r: "uc_on_handler_exception user a msg e s = (r, s1)" by fastforce
  define act where "act = (case r of Inr act \<Rightarrow> act | Inl _ \<Rightarrow> EA_stop)"
  define s2 where "s2 = report_actor_exception user a (message_type_of msg) (message_id msg) ''handler'' e act s1"
  have "executing tid w a s1" using user_keepsD(6) [OF user ex, of msg e] r by simp
  then have ex2: "executing tid w a s2" unfolding s2_def using executing_view [OF scheduling.view_exception [OF obs]] by blast
  have "handle_handler_exception fw user tid now a msg e s
      = (if act = EA_stop \<and> s_alive s2 a then map_option snd (stop_actor fw tid now (Some a) exception_stop_config s2) else Some s2)"
    unfolding handle_handler_exception_def r Let_def act_def s2_def by simp
  with ex2 executing_stop_self [OF ex2, of fw now exception_stop_config] show ?thesis by auto
qed

lemma executing_call_process:
  assumes user: "user_keeps tid w a user" and ex: "executing tid w a s"
  shows "executing tid w a (call_process user a cp s)"
proof -
  have "sched_view (call_process user a cp s) = sched_view s
      \<or> (\<exists>h. sched_view (call_process user a cp s) = sched_view (snd (uc_call_handler user h a (call_args cp) s)))"
    by (auto simp: call_process_def settle_view split: option.split sum.split prod.split) (metis snd_conv)+
  with ex user_keepsD(7) [OF user ex] executing_view show ?thesis by metis
qed

lemma dispatch_returns:
  assumes user: "user_keeps tid w a user" and ex: "executing tid w a s"
  shows "\<exists>s'. dispatch_message fw user tid now a msg s = Some (None, s') \<and> executing tid w a s'"
proof (cases "cas_framework_kind msg")
  case FK_shutdown
  with executing_shutdown [OF user ex] show ?thesis by (simp add: dispatch_message_def)
next
  case FK_call_request
  then obtain cp where "body msg = Call_request cp" by (auto simp: cas_framework_kind_def split: message_body.splits)
  with FK_call_request executing_call_process [OF user ex] show ?thesis by (simp add: dispatch_message_def)
next
  case FK_user
  define out where "out = (case m_handlers (s_actors s a) (message_type_of msg) of
      Some h \<Rightarrow> uc_handler user h a msg s | None \<Rightarrow> uc_unhandled user a msg s)"
  have ex1: "executing tid w a (snd out)"
    using user_keepsD(3) [OF user ex] user_keepsD(4) [OF user ex] by (simp add: out_def split: option.split)
  then have "\<not> runs_inline (s_actors (snd out) a)" by (simp add: executing_def)
  with FK_user ex1 executing_exception [OF user ex1, of fw now msg] show ?thesis
    by (cases out; cases "fst out") (auto simp: dispatch_message_def out_def [symmetric])
qed

lemma process_next_returns:
  assumes user: "user_keeps tid w a user" and ex: "executing tid w a s"
  shows "\<exists>s'. process_next_message fw user tid now a s = Some (None, s') \<and> executing tid w a s'"
proof -
  obtain om mb where pop: "mailbox_pop (m_mailbox (s_actors s a)) = (om, mb)" by fastforce
  define s1 where "s1 = upd_actor a (\<lambda>A. A\<lparr>m_mailbox := mb\<rparr>) s"
  have "mailbox_inv mb" "\<not> mailbox_blocked mb" "\<not> mailbox_closed mb"
    using ex mailbox_pop_inv [of "m_mailbox (s_actors s a)"] pop_stack [of "m_mailbox (s_actors s a)"] pop
    by (auto simp: executing_def mailbox_blocked_def mailbox_closed_def)
  with ex have ex1: "executing tid w a s1" unfolding s1_def by (rule executing_mailbox)
  have plain: "\<not> runs_inline (s_actors s a)" "\<not> is_stateful (s_actors s a)" using ex by (auto simp: executing_def is_stateful_def)
  show ?thesis
  proof (cases om)
    case None
    with ex1 pop plain show ?thesis by (simp add: process_next_message_def s1_def Let_def)
  next
    case (Some msg)
    have "executing tid w a (set_context tid (Some a) s1)" using ex1 executing_view [OF scheduling.view_set_context] by blast
    from dispatch_returns [OF user this, of fw now msg] obtain s2 where
      s2: "dispatch_message fw user tid now a msg (set_context tid (Some a) s1) = Some (None, s2)" "executing tid w a s2" by blast
    define s3 where "s3 = destroy_message msg (set_context tid (current_actor_context s1 tid) s2)"
    have "executing tid w a s3"
      using s2(2) executing_view [of s3 s2] by (simp add: s3_def scheduling.view_destroy scheduling.view_set_context)
    with s2(1) Some pop plain show ?thesis
      by (simp add: process_next_message_def s1_def [symmetric] run_message_def Let_def s3_def)
  qed
qed

section \<open>A stop\<close>

lemma executing_claim:
  assumes "executing tid w a s"
  shows "executing tid w a (cancel_actor_timers a (upd_actor a (\<lambda>A. A\<lparr>m_stop_executor := Some tid\<rparr>) s))"
proof -
  have "executing tid w a (upd_actor a (\<lambda>A. A\<lparr>m_stop_executor := Some tid\<rparr>) s)"
    using assms by (auto simp: executing_def upd_actor_def has_worker_def is_fast_def runs_inline_def)
  then show ?thesis using executing_view [OF scheduling.view_cancel_timers] by blast
qed

lemma executing_service:
  assumes user: "user_keeps tid w a user" and ex: "executing tid w a s" and req: "m_stop_phase (s_actors s a) = SP_requested"
    and fw: "fw = framework_of user clk (Suc depth)"
  shows "\<exists>d s'. service_stop_request fw user tid now a s = Some (d, s')
    \<and> (if d then m_state (s_actors s' a) = AS_stopped \<and> mailbox_closed (m_mailbox (s_actors s' a))
       else executing tid w a s' \<and> has_messages (s_actors s' a))"
proof (cases "m_stop_discard (s_actors s a) \<or> \<not> has_messages (s_actors s a) \<or> m_stop_drain_deadline (s_actors s a) \<le> now")
  case True
  note obs = user_keepsD(1) [OF user]
  have e: "m_state (s_actors s a) = AS_stopping" "mailbox_inv (mailboxes s a)" "m_stop_executor (s_actors s a) \<in> {None, Some tid}"
    "\<not> runs_inline (s_actors s b)" "a_kind (s_actors s a) = Pooled" for b
    using ex req by (auto simp: executing_def mailboxes_def)
  obtain s2 where s2: "service_stop fw user tid now a s = map_option (\<lambda>s3. (True, s3)) (finish_stop fw user tid a s2)"
    "m_state (s_actors s2 a) = AS_stopping" "mailbox_inv (mailboxes s2 a)" "\<And>b. a_kind (s_actors s2 b) = a_kind (s_actors s b)"
    using service_stop_claimed [OF obs e(1-3) True] by blast
  have "m_state (s_actors s2 a) \<noteq> AS_running" "\<not> runs_inline (s_actors s2 b)" for b
    using s2(2) e(4) [of b] runs_inline_cong [OF s2(4), of b] by simp_all
  from finish_stop_returns [OF obs user_keepsD(2) [OF user] fw this s2(3), of tid] obtain s' where
    s': "finish_stop fw user tid a s2 = Some s'" "m_state (s_actors s' a) = AS_stopped" "mailbox_closed (mailboxes s' a)" by blast
  have dh: "m_state (s_actors (drop_held user a s') a) = AS_stopped" "mailboxes (drop_held user a s') = mailboxes s'"
    using drop_held_frame [OF obs, where s = s' and a = a] s'(2) by (simp_all add: frame_def)
  define t where "t = (if is_stateful (s_actors s' a) then drop_held user a s' else s')"
  have "service_stop_request fw user tid now a s = Some (True, t)" using s2(1) s'(1,2) by (simp add: service_stop_request_def t_def)
  moreover have "m_state (s_actors t a) = AS_stopped" "mailbox_closed (m_mailbox (s_actors t a))"
    using s'(2,3) dh by (auto simp: t_def mailboxes_def fun_eq_iff)
  ultimately show ?thesis by (intro exI [of _ True] exI [of _ t]) simp
next
  case False
  define s1 where "s1 = (if m_stop_executor (s_actors s a) = Some tid then s
     else cancel_actor_timers a (upd_actor a (\<lambda>A. A\<lparr>m_stop_executor := Some tid\<rparr>) s))"
  note k = claim_keeps [of a tid s]
  have st: "m_state (s_actors s a) = AS_stopping" "m_stop_executor (s_actors s a) = None \<or> m_stop_executor (s_actors s a) = Some tid"
    using ex req by (auto simp: executing_def)
  have "service_stop fw user tid now a s = Some (False, s1)"
    using False st k(1,4-6) by (auto simp: service_stop_def s1_def Let_def)
  then have "service_stop_request fw user tid now a s = Some (False, s1)" by (simp add: service_stop_request_def)
  moreover have "executing tid w a s1 \<and> has_messages (s_actors s1 a)"
    using ex executing_claim [OF ex] False k(6) by (simp add: s1_def)
  ultimately show ?thesis by (intro exI [of _ False] exI [of _ s1]) simp
qed

section \<open>A turn\<close>

definition turn_outcome :: "nat \<Rightarrow> actor_ptr \<Rightarrow> sys \<Rightarrow> bool" where
  "turn_outcome w a s \<longleftrightarrow>
     m_state (s_actors s a) = AS_stopped \<and> mailbox_closed (m_mailbox (s_actors s a))
   \<or> mailbox_blocked (m_mailbox (s_actors s a)) \<and> queued (m_mailbox (s_actors s a)) = [] \<and> m_stop_phase (s_actors s a) \<noteq> SP_requested
   \<or> w < length (m_workers s) \<and> (\<exists>q. ready_contents (m_workers s ! w) = q @ [a]) \<and> \<not> mailbox_blocked (m_mailbox (s_actors s a))"

lemma mailbox_size_empty:
  assumes "mailbox_inv mb" "mailbox_size mb = 0"
  shows "queued mb = []"
proof -
  have "(of_nat (length (queued mb)) :: size_t) = 0" "length (queued mb) < 2 ^ 64"
    using assms by (auto simp: mailbox_inv_def mailbox_size_def call_size_def other_size_def queued_def)
  then have "length (queued mb) = 0" using unat_of_nat_64 by (metis unat_0)
  then show ?thesis by simp
qed

lemma executing_idle:
  assumes ex: "executing tid w a s" and none: "\<not> has_messages (s_actors s a)"
  shows "try_block (m_mailbox (s_actors s a)) = (True, (m_mailbox (s_actors s a))\<lparr>m_stack := Blocked_tag\<rparr>)"
    "queued ((m_mailbox (s_actors s a))\<lparr>m_stack := Blocked_tag\<rparr>) = []"
proof -
  let ?mb = "m_mailbox (s_actors s a)"
  have mb: "mailbox_inv ?mb" "\<not> mailbox_blocked ?mb" "\<not> mailbox_closed ?mb" using ex by (simp_all add: executing_def)
  have "mailbox_size ?mb = 0" using ex none by (auto simp: executing_def has_messages_def is_stateful_def word_gt_0)
  then have "queued ?mb = []" by (rule mailbox_size_empty [OF mb(1)])
  then have "m_calls ?mb = []" "m_others ?mb = []" "chain (m_stack ?mb) = []"
    by (cases "m_stack ?mb"; auto simp: lane_defs split: if_splits)+
  then show "try_block ?mb = (True, ?mb\<lparr>m_stack := Blocked_tag\<rparr>)" "queued (?mb\<lparr>m_stack := Blocked_tag\<rparr>) = []"
    using mb(2,3) by (auto simp: try_block_def mailbox_blocked_def mailbox_closed_def chain_eq_Nil_iff is_tag_def lane_defs)
qed

lemma executing_requeue:
  assumes "executing tid w a s"
  shows "turn_outcome w a (s\<lparr>m_workers := (m_workers s)[w := ready_push a (m_workers s ! w)]\<rparr>)"
  using assms by (auto simp: turn_outcome_def executing_def has_worker_def)

lemma executing_head:
  assumes user: "user_keeps tid w a user" and fw: "fw = framework_of user clk (Suc depth)" and ex: "executing tid w a s"
  shows "\<exists>d s1. (if m_stop_phase (s_actors s a) = SP_requested then service_stop_request fw user tid now a s else Some (False, s)) = Some (d, s1)
      \<and> (if d then turn_outcome w a s1
         else executing tid w a s1 \<and> (\<not> has_messages (s_actors s1 a) \<longrightarrow> m_stop_phase (s_actors s1 a) \<noteq> SP_requested))"
proof (cases "m_stop_phase (s_actors s a) = SP_requested")
  case True
  from executing_service [OF user ex True fw, of now] obtain d s' where "service_stop_request fw user tid now a s = Some (d, s')"
    "if d then m_state (s_actors s' a) = AS_stopped \<and> mailbox_closed (m_mailbox (s_actors s' a))
       else executing tid w a s' \<and> has_messages (s_actors s' a)" by blast
  with True show ?thesis by (intro exI [of _ d] exI [of _ s']) (auto simp: turn_outcome_def split: if_splits)
qed (use ex in auto)

lemma loop_body_ends:
  assumes user: "user_keeps tid w a user" and fw: "fw = framework_of user clk (Suc depth)" and ex: "executing tid w a s"
    and rest: "\<And>s. executing tid w a s \<Longrightarrow> \<not> budget \<le> handled \<Longrightarrow> \<exists>s'. rest (handled + 1) s = Some (None, s') \<and> turn_outcome w a s'"
  shows "\<exists>s'. loop_body rest fw user now tid w a budget handled s = Some (None, s') \<and> turn_outcome w a s'"
proof -
  obtain d s1 where h: "(if m_stop_phase (s_actors s a) = SP_requested then service_stop_request fw user tid now a s else Some (False, s)) = Some (d, s1)"
    and d: "if d then turn_outcome w a s1 else executing tid w a s1 \<and> (\<not> has_messages (s_actors s1 a) \<longrightarrow> m_stop_phase (s_actors s1 a) \<noteq> SP_requested)"
    using executing_head [OF user fw ex] by blast
  consider (stopped) d | (over) "\<not> d" "budget \<le> handled" | (more) "\<not> d" "\<not> budget \<le> handled" "has_messages (s_actors s1 a)"
    | (idle) "\<not> d" "\<not> budget \<le> handled" "\<not> has_messages (s_actors s1 a)" by blast
  then show ?thesis
  proof cases
    case stopped
    with d show ?thesis unfolding loop_body_def h by simp
  next
    case over
    with d executing_requeue [of tid w a s1] show ?thesis unfolding loop_body_def h by simp
  next
    case more
    with d process_next_returns [OF user, of s1 fw now] obtain s2 where
      "process_next_message fw user tid now a s1 = Some (None, s2)" "executing tid w a s2" by auto
    with more rest show ?thesis unfolding loop_body_def h by simp
  next
    case idle
    with d have ex1: "executing tid w a s1" and ph: "m_stop_phase (s_actors s1 a) \<noteq> SP_requested" by simp_all
    note b = executing_idle [OF ex1 idle(3)]
    define s2 where "s2 = upd_actor a (\<lambda>A. A\<lparr>m_mailbox := (m_mailbox (s_actors s1 a))\<lparr>m_stack := Blocked_tag\<rparr>\<rparr>) s1"
    have "turn_outcome w a s2" using b(2) ph by (simp add: turn_outcome_def s2_def upd_actor_def mailbox_blocked_def)
    moreover have "loop_body rest fw user now tid w a budget handled s = Some (None, s2)"
      unfolding loop_body_def h using idle b(1) ph by (simp add: s2_def upd_actor_def Let_def)
    ultimately show ?thesis by blast
  qed
qed

lemma turn_ends:
  assumes user: "user_keeps tid w a user" and fw: "fw = framework_of user clk (Suc depth)"
    and "executing tid w a s" "k + j = unat budget"
  shows "\<exists>s'. run_actor_loop fw user clk tid w a budget (of_nat k) n s = Some (None, s') \<and> turn_outcome w a s'"
  using assms(3,4)
proof (induction j arbitrary: k n s)
  case 0
  then have "budget \<le> of_nat k" by simp
  then show ?case by (subst run_actor_loop_body, intro loop_body_ends [OF user fw 0(1)]) simp
next
  case (Suc j)
  from Suc.prems(2) Suc.IH [of _ "Suc k" "Suc n"] show ?case
    by (subst run_actor_loop_body, intro loop_body_ends [OF user fw Suc.prems(1)]) (simp add: add.commute)
qed

section \<open>Property\<close>

text \<open>
  Property C5. A turn ends. If user code keeps the actor it runs in executing and the hooks of a stopping actor leave alone what is private to the
  framework, \<open>run_actor\<close> on a pooled actor returns, without an exception, whatever is queued, whatever arrives meanwhile, and whether or not a
  stop is requested before or during the turn. At the end the actor is stopped with a closed mailbox, or idle with an empty mailbox marked so that the next push schedules it and no
  stop requested, or it is the last entry of its worker's ready queue.
\<close>

theorem run_actor_returns:
  assumes "user_keeps tid w a user" "executing tid w a s"
  shows "\<exists>s'. run_actor (framework_of user clk (Suc depth)) user clk tid w a s = Some (None, s') \<and> turn_outcome w a s'"
proof -
  have "m_state (s_actors s a) \<noteq> AS_stopped" using assms(2) by (simp add: executing_def)
  with turn_ends [OF assms(1) refl assms(2), of 0 "unat (message_budget s)" "message_budget s" clk depth 0] show ?thesis
    by (simp add: run_actor_def)
qed

section \<open>Witness\<close>

theorem run_actor_returns_witness:
  "\<exists>s'. run_actor (framework_of idle_user (\<lambda>_. 0) 1) idle_user (\<lambda>_. 0) 5 0 3 pool_state = Some (None, s') \<and> turn_outcome 0 3 s'"
proof -
  have "user_keeps 5 0 3 idle_user"
    using idle_user_observes by (simp add: user_keeps_def keeps_executing_def hooks_respect_def idle_user_def)
  moreover have "executing 5 0 3 pool_state"
    by (auto simp: executing_def pool_state_def concrete_state runs_inline_def has_worker_def is_fast_def mailbox_inv_def mailbox_caches_ok_def
        lane_defs mailbox_blocked_def mailbox_closed_def sample_user_def is_call_def cas_framework_kind_def)
  ultimately show ?thesis using run_actor_returns [of 5 0 3 idle_user pool_state "\<lambda>_. 0" 0] by simp
qed

end
