(* ===== verification/Worker_Fairness.thy ===== *)
theory Worker_Fairness
  imports Scheduler
begin

text \<open>
  No actor starves. \<open>max_messages_per_turn\<close> exists so that an actor that is sent messages without end does not keep its
  worker from the others. Shown here for the scheduler of theory \<open>Scheduler\<close>, under every interleaving with clients that may send as much as
  they like: the number of moves a worker can make before it serves an actor on its ready queue is bounded by the actors ahead of it and
  the budget.

  The proof is a rank that every move of that worker lowers and no other step raises.
\<close>

section \<open>Waiting\<close>

definition queued_at :: "sched \<Rightarrow> actor_ptr \<Rightarrow> message list" where
  "queued_at s a = queued (sa_mailbox (sc_actor s a))"

text \<open>The worker serves an actor when it handles one of its messages or carries out its stop.\<close>

fun serves :: "actor_ptr \<Rightarrow> worker_pc \<Rightarrow> bool" where
  "serves a (W_handle b n) \<longleftrightarrow> b = a"
| "serves a (W_stop b n) \<longleftrightarrow> b = a"
| "serves a _ \<longleftrightarrow> False"

text \<open>
  A run of the system, before shutdown, in which worker \<open>w\<close> does not serve \<open>a\<close>; the number counts the moves of the worker, from one place of its
  code to another. (A worker that discards the messages of an actor being stopped makes no move meanwhile.)
\<close>

definition calm :: "nat \<Rightarrow> actor_ptr \<Rightarrow> sched \<Rightarrow> bool" where
  "calm w a s \<longleftrightarrow> \<not> serves a (sc_worker s w) \<and> \<not> sc_shutdown s \<and> (\<forall>b. length (queued_at s b) < 2 ^ 64)"

inductive unserved :: "bool \<Rightarrow> nat \<Rightarrow> nat \<Rightarrow> nat \<Rightarrow> actor_ptr \<Rightarrow> sched \<Rightarrow> nat \<Rightarrow> sched \<Rightarrow> bool" for early nw budget w a where
  un_start: "calm w a s \<Longrightarrow> unserved early nw budget w a s 0 s"
| un_step: "unserved early nw budget w a s k t \<Longrightarrow> sched_step early nw budget t u \<Longrightarrow> calm w a u \<Longrightarrow>
    unserved early nw budget w a s (if sc_worker u w = sc_worker t w then k else Suc k) u"

section \<open>Invariants\<close>

definition fair_inv :: "sched \<Rightarrow> bool" where
  "fair_inv s \<longleftrightarrow> token_inv s \<and> place_inv s \<and> mailbox_states_inv s \<and> (\<forall>b. mailbox_wf (sa_mailbox (sc_actor s b)))
     \<and> (\<forall>w b n. sc_worker s w = W_unblock b n \<longrightarrow> sa_phase (sc_actor s b) = SP_requested)"

lemma client_wf: "\<forall>b. mailbox_wf (sa_mailbox (sc_actor s b)) \<Longrightarrow> client_step early nw s t \<Longrightarrow> mailbox_wf (sa_mailbox (sc_actor t b))"
  by (erule client_step.cases) (auto simp: sched_upd dest: sndI mailbox_push_wf try_block_wf)

lemma worker_wf: "\<forall>b. mailbox_wf (sa_mailbox (sc_actor s b)) \<Longrightarrow> worker_step budget s t \<Longrightarrow> mailbox_wf (sa_mailbox (sc_actor t b))"
  by (erule worker_step.cases) (auto simp: sched_upd mailbox_close_wf mailbox_pop_wf dest: sndI try_block_wf)

lemma phase_stays: "sched_step early nw budget s t \<Longrightarrow> sa_phase (sc_actor s b) = SP_requested \<Longrightarrow> sa_phase (sc_actor t b) = SP_requested"
  unfolding sched_step_def by (elim disjE client_step.cases worker_step.cases) (auto simp: sched_upd)

lemma unblock_phase:
  assumes "\<forall>w b n. sc_worker s w = W_unblock b n \<longrightarrow> sa_phase (sc_actor s b) = SP_requested"
    "sched_step early nw budget s t" "sc_worker t w = W_unblock b n"
  shows "sa_phase (sc_actor t b) = SP_requested"
proof (cases "sc_worker s w = W_unblock b n")
  case True
  with assms(1) phase_stays [OF assms(2)] show ?thesis by blast
next
  case False
  with assms(2,3) show ?thesis
    unfolding sched_step_def by (elim disjE client_step.cases worker_step.cases) (auto simp: sched_upd split: if_splits)
qed

interpretation fairness: inductive_invariant "sched_init nw" "sched_step early nw budget" fair_inv
  for early nw budget
proof unfold_locales
  fix s t
  show "fair_inv s" if "sched_init nw s"
    using scheduler.inv_init [OF that, of early] that
    by (auto simp: fair_inv_def sched_inv_def sched_init_def mailbox_wf_def mailbox_init_def mailbox_caches_ok_def lane_defs)
  show "fair_inv t" if "fair_inv s" and st: "sched_step early nw budget s t"
  proof -
    note I = \<open>fair_inv s\<close> [unfolded fair_inv_def]
    have "token_inv t \<and> place_inv t \<and> mailbox_states_inv t"
      using I st client_token client_place client_mailboxes worker_token worker_place worker_mailboxes
      unfolding sched_step_def by (metis (full_types))
    moreover have "mailbox_wf (sa_mailbox (sc_actor t b))" for b
      using I st client_wf worker_wf unfolding sched_step_def by blast
    moreover have "sc_worker t w = W_unblock b n \<Longrightarrow> sa_phase (sc_actor t b) = SP_requested" for w b n
      using unblock_phase [OF _ st] I by blast
    ultimately show ?thesis by (simp add: fair_inv_def)
  qed
qed

lemma size_queued:
  assumes "mailbox_wf mb"
  shows "0 < mailbox_size mb \<Longrightarrow> queued mb \<noteq> []" "mailbox_size mb = 0 \<Longrightarrow> length (queued mb) < 2 ^ 64 \<Longrightarrow> queued mb = []"
proof -
  have size: "mailbox_size mb = of_nat (length (queued mb))"
    using assms by (simp add: mailbox_wf_def mailbox_size_def call_size_def other_size_def queued_def)
  then show "0 < mailbox_size mb \<Longrightarrow> queued mb \<noteq> []" by (auto simp: size)
  assume "mailbox_size mb = 0" "length (queued mb) < 2 ^ 64"
  then have "unat (of_nat (length (queued mb)) :: size_t) = 0" "length (queued mb) < 2 ^ 64" using size by simp_all
  then show "queued mb = []" by (simp add: unat_of_nat_64)
qed

lemma block_fails:
  assumes "try_block mb = (False, mb')" "m_stack mb \<noteq> Blocked_tag" "m_stack mb \<noteq> Closed_tag" "mailbox_caches_ok mb"
  shows "queued mb' \<noteq> []"
  using assms by (cases "m_stack mb") (auto simp: try_block_def lane_defs mailbox_caches_ok_def split: if_splits)

section \<open>What the others leave alone\<close>

lemma appended:
  assumes "sched_step early nw budget s t" "sc_worker t w = sc_worker s w"
  shows "\<exists>ys. ready_contents (sc_ready t w) = ready_contents (sc_ready s w) @ ys"
  using assms unfolding sched_step_def
  by (elim disjE client_step.cases worker_step.cases) (auto simp: sched_upd split: if_splits)

text \<open>Only the worker of an actor takes messages from its mailbox, in a turn or to discard them.\<close>

lemma mailbox_kept:
  assumes inv: "fair_inv s" and step: "sched_step early nw budget s t"
    and b: "sa_worker (sc_actor s b) = w" "\<forall>n. sc_worker s w \<noteq> W_stop b n" "queued_at s b \<noteq> []"
    and same: "sc_worker t w = sc_worker s w \<or> (\<forall>n. sc_worker s w \<noteq> W_turn b n)"
  shows "queued_at t b \<noteq> []"
proof -
  have place: "place_inv s" using inv by (simp add: fair_inv_def)
  then have own: "holder (sc_worker s v) = Some x \<Longrightarrow> v = sa_worker (sc_actor s x)" for v x unfolding place_inv_def by blast
  show ?thesis
    using step unfolding sched_step_def
  proof
    assume "client_step early nw s t"
    then show ?thesis
    proof cases
      case (cs_push m a r mb)
      have "queued mb \<noteq> []" if "queued (sa_mailbox (sc_actor s a)) \<noteq> []"
        using that mailbox_push_lanes [of "sa_mailbox (sc_actor s a)" m] mailbox_push_closed [of "sa_mailbox (sc_actor s a)" m] cs_push(2)
        by (cases "mailbox_closed (sa_mailbox (sc_actor s a))") (auto simp: queued_def)
      with cs_push b(3) show ?thesis by (auto simp: queued_at_def sched_upd)
    next
      case (cs_unblock a ok mb)
      with b(3) try_unblock_lanes [of "sa_mailbox (sc_actor s a)"] show ?thesis by (auto simp: queued_at_def queued_def sched_upd)
    next
      case (cs_activate a ok mb s1)
      with b(3) try_block_lanes [of "sa_mailbox (sc_actor s a)"] show ?thesis by (auto simp: queued_at_def queued_def sched_upd)
    qed (use b(3) in \<open>auto simp: queued_at_def sched_upd\<close>)
  next
    assume "worker_step budget s t"
    then show ?thesis
    proof cases
      case (ws_stopped v a n)
      with b same own [of v a] show ?thesis by (cases "v = w") (auto simp: queued_at_def sched_upd)
    next
      case (ws_message v a n)
      with b same own [of v a] show ?thesis by (cases "v = w") (auto simp: queued_at_def sched_upd)
    next
      case (ws_discard v a n)
      with b same own [of v a] show ?thesis by (cases "v = w") (auto simp: queued_at_def sched_upd)
    next
      case (ws_block v a n ok mb)
      with b(3) try_block_lanes [of "sa_mailbox (sc_actor s a)"] show ?thesis by (auto simp: queued_at_def queued_def sched_upd)
    next
      case (ws_unblock v a n ok mb)
      with b(3) try_unblock_lanes [of "sa_mailbox (sc_actor s a)"] show ?thesis by (auto simp: queued_at_def queued_def sched_upd)
    qed (use b(3) in \<open>auto simp: queued_at_def sched_upd\<close>)
  qed
qed

section \<open>The rank of a worker within a turn\<close>

text \<open>
  Twelve moves at most per message of the budget. A worker that found its actor idle returns to \<open>run_actor\<close>'s loop only for a message or
  a stop request that came meanwhile, which is why \<open>W_run\<close> and \<open>W_turn\<close> rank lower when there is one.
\<close>

fun pc_rank :: "nat \<Rightarrow> sched \<Rightarrow> worker_pc \<Rightarrow> nat" where
  "pc_rank B s (W_enter b) = 12 * B + 16"
| "pc_rank B s (W_handle b n) = 12 * (B - n) + 15"
| "pc_rank B s (W_run b n) = 12 * (B - n) + (if sa_phase (sc_actor s b) = SP_requested \<or> queued_at s b \<noteq> [] then 9 else 14)"
| "pc_rank B s (W_turn b n) = 12 * (B - n) + (if queued_at s b \<noteq> [] then 7 else 13)"
| "pc_rank B s (W_block b n) = 12 * (B - n) + 12"
| "pc_rank B s (W_recheck b n) = 12 * (B - n) + 11"
| "pc_rank B s (W_unblock b n) = 12 * (B - n) + 10"
| "pc_rank B s (W_stop b n) = 12 * (B - n) + 8"
| "pc_rank B s W_spin = 4"
| "pc_rank B s W_park = 3"
| "pc_rank B s W_wait = 3"
| "pc_rank B s W_check = 2"
| "pc_rank B s W_unpark = 1"
| "pc_rank B s (W_loop worked) = 0"
| "pc_rank B s W_exit = 0"

lemma pc_rank_bound: "pc_rank B s pc \<le> 12 * B + 16"
  by (cases pc) auto

lemma no_move_rank:
  assumes "fair_inv s" "sched_step early nw budget s t" "sc_worker t w = sc_worker s w"
  shows "pc_rank B t (sc_worker t w) \<le> pc_rank B s (sc_worker s w)"
proof -
  have own: "sa_worker (sc_actor s b) = w" if "holder (sc_worker s w) = Some b" for b
    using assms(1) that unfolding fair_inv_def place_inv_def by blast
  note keep = mailbox_kept [OF assms(1,2) _ _ _ disjI1 [OF assms(3)]] and ph = phase_stays [OF assms(2)]
  show ?thesis unfolding assms(3)
    by (cases "sc_worker s w") (use own keep ph in auto)
qed

lemma move_rank:
  assumes inv: "fair_inv s" and step: "sched_step early nw budget s t" and moved: "sc_worker t w \<noteq> sc_worker s w"
    and budget: "0 < budget" and ok: "\<not> sc_shutdown s" "\<And>b. length (queued_at s b) < 2 ^ 64" and work: "ready_contents (sc_ready s w) \<noteq> []"
  shows "(\<exists>b. pc_rank budget s (sc_worker s w) = 0 \<and> sc_worker t w = W_enter b \<and> ready_contents (sc_ready s w) = b # ready_contents (sc_ready t w))
    \<or> pc_rank budget t (sc_worker t w) < pc_rank budget s (sc_worker s w) \<and> (\<exists>ys. ready_contents (sc_ready t w) = ready_contents (sc_ready s w) @ ys)"
  using step unfolding sched_step_def
proof
  assume "client_step early nw s t"
  then show ?thesis using moved by cases (auto simp: sched_upd split: if_splits)
next
  have wf: "mailbox_wf (sa_mailbox (sc_actor s b))" for b using inv by (simp add: fair_inv_def)
  have hw: "has_work w s" using work by (simp add: has_work_def ready_maybe_nonempty_iff)
  assume "worker_step budget s t"
  then show ?thesis
  proof cases
    case (ws_pop v worked a q)
    with moved ready_pop_SomeD [OF ws_pop(4)] show ?thesis by (auto simp: sched_upd split: if_splits)
  next
    case (ws_none v worked q)
    with moved work ready_pop_NoneD [OF ws_none(4)] show ?thesis by (auto simp: sched_upd split: if_splits)
  next
    case (ws_check v)
    with moved hw show ?thesis by (auto simp: sched_upd split: if_splits)
  next
    case (ws_drain v a n)
    with moved size_queued(1) [OF wf] show ?thesis by (auto simp: sched_upd queued_at_def split: if_splits)
  next
    case (ws_message v a n)
    then have "n < budget" using budget by (simp add: turn_over_def)
    with ws_message moved size_queued(1) [OF wf] show ?thesis by (auto simp: sched_upd queued_at_def split: if_splits)
  next
    case (ws_idle v a n)
    with moved size_queued(2) [OF wf] ok(2) [of a] show ?thesis by (auto simp: sched_upd queued_at_def split: if_splits)
  next
    case (ws_block v a n ok mb)
    then have "busy (sc_actor s a)" using held_busy(2) [of s v a] inv by (simp add: fair_inv_def)
    then have "\<not> ok \<Longrightarrow> queued mb \<noteq> []"
      using block_fails [of "sa_mailbox (sc_actor s a)" mb] ws_block(3) wf [of a] by (simp add: busy_def mailbox_wf_def)
    with ws_block moved show ?thesis by (auto simp: sched_upd queued_at_def split: if_splits)
  next
    case (ws_unblock v a n ok mb)
    with moved inv show ?thesis by (auto simp: fair_inv_def sched_upd split: if_splits)
  qed (use moved ok(1) in \<open>auto simp: sched_upd queued_at_def split: if_splits\<close>)
qed

section \<open>The rank of a waiting actor\<close>

definition ahead :: "nat \<Rightarrow> actor_ptr \<Rightarrow> sched \<Rightarrow> nat" where
  "ahead w a s = length (takeWhile (\<lambda>b. b \<noteq> a) (ready_contents (sc_ready s w)))"

definition turn_moves :: "nat \<Rightarrow> nat" where
  "turn_moves budget = 12 * budget + 20"

definition wait_rank :: "nat \<Rightarrow> nat \<Rightarrow> actor_ptr \<Rightarrow> sched \<Rightarrow> nat" where
  "wait_rank budget w a s =
     (if a \<in> set (ready_contents (sc_ready s w)) then ahead w a s * turn_moves budget + pc_rank budget s (sc_worker s w) + 3
      else (case sc_worker s w of W_enter _ \<Rightarrow> 2 | W_run _ _ \<Rightarrow> 1 | _ \<Rightarrow> 0))"

definition waits :: "nat \<Rightarrow> actor_ptr \<Rightarrow> sched \<Rightarrow> bool" where
  "waits w a s \<longleftrightarrow> fair_inv s \<and> queued_at s a \<noteq> []
     \<and> (a \<in> set (ready_contents (sc_ready s w)) \<or> sc_worker s w \<in> {W_enter a, W_run a 0, W_turn a 0})"

lemma takeWhile_member: "a \<in> set xs \<Longrightarrow> takeWhile (\<lambda>b. b \<noteq> a) (xs @ ys) = takeWhile (\<lambda>b. b \<noteq> a) xs"
  by (induction xs) auto

lemma waits_owner:
  assumes "waits w a s"
  shows "sa_worker (sc_actor s a) = w"
proof -
  have "a \<in> set (ready_contents (sc_ready s w)) \<or> holder (sc_worker s w) = Some a" using assms by (auto simp: waits_def)
  then show ?thesis using assms unfolding waits_def fair_inv_def place_inv_def by blast
qed

lemma ready_not_held:
  assumes "fair_inv s" "a \<in> set (ready_contents (sc_ready s w))"
  shows "holder (sc_worker s w) \<noteq> Some a"
  using assms held_busy(3) [of s w a] by (auto simp: fair_inv_def)

lemma waits_step_ready:
  assumes wait: "waits w a s" "a \<in> set (ready_contents (sc_ready s w))" and step: "sched_step early nw budget s t" and budget: "0 < budget"
    and calm: "calm w a s"
  shows "waits w a t \<and> wait_rank budget w a t + (if sc_worker t w = sc_worker s w then 0 else 1) \<le> wait_rank budget w a s"
proof -
  note inv = wait(1) [unfolded waits_def, THEN conjunct1]
  have invt: "fair_inv t" by (rule fairness.inv_step [OF inv step])
  have len: "length (queued_at s b) < 2 ^ 64" "\<not> sc_shutdown s" for b using calm by (simp_all add: calm_def)
  have "\<forall>n. sc_worker s w \<noteq> W_stop a n" "\<forall>n. sc_worker s w \<noteq> W_turn a n" using ready_not_held [OF inv wait(2)] by auto
  then have keep: "queued_at t a \<noteq> []"
    using mailbox_kept [OF inv step waits_owner [OF wait(1)]] wait(1) by (simp add: waits_def)
  have more: "waits w a t \<and> wait_rank budget w a t + d \<le> wait_rank budget w a s"
    if "ready_contents (sc_ready t w) = ready_contents (sc_ready s w) @ ys" "pc_rank budget t (sc_worker t w) + d \<le> pc_rank budget s (sc_worker s w)" for ys d
    using that wait(2) invt keep by (auto simp: waits_def wait_rank_def ahead_def takeWhile_member)
  show ?thesis
  proof (cases "sc_worker t w = sc_worker s w")
    case True
    from appended [OF step True] no_move_rank [OF inv step True, of budget] more [of _ 0] show ?thesis by (auto simp: True)
  next
    case False
    have "ready_contents (sc_ready s w) \<noteq> []" using wait(2) by auto
    from move_rank [OF inv step False budget len(2,1) this] show ?thesis
    proof
      assume "\<exists>b. pc_rank budget s (sc_worker s w) = 0 \<and> sc_worker t w = W_enter b \<and> ready_contents (sc_ready s w) = b # ready_contents (sc_ready t w)"
      then obtain b where b: "pc_rank budget s (sc_worker s w) = 0" "sc_worker t w = W_enter b"
        "ready_contents (sc_ready s w) = b # ready_contents (sc_ready t w)" by blast
      with ready_not_held [OF invt, of a w] wait(2) invt keep False show ?thesis
        by (cases "b = a") (auto simp: waits_def wait_rank_def ahead_def turn_moves_def)
    next
      assume "pc_rank budget t (sc_worker t w) < pc_rank budget s (sc_worker s w) \<and> (\<exists>ys. ready_contents (sc_ready t w) = ready_contents (sc_ready s w) @ ys)"
      with more [of _ 1] False show ?thesis by auto
    qed
  qed
qed

text \<open>Once the worker has taken the actor from the queue, it comes to its first message without a detour.\<close>

lemma waits_step_held:
  assumes wait: "waits w a s" "a \<notin> set (ready_contents (sc_ready s w))" and step: "sched_step early nw budget s t" and budget: "0 < budget"
    and calm: "calm w a s" "calm w a t"
  shows "waits w a t \<and> wait_rank budget w a t + (if sc_worker t w = sc_worker s w then 0 else 1) \<le> wait_rank budget w a s"
proof -
  note inv = wait(1) [unfolded waits_def, THEN conjunct1]
  have invt: "fair_inv t" by (rule fairness.inv_step [OF inv step])
  have pc: "sc_worker s w \<in> {W_enter a, W_run a 0, W_turn a 0}" "queued_at s a \<noteq> []" using wait by (auto simp: waits_def)
  have next_pc: "sc_worker t w = sc_worker s w \<or> sc_worker s w = W_enter a \<and> sc_worker t w = W_run a 0
      \<or> sc_worker s w = W_run a 0 \<and> sc_worker t w = W_turn a 0"
  proof -
    have "holder (sc_worker s w) = Some a" using pc by auto
    then have "busy (sc_actor s a)" using held_busy(2) inv by (auto simp: fair_inv_def)
    then have "sa_state (sc_actor s a) \<noteq> AS_stopped" using inv by (auto simp: busy_def fair_inv_def mailbox_states_inv_def)
    moreover have "mailbox_size (sa_mailbox (sc_actor s a)) \<noteq> 0"
      using size_queued(2) [of "sa_mailbox (sc_actor s a)"] inv pc(2) calm(1) by (auto simp: fair_inv_def calm_def queued_at_def)
    ultimately show ?thesis
      using step pc(1) calm(2) budget unfolding sched_step_def
      by (elim disjE client_step.cases worker_step.cases) (auto simp: sched_upd calm_def turn_over_def split: if_splits)
  qed
  have t: "queued_at t a \<noteq> []"
    using mailbox_kept [OF inv step waits_owner [OF wait(1)]] pc next_pc by auto
  have "holder (sc_worker t w) = Some a" using pc next_pc by auto
  then have "a \<notin> set (ready_contents (sc_ready t w))" using ready_not_held [OF invt] by blast
  with t invt next_pc pc wait(2) show ?thesis by (auto simp: waits_def wait_rank_def)
qed

section \<open>Property\<close>

lemma unserved_rank:
  assumes "unserved early nw budget w a s k t" "waits w a s" "0 < budget"
  shows "calm w a t \<and> waits w a t \<and> wait_rank budget w a t + k \<le> wait_rank budget w a s"
  using assms
proof induction
  case (un_step s k t u)
  then have t: "calm w a t" "waits w a t" "wait_rank budget w a t + k \<le> wait_rank budget w a s" by simp_all
  from waits_step_ready [OF t(2) _ un_step.hyps(2) assms(3) t(1)] waits_step_held [OF t(2) _ un_step.hyps(2) assms(3) t(1) un_step.hyps(3)]
  have "waits w a u \<and> wait_rank budget w a u + (if sc_worker u w = sc_worker t w then 0 else 1) \<le> wait_rank budget w a t" by blast
  with t(3) un_step.hyps(3) show ?case by auto
qed simp

text \<open>
  Property C3. No actor starves. Let an actor with queued messages be on the ready queue of worker \<open>w\<close>, behind \<open>ahead w a s\<close> others, and let
  \<open>max_messages_per_turn\<close> be set. However much is sent to the other actors of the worker meanwhile, and whatever stops, creations
  and wake-ups interleave with it, the worker handles a message of the actor (or carries out its stop) before it has made
  \<open>(ahead w a s + 1) * (12 * budget + 20)\<close> moves, as long as the system is not shut down and no mailbox holds \<open>2 ^ 64\<close> messages.
\<close>

theorem bounded_waiting:
  assumes "reachable (sched_init nw) (sched_step early nw budget) s" "0 < budget"
    "a \<in> set (ready_contents (sc_ready s w))" "queued (sa_mailbox (sc_actor s a)) \<noteq> []"
    "unserved early nw budget w a s k t"
  shows "k < (ahead w a s + 1) * turn_moves budget"
proof -
  have "waits w a s" using fairness.reachable_inv [OF assms(1)] assms(3,4) by (simp add: waits_def queued_at_def)
  from unserved_rank [OF assms(5) this assms(2)] have "k \<le> wait_rank budget w a s" by simp
  also have "\<dots> < (ahead w a s + 1) * turn_moves budget"
    using assms(3) pc_rank_bound [of budget s "sc_worker s w"] by (simp add: wait_rank_def turn_moves_def)
  finally show ?thesis .
qed

section \<open>Witness\<close>

text \<open>Actor 7 of theory \<open>Scheduler\<close>'s example waits while its worker takes it from the queue.\<close>

theorem bounded_waiting_witness:
  "unserved False 1 5 0 7 sched3 1 (go 0 (W_enter 7) (set_ready 0 (snd (ready_pop (sc_ready sched3 0))) sched3))
   \<and> 1 < (ahead 0 7 sched3 + 1) * turn_moves 5"
proof -
  let ?t = "go 0 (W_enter 7) (set_ready 0 (snd (ready_pop (sc_ready sched3 0))) sched3)"
  note d = sched3_def sched2_def sched1_def sched0_def sched_upd
  have r: "ready_contents (sc_ready sched3 0) = [7]" by (simp add: d ready_contents_def ready_push_def ready_init_def)
  then have pop: "ready_pop (sc_ready sched3 0) = (Some 7, snd (ready_pop (sc_ready sched3 0)))"
    using ready_pop_contents [of "sc_ready sched3 0"] by (cases "ready_pop (sc_ready sched3 0)") (auto split: list.splits)
  have q: "queued_at sched3 b = (if b = 7 then [sample_user 1] else [])" for b
    by (simp add: queued_at_def d mailbox_push_def Let_def mailbox_init_def lane_defs count_fetch_add_def link_node_def is_call_def
        sample_user_def cas_framework_kind_def)
  have calm: "calm 0 7 sched3" "calm 0 7 ?t"
    using q by (auto simp: calm_def) (simp_all add: d queued_at_def)
  have "worker_step 5 sched3 ?t" by (rule ws_pop [OF _ _ pop, where worked = False]) (simp_all add: d)
  then have "sched_step False 1 5 sched3 ?t" by (simp add: sched_step_def)
  from un_step [OF un_start [OF calm(1)] this calm(2)] have un: "unserved False 1 5 0 7 sched3 1 ?t" by (simp add: d)
  from bounded_waiting [OF sched_reachable(2) _ _ _ un] un r q [of 7] show ?thesis by (simp add: queued_at_def)
qed

end
