(* ===== verification/Dispatch_Guard.thy ===== *)
theory Dispatch_Guard
  imports Scheduler
begin

text \<open>
  The guard that debug builds put around every dispatch (source/actor.cpp: \<open>dispatch_guard\<close>): it sets the flag \<open>m_in_dispatch\<close> of the
  actor with a compare-exchange, ends the program if the flag was set already, and clears it afterwards.

  \<open>guard_step\<close> is the step relation of \<open>Scheduler\<close> with the guard: a worker that handles a message enters the guard, runs the
  handler (which may make any client steps, and the steps of other workers go on), leaves the guard, and only then proceeds. Shown: under every
  interleaving the guard never fires.
\<close>

section \<open>The guard\<close>

text \<open>The constructor on the flag: whether the program is ended, and the flag after it.\<close>

definition dispatch_guard :: "bool \<Rightarrow> bool \<times> bool" where
  "dispatch_guard m_in_dispatch = (if m_in_dispatch then (True, m_in_dispatch) else (False, True))"

definition release_guard :: "bool \<Rightarrow> bool" where
  "release_guard m_in_dispatch = False"

record guarded =
  gd_sched :: sched
  gd_flag :: "actor_ptr \<Rightarrow> bool"
  gd_inside :: "nat \<Rightarrow> actor_ptr option"
  gd_aborted :: bool

inductive guard_step :: "bool \<Rightarrow> nat \<Rightarrow> nat \<Rightarrow> guarded \<Rightarrow> guarded \<Rightarrow> bool" for early nw budget where
  gd_other: "sched_step early nw budget (gd_sched g) c \<Longrightarrow>
    (\<And>w. gd_inside g w \<noteq> None \<Longrightarrow> sc_worker c w = sc_worker (gd_sched g) w) \<Longrightarrow>
    guard_step early nw budget g (g\<lparr>gd_sched := c\<rparr>)"
| gd_enter: "sc_worker (gd_sched g) w = W_handle a n \<Longrightarrow> gd_inside g w = None \<Longrightarrow> dispatch_guard (gd_flag g a) = (fatal, flag) \<Longrightarrow>
    guard_step early nw budget g (g\<lparr>gd_flag := (gd_flag g)(a := flag), gd_inside := (gd_inside g)(w \<mapsto> a),
      gd_aborted := gd_aborted g \<or> fatal\<rparr>)"
| gd_leave: "gd_inside g w = Some a \<Longrightarrow>
    guard_step early nw budget g (g\<lparr>gd_flag := (gd_flag g)(a := release_guard (gd_flag g a)), gd_inside := (gd_inside g)(w := None)\<rparr>)"

definition guard_init :: "nat \<Rightarrow> guarded \<Rightarrow> bool" where
  "guard_init nw g \<longleftrightarrow> sched_init nw (gd_sched g) \<and> (\<forall>a. \<not> gd_flag g a) \<and> (\<forall>w. gd_inside g w = None) \<and> \<not> gd_aborted g"

section \<open>It never fires\<close>

definition guard_inv :: "bool \<Rightarrow> nat \<Rightarrow> guarded \<Rightarrow> bool" where
  "guard_inv early nw g \<longleftrightarrow> sched_inv early nw (gd_sched g) \<and> \<not> gd_aborted g
     \<and> (\<forall>w a. gd_inside g w = Some a \<longrightarrow> (\<exists>n. sc_worker (gd_sched g) w = W_handle a n))
     \<and> (\<forall>a. gd_flag g a \<longleftrightarrow> (\<exists>w. gd_inside g w = Some a))"

lemma one_handler:
  assumes "sched_inv early nw c" "sc_worker c w = W_handle a n" "sc_worker c w' = W_handle a n'"
  shows "w' = w"
proof -
  have "token_inv c" "place_inv c" using assms(1) by (simp_all add: sched_inv_def)
  from held_busy(1) [OF this, of w a] held_busy(1) [OF this, of w' a] assms(2,3) show ?thesis by simp
qed

lemma guard_inv_step:
  assumes inv: "guard_inv early nw g" and step: "guard_step early nw budget g h"
  shows "guard_inv early nw h"
  using step
proof cases
  case (gd_other c)
  have "sched_inv early nw c" using scheduler.inv_step [OF _ gd_other(2)] inv by (simp add: guard_inv_def)
  with gd_other inv show ?thesis by (fastforce simp: guard_inv_def)
next
  case (gd_enter w a n fatal flag)
  have free: "\<not> gd_flag g a"
  proof
    assume "gd_flag g a"
    with inv obtain w' n' where w': "gd_inside g w' = Some a" "sc_worker (gd_sched g) w' = W_handle a n'" unfolding guard_inv_def by blast
    with one_handler [of early nw "gd_sched g" w a n w'] gd_enter(2) inv have "w' = w" by (simp add: guard_inv_def)
    with w'(1) gd_enter(3) show False by simp
  qed
  with gd_enter(4) have f: "\<not> fatal" "flag" by (simp_all add: dispatch_guard_def)
  have "gd_flag g b \<Longrightarrow> \<exists>v. v \<noteq> w \<and> gd_inside g v = Some b" for b
    using inv gd_enter(3) unfolding guard_inv_def by force
  with f gd_enter(1-3) inv free show ?thesis by (simp add: guard_inv_def) blast
next
  case (gd_leave w a)
  have flags: "gd_flag g b \<longleftrightarrow> (\<exists>v. gd_inside g v = Some b)" for b using inv by (simp add: guard_inv_def)
  have one: "v = w" if "gd_inside g v = Some a" for v
  proof -
    from inv that gd_leave(2) obtain n n' where "sc_worker (gd_sched g) w = W_handle a n" "sc_worker (gd_sched g) v = W_handle a n'"
      unfolding guard_inv_def by blast
    with one_handler inv show ?thesis unfolding guard_inv_def by blast
  qed
  have "gd_flag h b \<longleftrightarrow> (\<exists>v. gd_inside h v = Some b)" for b
  proof (cases "b = a")
    case True
    with one show ?thesis by (auto simp: gd_leave(1) release_guard_def)
  next
    case False
    have h: "gd_flag h b = gd_flag g b" "gd_inside h = (gd_inside g)(w := None)" using False by (simp_all add: gd_leave(1))
    have "gd_inside g w \<noteq> Some b" using False gd_leave(2) by simp
    then have "gd_inside g v = Some b \<longleftrightarrow> gd_inside h v = Some b" for v by (simp add: h)
    then show ?thesis by (simp add: h(1) flags)
  qed
  moreover have "\<exists>n. sc_worker (gd_sched h) v = W_handle b n" if "gd_inside h v = Some b" for v b
    using inv that by (simp add: gd_leave(1) guard_inv_def split: if_splits)
  moreover have "sched_inv early nw (gd_sched h)" "\<not> gd_aborted h" using inv by (simp_all add: gd_leave(1) guard_inv_def)
  ultimately show ?thesis unfolding guard_inv_def by blast
qed

interpretation guard: inductive_invariant "guard_init nw" "guard_step early nw budget" "guard_inv early nw"
  for early nw budget
proof unfold_locales
  show "guard_inv early nw g" if "guard_init nw g" for g
    using that scheduler.inv_init [of nw "gd_sched g" early] by (simp add: guard_init_def guard_inv_def)
qed (rule guard_inv_step)

section \<open>Property\<close>

text \<open>
  Fact. The backstop for INVARIANT 1 never fires: under every interleaving of senders, stoppers, creators and workers, no dispatch of a pooled
  actor finds the flag \<open>m_in_dispatch\<close> set, so a debug build is never aborted, and while a worker is inside the guard of an actor, the flag of
  that actor is set and no other worker is inside it.
\<close>

theorem dispatch_guard_never_fires:
  assumes "reachable (guard_init nw) (guard_step early nw budget) g"
  shows "\<not> gd_aborted g \<and> (gd_inside g w = Some a \<longrightarrow> gd_flag g a \<and> (gd_inside g w' = Some a \<longrightarrow> w' = w))
    \<and> (sc_worker (gd_sched g) w = W_handle a n \<and> gd_inside g w = None \<longrightarrow> fst (dispatch_guard (gd_flag g a)) = False)"
proof -
  have inv: "guard_inv early nw g" by (rule guard.reachable_inv [OF assms])
  then have c: "sched_inv early nw (gd_sched g)" by (simp add: guard_inv_def)
  have "w' = w" if "gd_inside g w = Some a" "gd_inside g w' = Some a"
    using that inv one_handler [OF c] unfolding guard_inv_def by meson
  moreover have "\<not> gd_flag g a" if "sc_worker (gd_sched g) w = W_handle a n" "gd_inside g w = None"
    using that inv one_handler [OF c that(1)] unfolding guard_inv_def by (metis option.distinct(1))
  ultimately show ?thesis using inv by (auto simp: guard_inv_def dispatch_guard_def)
qed

section \<open>Witness\<close>

text \<open>Worker 0 takes actor 7 from its queue, pops its message and enters the guard.\<close>

definition sched4 :: sched where
  "sched4 = go 0 (W_turn 7 0) (set_ready 0 (snd (ready_pop (ready_push 7 ready_init))) sched3)"

definition sched5 :: sched where
  "sched5 = go 0 (W_handle 7 1) (set_mb 7 (snd (mailbox_pop (sa_mailbox (sc_actor sched4 7)))) sched4)"

lemma sched5_reachable: "reachable (sched_init 1) (sched_step False 1 5) sched5"
proof -
  have step: "reachable (sched_init 1) (sched_step False 1 5) t"
    if "reachable (sched_init 1) (sched_step False 1 5) c" "worker_step 5 c t" for c t
    using that reachable_step by (fastforce simp: sched_step_def)
  let ?c = "set_ready 0 (snd (ready_pop (ready_push 7 ready_init))) sched3"
  have f: "sc_worker sched3 0 = W_loop False" "sc_ready sched3 0 = ready_push 7 ready_init" "\<not> sc_shutdown sched3"
    "sa_state (sc_actor sched3 7) = AS_running" "sa_phase (sc_actor sched3 7) = SP_none"
    by (simp_all add: sched3_def sched2_def sched1_def sched0_def sched_upd)
  have "ready_pop (ready_push 7 ready_init) = (Some 7, snd (ready_pop (ready_push 7 ready_init)))"
    by (simp add: ready_pop_def ready_push_def ready_init_def ready_fetch_more_def)
  then have "worker_step 5 sched3 (go 0 (W_enter 7) ?c)" using ws_pop [OF f(1,3)] f(2) by simp
  note r1 = step [OF sched_reachable(2) this]
  have "worker_step 5 (go 0 (W_enter 7) ?c) (go 0 (W_run 7 0) (go 0 (W_enter 7) ?c))"
    using ws_enter [of "go 0 (W_enter 7) ?c" 0 7 5] f by (simp add: sched_upd)
  note r2 = step [OF r1 this]
  have "worker_step 5 (go 0 (W_run 7 0) (go 0 (W_enter 7) ?c)) sched4"
    using ws_run [of "go 0 (W_run 7 0) (go 0 (W_enter 7) ?c)" 0 7 0 5] f by (simp add: sched_upd sched4_def)
  note r3 = step [OF r2 this]
  have "0 < mailbox_size (sa_mailbox (sc_actor sched4 7))" "sc_worker sched4 0 = W_turn 7 0"
    by (simp_all add: sched4_def sched3_def sched2_def sched1_def sched0_def sched_upd mailbox_push_def Let_def mailbox_init_def
        count_fetch_add_def mailbox_size_def call_size_def other_size_def sample_user_def is_call_def cas_framework_kind_def)
  then have "worker_step 5 sched4 sched5"
    using ws_message [of sched4 0 7 0 5] by (simp add: sched5_def turn_over_def)
  then show ?thesis by (rule step [OF r3])
qed

definition unguarded :: "sched \<Rightarrow> guarded" where
  "unguarded c = \<lparr>gd_sched = c, gd_flag = (\<lambda>_. False), gd_inside = (\<lambda>_. None), gd_aborted = False\<rparr>"

lemma unguarded_reachable:
  assumes "reachable (sched_init nw) (sched_step early nw budget) c"
  shows "reachable (guard_init nw) (guard_step early nw budget) (unguarded c)"
  using assms
proof induction
  case (reachable_init c)
  then show ?case by (intro reachable.reachable_init) (simp add: guard_init_def unguarded_def)
next
  case (reachable_step c d)
  have "guard_step early nw budget (unguarded c) (unguarded c\<lparr>gd_sched := d\<rparr>)"
    by (rule gd_other) (use reachable_step in \<open>simp_all add: unguarded_def\<close>)
  with reachable_step.IH show ?case by (auto simp: unguarded_def intro: reachable.reachable_step)
qed

theorem dispatch_guard_never_fires_witness:
  "\<exists>g. reachable (guard_init 1) (guard_step False 1 5) g \<and> gd_inside g 0 = Some 7 \<and> gd_flag g 7 \<and> \<not> gd_aborted g"
proof -
  define g where "g = (unguarded sched5)\<lparr>gd_flag := (\<lambda>_. False)(7 := True), gd_inside := (\<lambda>_. None)(0 \<mapsto> 7), gd_aborted := False\<rparr>"
  have "sc_worker sched5 0 = W_handle 7 1" by (simp add: sched5_def go_def)
  then have "guard_step False 1 5 (unguarded sched5) g"
    using gd_enter [of "unguarded sched5" 0 7 1 False True] by (simp add: unguarded_def dispatch_guard_def g_def)
  then have r: "reachable (guard_init 1) (guard_step False 1 5) g" using unguarded_reachable [OF sched5_reachable] by (rule reachable_step [rotated])
  with dispatch_guard_never_fires [OF r, of 0 7] show ?thesis by (intro exI [of _ g]) (simp add: g_def)
qed

end
