(* ===== verification/Transport.thy ===== *)
theory Transport
  imports Actor_System
begin

text \<open>
  The transport behind the relay actor (include/cas/detail/transport.h,
  include/cas/detail/zeromq_transport.h, source/transport.cpp, source/zeromq_transport.cpp).

  \<^item> \<open>transport_ops\<close> is the abstract class \<open>transport\<close>: the operations a relay calls, on a state of any type.
  \<^item> \<open>zeromq_ops\<close> is \<open>zeromq_transport\<close>. The ZeroMQ library is the parameter \<open>zmq\<close>: what each of its
    socket calls answers.
  \<^item> \<open>frames_of\<close> and \<open>parse_frames\<close> are the wire format, \<open>stoull\<close> and \<open>to_string\<close> its decimal numbers.

  Bytes are characters; error numbers are those of Linux. A wake-up that is pending in the internal socket pair is counted.
\<close>

section \<open>Envelopes and the interface\<close>

type_synonym frame = string

record envelope =
  env_peer :: string
  env_correlation_id :: uint64
  env_message_type :: string
  env_content_type :: string
  env_payload :: frame

record transport_options =
  opt_send_timeout_ms :: int
  opt_recv_timeout_ms :: int
  opt_max_message_size :: int
  opt_auto_reconnect :: bool
  opt_reconnect_delay_ms :: int
  opt_send_hwm :: int
  opt_recv_hwm :: int

definition transport_options_init :: transport_options where
  "transport_options_init = \<lparr>opt_send_timeout_ms = 1000, opt_recv_timeout_ms = 1000, opt_max_message_size = 1048576,
     opt_auto_reconnect = True, opt_reconnect_delay_ms = 1000, opt_send_hwm = 1000, opt_recv_hwm = 1000\<rparr>"

record transport_event =
  ev_detail :: string
  ev_code :: int

record transport_error =
  te_what :: string
  te_code :: int

text \<open>The outcome of \<open>try_send\<close>: true, false, or a \<open>transport_error\<close>.\<close>

datatype send_result = Sent | Peer_full | Send_throws transport_error

record 't transport_ops =
  t_bind :: "string \<Rightarrow> 't \<Rightarrow> transport_error option \<times> 't"
  t_connect :: "string \<Rightarrow> string \<Rightarrow> 't \<Rightarrow> transport_error option \<times> 't"
  t_configure :: "transport_options \<Rightarrow> 't \<Rightarrow> 't"
  t_try_send :: "envelope \<Rightarrow> 't \<Rightarrow> send_result \<times> 't"
  t_receive :: "nat \<Rightarrow> 't \<Rightarrow> envelope list \<times> 't"
  t_drain_events :: "'t \<Rightarrow> transport_event list \<times> 't"
  t_wait :: "millis \<Rightarrow> 't \<Rightarrow> 't"
  t_wake :: "'t \<Rightarrow> 't"
  t_local_endpoint :: "'t \<Rightarrow> string"
  t_close :: "'t \<Rightarrow> 't"

section \<open>Decimal text\<close>

definition is_digit :: "char \<Rightarrow> bool" where
  "is_digit c \<longleftrightarrow> 48 \<le> (of_char c :: nat) \<and> (of_char c :: nat) \<le> 57"

definition is_space :: "char \<Rightarrow> bool" where
  "is_space c \<longleftrightarrow> (of_char c :: nat) = 32 \<or> 9 \<le> (of_char c :: nat) \<and> (of_char c :: nat) \<le> 13"

definition digits_value :: "string \<Rightarrow> nat" where
  "digits_value ds = fold (\<lambda>c n. 10 * n + (of_char c - 48)) ds 0"

text \<open>
  \<open>std::stoull\<close> in base 10: leading white space, an optional sign, as many digits as there are; no
  digit or a value beyond 64 bits throws, a minus sign negates modulo 2^64.
\<close>

definition stoull :: "string \<Rightarrow> uint64 option" where
  "stoull text =
     (let t = dropWhile is_space text;
          negative = (t \<noteq> [] \<and> hd t = CHR ''-'');
          body = (if t \<noteq> [] \<and> (hd t = CHR ''-'' \<or> hd t = CHR ''+'') then tl t else t);
          ds = takeWhile is_digit body;
          v = digits_value ds
      in if ds = [] then None
         else if v \<ge> 2 ^ 64 then None
         else Some (if negative then - of_nat v else of_nat v))"

section \<open>The wire format\<close>

definition text_frames :: "envelope \<Rightarrow> frame list" where
  "text_frames e = [to_string (unat (env_correlation_id e)), env_payload e, env_content_type e, env_message_type e]"

definition frames_of :: "bool \<Rightarrow> envelope \<Rightarrow> frame list" where
  "frames_of server e = (if server then env_peer e # text_frames e else text_frames e)"

definition malformed_event :: "nat \<Rightarrow> transport_event" where
  "malformed_event n = \<lparr>ev_detail = ''Received malformed message (frame count: '' @ to_string n @ '')'', ev_code = 0\<rparr>"

definition parse_frames :: "bool \<Rightarrow> frame list \<Rightarrow> transport_event + envelope" where
  "parse_frames server fs =
     (if length fs < (if server then 5 else 4) then Inl (malformed_event (length fs))
      else
        (let idx = (if server then 1 else 0)
         in Inr \<lparr>env_peer = (if server then fs ! 0 else []),
                 env_correlation_id = (case stoull (fs ! idx) of Some c \<Rightarrow> c | None \<Rightarrow> 0),
                 env_message_type = fs ! (idx + 3), env_content_type = fs ! (idx + 2), env_payload = fs ! (idx + 1)\<rparr>))"

section \<open>The ZeroMQ transport\<close>

text \<open>
  A call of the library answers \<open>Inl\<close> the text and number of a \<open>zmq::error_t\<close> it throws, or \<open>Inr\<close> its result. \<open>zmq_send\<close> is given
  a frame and the flags \<open>sndmore\<close> and \<open>dontwait\<close>; \<open>zmq_recv\<close> answers the frames of the next multipart
  message, which is what the loop over \<open>frame.more()\<close> collects; \<open>zmq_poll\<close> says whether the wake-up socket is readable.
\<close>

type_synonym zmq_error = "string \<times> int"

datatype sockopt =
    Sndtimeo int | Rcvtimeo int | Maxmsgsize int | Linger int | Reconnect_ivl int | Sndhwm int | Rcvhwm int
  | Router_mandatory bool | Routing_id string

record 'z zmq_library =
  zmq_socket :: "bool \<Rightarrow> 'z \<Rightarrow> zmq_error option \<times> 'z"
  zmq_set :: "sockopt \<Rightarrow> 'z \<Rightarrow> zmq_error option \<times> 'z"
  zmq_bind :: "string \<Rightarrow> 'z \<Rightarrow> zmq_error option \<times> 'z"
  zmq_connect :: "string \<Rightarrow> 'z \<Rightarrow> zmq_error option \<times> 'z"
  zmq_send :: "frame \<Rightarrow> bool \<Rightarrow> bool \<Rightarrow> 'z \<Rightarrow> (zmq_error + bool) \<times> 'z"
  zmq_recv :: "'z \<Rightarrow> (zmq_error + frame list option) \<times> 'z"
  zmq_poll :: "bool \<Rightarrow> millis \<Rightarrow> nat \<Rightarrow> 'z \<Rightarrow> (zmq_error + bool) \<times> 'z"
  zmq_last_endpoint :: "'z \<Rightarrow> string"
  zmq_close :: "'z \<Rightarrow> 'z"

record 'z zeromq_transport =
  zt_socket :: bool
  zt_server :: bool
  zt_options :: transport_options
  zt_events :: "transport_event list"
  zt_wakes :: nat
  zt_zmq :: 'z

definition EINTR :: int where "EINTR = 4"
definition EAGAIN :: int where "EAGAIN = 11"
definition ETIMEDOUT :: int where "ETIMEDOUT = 110"

definition transport_error_of :: "zmq_error \<Rightarrow> transport_error" where
  "transport_error_of e = \<lparr>te_what = fst e, te_code = snd e\<rparr>"

definition zt_close :: "'z zmq_library \<Rightarrow> 'z zeromq_transport \<Rightarrow> 'z zeromq_transport" where
  "zt_close zmq t = (if zt_socket t then t\<lparr>zt_socket := False, zt_zmq := zmq_close zmq (zt_zmq t)\<rparr> else t)"

text \<open>\<open>socket.emplace\<close> releases the socket there was; when it throws there is none.\<close>

definition create_socket :: "'z zmq_library \<Rightarrow> bool \<Rightarrow> 'z zeromq_transport \<Rightarrow> zmq_error option \<times> 'z zeromq_transport" where
  "create_socket zmq server t =
     (let t1 = zt_close zmq t
      in case zmq_socket zmq server (zt_zmq t1) of
           (None, z) \<Rightarrow> (None, t1\<lparr>zt_socket := True, zt_server := server, zt_zmq := z\<rparr>)
         | (Some e, z) \<Rightarrow> (Some e, t1\<lparr>zt_zmq := z\<rparr>))"

definition socket_options :: "bool \<Rightarrow> transport_options \<Rightarrow> sockopt list" where
  "socket_options server options =
     [Sndtimeo (opt_send_timeout_ms options), Rcvtimeo (opt_recv_timeout_ms options), Maxmsgsize (opt_max_message_size options),
      Linger (opt_send_timeout_ms options),
      Reconnect_ivl (if opt_auto_reconnect options then opt_reconnect_delay_ms options else - 1),
      Sndhwm (opt_send_hwm options), Rcvhwm (opt_recv_hwm options)]
     @ (if server then [Router_mandatory True] else [])"

fun set_options :: "'z zmq_library \<Rightarrow> sockopt list \<Rightarrow> 'z \<Rightarrow> zmq_error option \<times> 'z" where
  "set_options zmq [] z = (None, z)"
| "set_options zmq (opt # opts) z =
     (case zmq_set zmq opt z of
        (None, z1) \<Rightarrow> set_options zmq opts z1
      | (Some e, z1) \<Rightarrow> (Some e, z1))"

definition apply_options :: "'z zmq_library \<Rightarrow> 'z zeromq_transport \<Rightarrow> zmq_error option \<times> 'z zeromq_transport" where
  "apply_options zmq t =
     (if \<not> zt_socket t then (None, t)
      else (let (result, z) = set_options zmq (socket_options (zt_server t) (zt_options t)) (zt_zmq t)
            in (result, t\<lparr>zt_zmq := z\<rparr>)))"

text \<open>The calls of a \<open>try\<close> block one after the other, up to the first that throws.\<close>

fun in_turn :: "('t \<Rightarrow> zmq_error option \<times> 't) list \<Rightarrow> 't \<Rightarrow> zmq_error option \<times> 't" where
  "in_turn [] t = (None, t)"
| "in_turn (f # fs) t =
     (case f t of
        (None, t1) \<Rightarrow> in_turn fs t1
      | (Some e, t1) \<Rightarrow> (Some e, t1))"

definition on_library :: "('z \<Rightarrow> zmq_error option \<times> 'z) \<Rightarrow> 'z zeromq_transport \<Rightarrow> zmq_error option \<times> 'z zeromq_transport" where
  "on_library f t = (let (result, z) = f (zt_zmq t) in (result, t\<lparr>zt_zmq := z\<rparr>))"

definition or_close ::
  "'z zmq_library \<Rightarrow> zmq_error option \<times> 'z zeromq_transport \<Rightarrow> transport_error option \<times> 'z zeromq_transport" where
  "or_close zmq result =
     (case result of
        (None, t) \<Rightarrow> (None, t)
      | (Some e, t) \<Rightarrow> (Some (transport_error_of e), zt_close zmq t))"

definition zt_bind :: "'z zmq_library \<Rightarrow> string \<Rightarrow> 'z zeromq_transport \<Rightarrow> transport_error option \<times> 'z zeromq_transport" where
  "zt_bind zmq endpoint t =
     or_close zmq (in_turn [create_socket zmq True, apply_options zmq, on_library (zmq_bind zmq endpoint)] t)"

definition zt_connect ::
  "'z zmq_library \<Rightarrow> string \<Rightarrow> string \<Rightarrow> 'z zeromq_transport \<Rightarrow> transport_error option \<times> 'z zeromq_transport" where
  "zt_connect zmq endpoint identity t =
     or_close zmq (in_turn ([create_socket zmq False]
       @ (if identity \<noteq> [] then [on_library (zmq_set zmq (Routing_id identity))] else [])
       @ [apply_options zmq, on_library (zmq_connect zmq endpoint)]) t)"

definition record_error :: "string \<Rightarrow> int \<Rightarrow> 'z zeromq_transport \<Rightarrow> 'z zeromq_transport" where
  "record_error detail code t = t\<lparr>zt_events := zt_events t @ [\<lparr>ev_detail = detail, ev_code = code\<rparr>]\<rparr>"

definition zt_configure :: "'z zmq_library \<Rightarrow> transport_options \<Rightarrow> 'z zeromq_transport \<Rightarrow> 'z zeromq_transport" where
  "zt_configure zmq options t =
     (case apply_options zmq (t\<lparr>zt_options := options\<rparr>) of
        (None, t1) \<Rightarrow> t1
      | (Some (w, n), t1) \<Rightarrow> record_error (''Configure failed: '' @ w) n t1)"

text \<open>The frames after the first: what \<open>send\<close> returns is not looked at, an exception ends the loop.\<close>

fun send_rest :: "'z zmq_library \<Rightarrow> frame list \<Rightarrow> 'z \<Rightarrow> zmq_error option \<times> 'z" where
  "send_rest zmq [] z = (None, z)"
| "send_rest zmq (f # fs) z =
     (case zmq_send zmq f (fs \<noteq> []) False z of
        (Inl e, z1) \<Rightarrow> (Some e, z1)
      | (Inr sent, z1) \<Rightarrow> send_rest zmq fs z1)"

definition zt_try_send :: "'z zmq_library \<Rightarrow> envelope \<Rightarrow> 'z zeromq_transport \<Rightarrow> send_result \<times> 'z zeromq_transport" where
  "zt_try_send zmq e t =
     (if \<not> zt_socket t then (Send_throws \<lparr>te_what = ''Not connected'', te_code = 0\<rparr>, t)
      else if zt_server t \<and> env_peer e = []
      then (Send_throws \<lparr>te_what = ''ROUTER mode requires target identity'', te_code = 0\<rparr>, t)
      else
        (case zmq_send zmq (hd (frames_of (zt_server t) e)) True True (zt_zmq t) of
           (Inl x, z) \<Rightarrow> (Send_throws (transport_error_of x), t\<lparr>zt_zmq := z\<rparr>)
         | (Inr False, z) \<Rightarrow> (Peer_full, t\<lparr>zt_zmq := z\<rparr>)
         | (Inr True, z) \<Rightarrow>
             (case send_rest zmq (tl (frames_of (zt_server t) e)) z of
                (None, z1) \<Rightarrow> (Sent, t\<lparr>zt_zmq := z1\<rparr>)
              | (Some x, z1) \<Rightarrow> (Send_throws (transport_error_of x), t\<lparr>zt_zmq := z1\<rparr>))))"

text \<open>\<open>receive_one\<close>: whether to go on, and the envelope if one was read.\<close>

definition receive_one :: "'z zmq_library \<Rightarrow> 'z zeromq_transport \<Rightarrow> (bool \<times> envelope list) \<times> 'z zeromq_transport" where
  "receive_one zmq t =
     (case zmq_recv zmq (zt_zmq t) of
        (Inr None, z) \<Rightarrow> ((False, []), t\<lparr>zt_zmq := z\<rparr>)
      | (Inr (Some fs), z) \<Rightarrow>
          (case parse_frames (zt_server t) fs of
             Inl e \<Rightarrow> ((True, []), record_error (ev_detail e) (ev_code e) (t\<lparr>zt_zmq := z\<rparr>))
           | Inr e \<Rightarrow> ((True, [e]), t\<lparr>zt_zmq := z\<rparr>))
      | (Inl (w, n), z) \<Rightarrow>
          ((False, []), if n \<noteq> EAGAIN then record_error (''Receive error: '' @ w) n (t\<lparr>zt_zmq := z\<rparr>) else t\<lparr>zt_zmq := z\<rparr>))"

fun zt_receive_loop :: "'z zmq_library \<Rightarrow> nat \<Rightarrow> 'z zeromq_transport \<Rightarrow> envelope list \<times> 'z zeromq_transport" where
  "zt_receive_loop zmq 0 t = ([], t)"
| "zt_receive_loop zmq (Suc n) t =
     (case receive_one zmq t of
        ((go_on, es), t1) \<Rightarrow>
          if go_on then (let (rest, t2) = zt_receive_loop zmq n t1 in (es @ rest, t2)) else (es, t1))"

definition zt_receive :: "'z zmq_library \<Rightarrow> nat \<Rightarrow> 'z zeromq_transport \<Rightarrow> envelope list \<times> 'z zeromq_transport" where
  "zt_receive zmq n t = (if \<not> zt_socket t then ([], t) else zt_receive_loop zmq n t)"

definition zt_drain_events :: "'z zeromq_transport \<Rightarrow> transport_event list \<times> 'z zeromq_transport" where
  "zt_drain_events t = (zt_events t, t\<lparr>zt_events := []\<rparr>)"

definition zt_wake :: "'z zeromq_transport \<Rightarrow> 'z zeromq_transport" where
  "zt_wake t = t\<lparr>zt_wakes := zt_wakes t + 1\<rparr>"

definition zt_wait :: "'z zmq_library \<Rightarrow> millis \<Rightarrow> 'z zeromq_transport \<Rightarrow> 'z zeromq_transport" where
  "zt_wait zmq timeout t =
     (case zmq_poll zmq (zt_socket t) timeout (zt_wakes t) (zt_zmq t) of
        (Inl (w, n), z) \<Rightarrow>
          if n \<noteq> EINTR then record_error (''Wait failed: '' @ w) n (t\<lparr>zt_zmq := z\<rparr>) else t\<lparr>zt_zmq := z\<rparr>
      | (Inr readable, z) \<Rightarrow> if readable then t\<lparr>zt_zmq := z, zt_wakes := 0\<rparr> else t\<lparr>zt_zmq := z\<rparr>)"

definition local_endpoint :: "'z zmq_library \<Rightarrow> 'z zeromq_transport \<Rightarrow> string" where
  "local_endpoint zmq t = (if \<not> zt_socket t then [] else zmq_last_endpoint zmq (zt_zmq t))"

definition zeromq_ops :: "'z zmq_library \<Rightarrow> 'z zeromq_transport transport_ops" where
  "zeromq_ops zmq = \<lparr>t_bind = zt_bind zmq, t_connect = zt_connect zmq, t_configure = zt_configure zmq,
     t_try_send = zt_try_send zmq, t_receive = zt_receive zmq, t_drain_events = zt_drain_events,
     t_wait = zt_wait zmq, t_wake = zt_wake, t_local_endpoint = local_endpoint zmq, t_close = zt_close zmq\<rparr>"

section \<open>Reading back decimal text\<close>

lemma to_string_digits: "to_string n \<noteq> [] \<and> list_all is_digit (to_string n)"
proof (induction n rule: to_string.induct)
  case (1 n)
  have d: "is_digit (char_of (48 + k))" if "k < 10" for k :: nat
    using that by (simp add: is_digit_def)
  show ?case
  proof (cases "n < 10")
    case True
    then show ?thesis by (subst (1 2) to_string.simps) (simp add: d)
  next
    case False
    with 1 d [of "n mod 10"] show ?thesis by (subst (1 2) to_string.simps) simp
  qed
qed

lemma digits_value_to_string: "digits_value (to_string n) = n"
proof (induction n rule: to_string.induct)
  case (1 n)
  show ?case
  proof (cases "n < 10")
    case True
    then show ?thesis by (subst to_string.simps) (simp add: digits_value_def)
  next
    case False
    with 1 show ?thesis by (subst to_string.simps) (simp add: digits_value_def)
  qed
qed

lemma digit_no_space: "is_digit c \<Longrightarrow> \<not> is_space c \<and> c \<noteq> CHR ''-'' \<and> c \<noteq> CHR ''+''"
  by (auto simp: is_digit_def is_space_def)

lemma stoull_to_string: "stoull (to_string (unat (w :: uint64))) = Some w"
proof -
  let ?t = "to_string (unat w)"
  obtain c cs where t: "?t = c # cs" "is_digit c" using to_string_digits [of "unat w"] by (cases ?t) auto
  have sp: "dropWhile is_space ?t = ?t" "hd ?t \<noteq> CHR ''-''" "hd ?t \<noteq> CHR ''+''" "?t \<noteq> []"
    using t digit_no_space [OF t(2)] by simp_all
  have tw: "takeWhile is_digit ?t = ?t" using to_string_digits [of "unat w"] by (simp add: list_all_iff)
  have "unat w < 2 ^ 64" using unsigned_less [of w] by simp
  then show ?thesis unfolding stoull_def Let_def by (simp add: sp tw digits_value_to_string)
qed

section \<open>Properties\<close>

text \<open>
  Property C19. The wire format loses nothing, in both directions and for every 64-bit correlation id and every
  payload: what a client sends arrives at the server, where ROUTER has put the client's identity in
  front, as the same envelope with that identity as peer; what a server sends to a peer arrives at that
  peer, ROUTER having removed the identity, as the same envelope with an empty peer. A message with too
  few frames is reported and never read as an envelope.
\<close>

theorem wire_roundtrip:
  "parse_frames True (identity # frames_of False e) = Inr (e\<lparr>env_peer := identity\<rparr>)
   \<and> frames_of True e = env_peer e # tl (frames_of True e)
   \<and> parse_frames False (tl (frames_of True e)) = Inr (e\<lparr>env_peer := []\<rparr>)
   \<and> (length fs < (if server then 5 else 4) \<longrightarrow> (\<exists>ev. parse_frames server fs = Inl ev))"
  by (simp add: parse_frames_def frames_of_def text_frames_def stoull_to_string)

section \<open>Witnesses\<close>

definition sample_envelope :: envelope where
  "sample_envelope = \<lparr>env_peer = ''p'', env_correlation_id = 18446744073709551615, env_message_type = ''t'',
     env_content_type = ''raw'', env_payload = ''x''\<rparr>"

theorem wire_roundtrip_witness:
  "parse_frames True (''id'' # frames_of False sample_envelope) = Inr (sample_envelope\<lparr>env_peer := ''id''\<rparr>)
   \<and> (\<exists>ev. parse_frames True [''a'', ''1''] = Inl ev)"
  using wire_roundtrip [of "''id''" sample_envelope "[''a'', ''1'']" True] by simp

end
