(* ===== verification/Transport_Context.thy ===== *)
theory Transport_Context
  imports Transport
begin

text \<open>
  Construction and destruction of ZeroMQ transports (source/zeromq_transport.cpp: \<open>shared_context\<close>, the constructor and the
  destructor of \<open>zeromq_transport\<close>). Every relay of a process has a transport, the transports share one ZeroMQ context, and the two ends of
  a transport's wake-up pair meet at an \<open>inproc\<close> endpoint, which is visible only within a context.

  \<^item> A context is a number, the next fresh one is \<open>tp_contexts\<close>. \<open>tp_context t\<close> is the \<open>shared_ptr\<close> of transport \<open>t\<close>; a context is alive while
    some transport holds it. \<open>tp_cached\<close> is the \<open>weak_ptr\<close> of \<open>shared_context\<close>.
  \<^item> A construction is two steps of its thread, since other threads may construct between the \<open>fetch_add\<close> and the lock of \<open>shared_context\<close>; the
    calls on the socket pair may throw (\<open>thrown\<close>), then the partial object is destroyed.
\<close>

section \<open>State and operations\<close>

record transports =
  tp_next_id :: uint64
  tp_cached :: "nat option"
  tp_contexts :: nat
  tp_context :: "nat \<Rightarrow> nat option"
  tp_endpoint :: "nat \<Rightarrow> string option"
  tp_made :: nat

definition wake_endpoint :: "uint64 \<Rightarrow> string" where
  "wake_endpoint n = ''inproc://cas-transport-wake-'' @ to_string (unat n)"

definition context_alive :: "transports \<Rightarrow> nat \<Rightarrow> bool" where
  "context_alive w c \<longleftrightarrow> (\<exists>t. tp_context w t = Some c)"

text \<open>\<open>cached.lock()\<close> gives the context if it is alive; otherwise a new one is made and remembered.\<close>

definition shared_context :: "(nat \<Rightarrow> bool) \<Rightarrow> nat option \<Rightarrow> nat \<Rightarrow> nat \<times> nat option \<times> nat" where
  "shared_context alive cached fresh =
     (case cached of
        Some c \<Rightarrow> if alive c then (c, Some c, fresh) else (fresh, Some fresh, Suc fresh)
      | None \<Rightarrow> (fresh, Some fresh, Suc fresh))"

definition take_endpoint :: "nat \<Rightarrow> transports \<Rightarrow> transports" where
  "take_endpoint t w = w\<lparr>tp_next_id := tp_next_id w + 1, tp_made := Suc (tp_made w),
     tp_endpoint := (tp_endpoint w)(t \<mapsto> wake_endpoint (tp_next_id w))\<rparr>"

definition open_wake_pair :: "bool \<Rightarrow> nat \<Rightarrow> transports \<Rightarrow> transports" where
  "open_wake_pair thrown t w =
     (let (c, cached, fresh) = shared_context (context_alive w) (tp_cached w) (tp_contexts w);
          w1 = w\<lparr>tp_cached := cached, tp_contexts := fresh\<rparr>
      in if thrown then w1\<lparr>tp_endpoint := (tp_endpoint w)(t := None)\<rparr>
         else w1\<lparr>tp_context := (tp_context w)(t \<mapsto> c)\<rparr>)"

definition destroy_transport :: "nat \<Rightarrow> transports \<Rightarrow> transports" where
  "destroy_transport t w = w\<lparr>tp_context := (tp_context w)(t := None), tp_endpoint := (tp_endpoint w)(t := None)\<rparr>"

text \<open>The members of a new transport, and what its destructor does to them.\<close>

definition zt_construct :: "'z \<Rightarrow> 'z zeromq_transport" where
  "zt_construct z = \<lparr>zt_socket = False, zt_server = False, zt_options = transport_options_init, zt_events = [], zt_wakes = 0, zt_zmq = z\<rparr>"

definition zt_destroy :: "'z zmq_library \<Rightarrow> 'z zeromq_transport \<Rightarrow> 'z zeromq_transport" where
  "zt_destroy zmq t = (zt_close zmq t)\<lparr>zt_wakes := 0\<rparr>"

inductive transport_step :: "transports \<Rightarrow> transports \<Rightarrow> bool" where
  tp_take: "tp_endpoint w t = None \<Longrightarrow> tp_context w t = None \<Longrightarrow> transport_step w (take_endpoint t w)"
| tp_open: "tp_endpoint w t \<noteq> None \<Longrightarrow> tp_context w t = None \<Longrightarrow> transport_step w (open_wake_pair thrown t w)"
| tp_destroy: "tp_context w t \<noteq> None \<Longrightarrow> transport_step w (destroy_transport t w)"

definition transports_init :: "transports \<Rightarrow> bool" where
  "transports_init w \<longleftrightarrow> w = \<lparr>tp_next_id = 1, tp_cached = None, tp_contexts = 0, tp_context = (\<lambda>_. None), tp_endpoint = (\<lambda>_. None), tp_made = 0\<rparr>"

section \<open>One context, distinct endpoints\<close>

lemma to_string_inj: "to_string m = to_string n \<longleftrightarrow> m = n"
  by (metis digits_value_to_string)

lemma wake_endpoint_inj: "wake_endpoint m = wake_endpoint n \<longleftrightarrow> m = n"
  by (simp add: wake_endpoint_def to_string_inj word_unat_eq_iff)

definition contexts_ok :: "transports \<Rightarrow> bool" where
  "contexts_ok w \<longleftrightarrow> (\<forall>t c. tp_context w t = Some c \<longrightarrow> tp_cached w = Some c)
     \<and> (\<forall>c. tp_cached w = Some c \<longrightarrow> c < tp_contexts w)"

text \<open>The endpoint of each transport was made from a number taken before, and no two from the same.\<close>

definition endpoints_ok :: "transports \<Rightarrow> bool" where
  "endpoints_ok w \<longleftrightarrow> tp_next_id w = of_nat (Suc (tp_made w))
     \<and> (\<exists>k. (\<forall>t e. tp_endpoint w t = Some e \<longrightarrow> k t < tp_made w \<and> e = wake_endpoint (of_nat (Suc (k t))))
          \<and> (\<forall>t u. tp_endpoint w t \<noteq> None \<and> tp_endpoint w u \<noteq> None \<and> k t = k u \<longrightarrow> t = u))"

definition transports_ok :: "transports \<Rightarrow> bool" where
  "transports_ok w \<longleftrightarrow> contexts_ok w \<and> endpoints_ok w \<and> (\<forall>t. tp_context w t \<noteq> None \<longrightarrow> tp_endpoint w t \<noteq> None)"

lemma endpoints_okI:
  assumes "tp_next_id w = of_nat (Suc (tp_made w))"
    "\<And>t e. tp_endpoint w t = Some e \<Longrightarrow> k t < tp_made w \<and> e = wake_endpoint (of_nat (Suc (k t)))"
    "\<And>t u. tp_endpoint w t \<noteq> None \<Longrightarrow> tp_endpoint w u \<noteq> None \<Longrightarrow> k t = k u \<Longrightarrow> t = u"
  shows "endpoints_ok w"
  unfolding endpoints_ok_def using assms by blast

lemma contexts_ok_fewer:
  assumes "contexts_ok w" "tp_cached w' = tp_cached w" "tp_contexts w' = tp_contexts w"
    "\<And>t c. tp_context w' t = Some c \<Longrightarrow> tp_context w t = Some c"
  shows "contexts_ok w'"
  using assms(1,4) unfolding contexts_ok_def assms(2,3) by blast

lemma take_endpoint_ok:
  assumes "endpoints_ok w" "tp_endpoint w t = None"
  shows "endpoints_ok (take_endpoint t w)"
proof -
  from assms(1) obtain k where k: "\<And>t e. tp_endpoint w t = Some e \<Longrightarrow> k t < tp_made w \<and> e = wake_endpoint (of_nat (Suc (k t)))"
    "\<And>t u. tp_endpoint w t \<noteq> None \<Longrightarrow> tp_endpoint w u \<noteq> None \<Longrightarrow> k t = k u \<Longrightarrow> t = u" and id: "tp_next_id w = of_nat (Suc (tp_made w))"
    unfolding endpoints_ok_def by blast
  let ?k = "k(t := tp_made w)"
  have inj: "u = v" if "tp_endpoint (take_endpoint t w) u \<noteq> None" "tp_endpoint (take_endpoint t w) v \<noteq> None" "?k u = ?k v" for u v
  proof -
    have old: "k x < tp_made w" if "tp_endpoint w x \<noteq> None" for x using that k(1) by blast
    show ?thesis
    proof (cases "u = t \<or> v = t")
      case True
      then show ?thesis using that old [of u] old [of v] by (auto simp: take_endpoint_def split: if_splits)
    next
      case False
      with that k(2) [of u v] show ?thesis by (simp add: take_endpoint_def)
    qed
  qed
  have val: "?k u < Suc (tp_made w) \<and> e = wake_endpoint (of_nat (Suc (?k u)))" if "tp_endpoint (take_endpoint t w) u = Some e" for u e
    using that k(1) [of u e] id by (auto simp: take_endpoint_def less_SucI split: if_splits)
  have made: "tp_made (take_endpoint t w) = Suc (tp_made w)" "tp_next_id (take_endpoint t w) = of_nat (Suc (Suc (tp_made w)))"
    by (simp_all add: take_endpoint_def id)
  show ?thesis
    by (rule endpoints_okI [where k = ?k]; (unfold made)?) (rule refl, erule val, erule (2) inj)
qed

lemma endpoints_ok_fewer:
  assumes "endpoints_ok w" "tp_next_id w' = tp_next_id w" "tp_made w' = tp_made w"
    "\<And>t e. tp_endpoint w' t = Some e \<Longrightarrow> tp_endpoint w t = Some e"
  shows "endpoints_ok w'"
proof -
  from assms(1) obtain k where k: "\<And>t e. tp_endpoint w t = Some e \<Longrightarrow> k t < tp_made w \<and> e = wake_endpoint (of_nat (Suc (k t)))"
    "\<And>t u. tp_endpoint w t \<noteq> None \<Longrightarrow> tp_endpoint w u \<noteq> None \<Longrightarrow> k t = k u \<Longrightarrow> t = u" and id: "tp_next_id w = of_nat (Suc (tp_made w))"
    unfolding endpoints_ok_def by blast
  have sub: "tp_endpoint w t \<noteq> None" if "tp_endpoint w' t \<noteq> None" for t using that assms(4) by blast
  show ?thesis
    using id k(1) [OF assms(4)] k(2) [OF sub sub] by (intro endpoints_okI [where k = k]) (simp_all add: assms(2,3))
qed

lemma shared_context_ok:
  assumes "contexts_ok w" "shared_context (context_alive w) (tp_cached w) (tp_contexts w) = (c, cached, fresh)"
  shows "cached = Some c" "c < fresh" "tp_context w t = Some d \<Longrightarrow> d = c"
proof -
  have held: "tp_cached w = Some b" if "tp_context w t = Some b" for t b using assms(1) that by (simp add: contexts_ok_def)
  have below: "b < tp_contexts w" if "tp_cached w = Some b" for b using assms(1) that by (simp add: contexts_ok_def)
  have "cached = Some c \<and> c < fresh \<and> (tp_context w t = Some d \<longrightarrow> d = c)"
  proof (cases "\<exists>b. tp_cached w = Some b \<and> context_alive w b")
    case True
    then obtain b where b: "tp_cached w = Some b" "context_alive w b" by blast
    with assms(2) have "cached = Some c" "c = b" "fresh = tp_contexts w" by (auto simp: shared_context_def)
    with below [OF b(1)] held [of t d] b(1) show ?thesis by auto
  next
    case False
    with assms(2) have "cached = Some c" "c = tp_contexts w" "fresh = Suc c"
      by (auto simp: shared_context_def split: option.splits if_splits)
    moreover have "tp_context w t \<noteq> Some d" using False held [of t d] by (auto simp: context_alive_def)
    ultimately show ?thesis by simp
  qed
  then show "cached = Some c" "c < fresh" "tp_context w t = Some d \<Longrightarrow> d = c" by simp_all
qed

lemma open_wake_pair_ok:
  assumes "transports_ok w" "tp_endpoint w t \<noteq> None" "tp_context w t = None"
  shows "transports_ok (open_wake_pair thrown t w)"
proof -
  obtain c cached fresh where s: "shared_context (context_alive w) (tp_cached w) (tp_contexts w) = (c, cached, fresh)"
    by (metis surj_pair)
  have ok: "contexts_ok w" "endpoints_ok w" "\<And>t. tp_context w t \<noteq> None \<Longrightarrow> tp_endpoint w t \<noteq> None"
    using assms(1) by (auto simp: transports_ok_def)
  have "contexts_ok (open_wake_pair thrown t w)"
    using shared_context_ok [OF ok(1) s] by (auto simp: open_wake_pair_def s Let_def contexts_ok_def)
  moreover have "endpoints_ok (open_wake_pair thrown t w)"
    by (rule endpoints_ok_fewer [OF ok(2)]) (auto simp: open_wake_pair_def s Let_def split: if_splits)
  ultimately show ?thesis
    using ok(3) assms(2,3) by (auto simp: transports_ok_def open_wake_pair_def s Let_def)
qed

interpretation transport_life: inductive_invariant transports_init transport_step transports_ok
proof unfold_locales
  show "transports_ok w" if "transports_init w" for w
    using that by (simp add: transports_init_def transports_ok_def contexts_ok_def endpoints_ok_def)
  fix w w' assume inv: "transports_ok w" and step: "transport_step w w'"
  from step show "transports_ok w'"
  proof cases
    case (tp_take t)
    with inv take_endpoint_ok [of w t] show ?thesis
      by (auto simp: transports_ok_def contexts_ok_def take_endpoint_def)
  next
    case (tp_open t thrown)
    with inv show ?thesis by (simp add: open_wake_pair_ok)
  next
    case (tp_destroy t)
    have ok: "contexts_ok w" "endpoints_ok w" using inv by (simp_all add: transports_ok_def)
    have "endpoints_ok (destroy_transport t w)"
      by (rule endpoints_ok_fewer [OF ok(2)]) (auto simp: destroy_transport_def split: if_splits)
    moreover have "contexts_ok (destroy_transport t w)"
      by (rule contexts_ok_fewer [OF ok(1)]) (auto simp: destroy_transport_def split: if_splits)
    ultimately show ?thesis using inv tp_destroy by (simp add: transports_ok_def destroy_transport_def)
  qed
qed

section \<open>Property\<close>

text \<open>
  Property C27. All transports of a process share one context, however their constructions and destructions interleave and whichever of them
  fail: two transports in use hold the same context, so that their \<open>inproc\<close> endpoints are visible to each other; a transport opened
  while another one is in use gets that one's context, and one opened while none is in use gets a context that was never
  handed out before. As long as fewer than 2^64 - 1 transports have been made, no two of them have the same wake-up endpoint.
\<close>

theorem transports_share_context:
  assumes "reachable transports_init transport_step w"
  shows "(tp_context w t = Some c \<and> tp_context w u = Some d \<longrightarrow> c = d)
    \<and> (tp_context w t = Some c \<and> tp_context w u = None \<longrightarrow> tp_context (open_wake_pair False u w) u = Some c)
    \<and> ((\<forall>x. tp_context w x = None) \<longrightarrow>
         tp_context (open_wake_pair False u w) u = Some (tp_contexts w) \<and> (\<forall>e. tp_cached w = Some e \<longrightarrow> e < tp_contexts w))
    \<and> (tp_made w < 2 ^ 64 - 1 \<and> tp_endpoint w t = Some e \<and> tp_endpoint w u = Some e \<longrightarrow> t = u)"
proof (intro conjI impI)
  have ok: "contexts_ok w" "endpoints_ok w" using transport_life.reachable_inv [OF assms] by (auto simp: transports_ok_def)
  obtain b cached fresh where s: "shared_context (context_alive w) (tp_cached w) (tp_contexts w) = (b, cached, fresh)" by (metis surj_pair)
  show "c = d" if "tp_context w t = Some c \<and> tp_context w u = Some d" using that ok(1) unfolding contexts_ok_def by (metis option.inject)
  show "tp_context (open_wake_pair False u w) u = Some c" if "tp_context w t = Some c \<and> tp_context w u = None"
    using that shared_context_ok(3) [OF ok(1) s] by (auto simp: open_wake_pair_def s Let_def)
  show "tp_context (open_wake_pair False u w) u = Some (tp_contexts w)" if "\<forall>x. tp_context w x = None"
    using that by (simp add: open_wake_pair_def shared_context_def Let_def context_alive_def split: option.split)
  show "\<forall>e. tp_cached w = Some e \<longrightarrow> e < tp_contexts w" using ok(1) by (simp add: contexts_ok_def)
  assume e: "tp_made w < 2 ^ 64 - 1 \<and> tp_endpoint w t = Some e \<and> tp_endpoint w u = Some e"
  from ok(2) obtain k where k: "\<And>t e. tp_endpoint w t = Some e \<Longrightarrow> k t < tp_made w \<and> e = wake_endpoint (of_nat (Suc (k t)))"
    "\<And>t u. tp_endpoint w t \<noteq> None \<Longrightarrow> tp_endpoint w u \<noteq> None \<Longrightarrow> k t = k u \<Longrightarrow> t = u"
    unfolding endpoints_ok_def by blast
  have "(of_nat (Suc (k t)) :: uint64) = of_nat (Suc (k u))" using k(1) e by (metis wake_endpoint_inj)
  moreover have "Suc (k t) < 2 ^ 64" "Suc (k u) < 2 ^ 64" using k(1) e by fastforce+
  ultimately have "k t = k u" by (metis unat_of_nat_64 nat.inject)
  with k(2) e show "t = u" by simp
qed

section \<open>Witness\<close>

definition transports0 :: transports where
  "transports0 = \<lparr>tp_next_id = 1, tp_cached = None, tp_contexts = 0, tp_context = (\<lambda>_. None), tp_endpoint = (\<lambda>_. None), tp_made = 0\<rparr>"

definition transports1 :: transports where
  "transports1 = open_wake_pair False 1 (take_endpoint 2 (take_endpoint 1 transports0))"

lemma transports1_reachable: "reachable transports_init transport_step transports1"
proof -
  have "reachable transports_init transport_step transports0"
    by (rule reachable_init) (simp add: transports_init_def transports0_def)
  moreover have "transport_step transports0 (take_endpoint 1 transports0)"
    by (rule tp_take) (simp_all add: transports0_def)
  moreover have "transport_step (take_endpoint 1 transports0) (take_endpoint 2 (take_endpoint 1 transports0))"
    by (rule tp_take) (simp_all add: take_endpoint_def transports0_def)
  moreover have "transport_step (take_endpoint 2 (take_endpoint 1 transports0)) transports1"
    unfolding transports1_def by (rule tp_open) (simp_all add: take_endpoint_def transports0_def)
  ultimately show ?thesis by (meson reachable_step)
qed

theorem transports_share_context_witness:
  "tp_context transports1 1 = Some 0 \<and> tp_context (open_wake_pair False 2 transports1) 2 = Some 0"
proof -
  have "tp_context transports1 1 = Some 0" "tp_context transports1 2 = None"
    by (simp_all add: transports1_def open_wake_pair_def shared_context_def Let_def take_endpoint_def transports0_def)
  with transports_share_context [OF transports1_reachable, of 1 0 2] show ?thesis by simp
qed

end
