(* ===== verification/Relay.thy ===== *)
theory Relay
  imports Transport "HOL-Library.Sublist"
begin

text \<open>
  The relay actor (include/cas/zeromq_relay_actor.h, source/zeromq_relay_actor.cpp): the actor side of a
  connection to other processes, over any transport (the argument \<open>ops\<close>).

  \<^item> \<open>relay\<close> has the data members of \<open>zeromq_relay_actor\<close>. The unordered maps \<open>m_routes\<close>, \<open>m_outbound\<close> and
    \<open>m_pending_requests\<close> are association lists: their order stands for the unspecified iteration order.
  \<^item> What the relay tells other actors is collected in \<open>r_out\<close>, in the order of the \<open>tell\<close> calls; \<open>tell_safely\<close>
    differs from \<open>tell\<close> only in what happens to an exception of an inline receiver.
  \<^item> \<open>r_sent\<close> is the sequence of envelopes the transport accepted.
  \<^item> A time read from \<open>steady_clock\<close> is the argument \<open>now\<close>.
  \<^item> \<open>relay_turn\<close> is what \<open>process_next_message\<close> does before the message of the actor, \<open>relay_construct\<close>, \<open>relay_on_start_name\<close>
    and \<open>relay_on_stop\<close> also carry \<open>g_named_relay\<close>.
\<close>

section \<open>State\<close>

datatype relay_mode = Router | Dealer

datatype send_policy = Policy_queue | Policy_fail | Policy_drop

record recv_info =
  recv_source :: string
  recv_correlation_id :: uint64
  recv_data :: frame
  recv_content_type :: string
  recv_message_type :: string

datatype relay_msg =
    R_status bool string string nat nat size_t size_t
  | R_error string string int
  | R_recv recv_info

record pending_request =
  pr_requester :: actor_ptr
  pr_deadline :: time_point

record queued_send =
  qs_message :: envelope
  qs_sender :: "actor_ptr option"
  qs_deadline :: time_point

record 't relay =
  r_transport :: 't
  r_options :: transport_options
  r_mode :: relay_mode
  r_connected :: bool
  r_endpoint :: string
  r_request_timeout_ms :: int
  r_spin_before_block_us :: int
  r_routes :: "(string \<times> actor_ptr option) list"
  r_pending_requests :: "(uint64 \<times> pending_request) list"
  r_outbound :: "(string \<times> queued_send list) list"
  r_queued_sends :: size_t
  r_dropped_sends :: size_t
  r_send_policy :: send_policy
  r_max_queued_sends :: size_t
  r_default_route :: "actor_ptr option"
  r_out :: "(actor_ptr \<times> relay_msg) list"
  r_sent :: "envelope list"

record relay_config =
  rc_spin_before_block_us :: int
  rc_send_timeout_ms :: int
  rc_send_policy :: send_policy
  rc_max_queued_sends :: int
  rc_send_hwm :: int
  rc_recv_hwm :: int
  rc_recv_timeout_ms :: int
  rc_max_message_size :: int
  rc_auto_reconnect :: bool
  rc_reconnect_delay_ms :: int
  rc_request_timeout_ms :: int

definition int_to_string :: "int \<Rightarrow> string" where
  "int_to_string i = (if i < 0 then ''-'' @ to_string (nat (- i)) else to_string (nat i))"

definition k_max_recv_per_poll :: nat where
  "k_max_recv_per_poll = 256"

section \<open>Telling\<close>

definition tell_out :: "actor_ptr option \<Rightarrow> relay_msg \<Rightarrow> 't relay \<Rightarrow> 't relay" where
  "tell_out to m r = (case to of None \<Rightarrow> r | Some a \<Rightarrow> r\<lparr>r_out := r_out r @ [(a, m)]\<rparr>)"

fun tell_once :: "relay_msg \<Rightarrow> actor_ptr option list \<Rightarrow> actor_ptr list \<Rightarrow> 't relay \<Rightarrow> 't relay" where
  "tell_once err [] told r = r"
| "tell_once err (None # refs) told r = tell_once err refs told r"
| "tell_once err (Some a # refs) told r =
     (if a \<in> set told then tell_once err refs told r
      else tell_once err refs (told @ [a]) (tell_out (Some a) err r))"

definition send_error :: "string \<Rightarrow> int \<Rightarrow> actor_ptr option \<Rightarrow> 't relay \<Rightarrow> 't relay" where
  "send_error message code reply_to r =
     tell_once (R_error message (r_endpoint r) code) (reply_to # map snd (r_routes r) @ [r_default_route r]) [] r"

definition status_of :: "'t relay \<Rightarrow> relay_msg" where
  "status_of r = R_status (r_connected r) (r_endpoint r) (if r_mode r = Router then ''router'' else ''dealer'')
     (length (r_pending_requests r)) (length (r_routes r)) (r_queued_sends r) (r_dropped_sends r)"

definition on_status :: "actor_ptr option \<Rightarrow> 't relay \<Rightarrow> 't relay" where
  "on_status sndr r = tell_out sndr (status_of r) r"

section \<open>Sending\<close>

definition track_request :: "time_point \<Rightarrow> envelope \<Rightarrow> actor_ptr option \<Rightarrow> 't relay \<Rightarrow> 't relay" where
  "track_request now e sndr r =
     (case sndr of
        Some a \<Rightarrow>
          if env_correlation_id e \<noteq> 0
          then r\<lparr>r_pending_requests := AList.update (env_correlation_id e)
                  \<lparr>pr_requester = a, pr_deadline = now + r_request_timeout_ms r\<rparr> (r_pending_requests r)\<rparr>
          else r
      | None \<Rightarrow> r)"

definition held_for :: "string \<Rightarrow> 't relay \<Rightarrow> queued_send list" where
  "held_for peer r = (case map_of (r_outbound r) peer of Some q \<Rightarrow> q | None \<Rightarrow> [])"

definition full_message :: string where
  "full_message = ''Send failed: the peer is not keeping up (send queue at its high-water mark)''"

definition hold_or_report :: "time_point \<Rightarrow> envelope \<Rightarrow> actor_ptr option \<Rightarrow> 't relay \<Rightarrow> 't relay" where
  "hold_or_report now e sndr r =
     (case r_send_policy r of
        Policy_drop \<Rightarrow> r\<lparr>r_dropped_sends := r_dropped_sends r + 1\<rparr>
      | Policy_fail \<Rightarrow> send_error full_message EAGAIN sndr r
      | Policy_queue \<Rightarrow>
          if r_queued_sends r \<ge> r_max_queued_sends r
          then send_error (''Send failed: send queue full ('' @ to_string (unat (r_queued_sends r))
                 @ '' messages waiting for slow peers)'') EAGAIN sndr r
          else r\<lparr>r_outbound := AList.update (env_peer e)
                   (held_for (env_peer e) r @ [\<lparr>qs_message = e, qs_sender = sndr,
                      qs_deadline = now + opt_send_timeout_ms (r_options r)\<rparr>]) (r_outbound r),
                 r_queued_sends := r_queued_sends r + 1\<rparr>)"

definition send_or_hold :: "'t transport_ops \<Rightarrow> time_point \<Rightarrow> envelope \<Rightarrow> actor_ptr option \<Rightarrow> 't relay \<Rightarrow> 't relay" where
  "send_or_hold ops now e sndr r =
     (if held_for (env_peer e) r \<noteq> [] then hold_or_report now e sndr r
      else
        (case t_try_send ops e (r_transport r) of
           (Sent, t) \<Rightarrow> track_request now e sndr (r\<lparr>r_transport := t, r_sent := r_sent r @ [e]\<rparr>)
         | (Peer_full, t) \<Rightarrow> hold_or_report now e sndr (r\<lparr>r_transport := t\<rparr>)
         | (Send_throws x, t) \<Rightarrow>
             send_error (''Send failed: '' @ te_what x) (te_code x) sndr (r\<lparr>r_transport := t\<rparr>)))"

record send_request =
  sr_target :: string
  sr_correlation_id :: uint64
  sr_data :: frame
  sr_content_type :: string
  sr_message_type :: string

definition envelope_of :: "send_request \<Rightarrow> envelope" where
  "envelope_of m = \<lparr>env_peer = sr_target m, env_correlation_id = sr_correlation_id m,
     env_message_type = sr_message_type m, env_content_type = sr_content_type m, env_payload = sr_data m\<rparr>"

definition on_send :: "'t transport_ops \<Rightarrow> time_point \<Rightarrow> send_request \<Rightarrow> actor_ptr option \<Rightarrow> 't relay \<Rightarrow> 't relay" where
  "on_send ops now m sndr r =
     (if \<not> r_connected r then send_error ''Not connected'' 0 sndr r
      else if length (sr_data m) > nat (opt_max_message_size (r_options r) mod 2 ^ 64)
      then send_error (''Message too large: '' @ to_string (length (sr_data m))) 0 sndr r
      else if r_mode r = Router \<and> sr_target m = [] then send_error ''ROUTER mode requires target identity'' 0 sndr r
      else send_or_hold ops now (envelope_of m) sndr r)"

fun flush_queue :: "'t transport_ops \<Rightarrow> time_point \<Rightarrow> queued_send list \<Rightarrow> 't relay \<Rightarrow> queued_send list \<times> 't relay" where
  "flush_queue ops now [] r = ([], r)"
| "flush_queue ops now (front # queue) r =
     (if qs_deadline front \<le> now then
        flush_queue ops now queue
          ((send_error (''Send failed: timed out after '' @ int_to_string (opt_send_timeout_ms (r_options r))
              @ '' ms waiting for the peer'') ETIMEDOUT (qs_sender front) r)\<lparr>r_queued_sends := r_queued_sends r - 1\<rparr>)
      else
        (case t_try_send ops (qs_message front) (r_transport r) of
           (Peer_full, t) \<Rightarrow> (front # queue, r\<lparr>r_transport := t\<rparr>)
         | (Sent, t) \<Rightarrow>
             flush_queue ops now queue
               ((track_request now (qs_message front) (qs_sender front)
                   (r\<lparr>r_transport := t, r_sent := r_sent r @ [qs_message front]\<rparr>))\<lparr>r_queued_sends := r_queued_sends r - 1\<rparr>)
         | (Send_throws x, t) \<Rightarrow>
             flush_queue ops now queue
               ((send_error (''Send failed: '' @ te_what x) (te_code x) (qs_sender front)
                   (r\<lparr>r_transport := t\<rparr>))\<lparr>r_queued_sends := r_queued_sends r - 1\<rparr>)))"

fun flush_peers ::
  "'t transport_ops \<Rightarrow> time_point \<Rightarrow> (string \<times> queued_send list) list \<Rightarrow> 't relay \<Rightarrow> (string \<times> queued_send list) list \<times> 't relay" where
  "flush_peers ops now [] r = ([], r)"
| "flush_peers ops now ((peer, queue) # rest) r =
     (let (queue', r1) = flush_queue ops now queue r;
          (rest', r2) = flush_peers ops now rest r1
      in (if queue' = [] then rest' else (peer, queue') # rest', r2))"

definition flush_outbound :: "'t transport_ops \<Rightarrow> time_point \<Rightarrow> 't relay \<Rightarrow> bool \<times> 't relay" where
  "flush_outbound ops now r =
     (if r_queued_sends r = 0 then (False, r)
      else (let (out, r1) = flush_peers ops now (r_outbound r) r; r2 = r1\<lparr>r_outbound := out\<rparr>
            in (r_queued_sends r2 > 0, r2)))"

fun report_all :: "string \<Rightarrow> queued_send list \<Rightarrow> 't relay \<Rightarrow> 't relay" where
  "report_all reason [] r = r"
| "report_all reason (held # rest) r = report_all reason rest (send_error reason 0 (qs_sender held) r)"

definition fail_all_outbound :: "string \<Rightarrow> 't relay \<Rightarrow> 't relay" where
  "fail_all_outbound reason r =
     (report_all reason (concat (map snd (r_outbound r))) r)\<lparr>r_outbound := [], r_queued_sends := 0\<rparr>"

section \<open>Connecting\<close>

definition cleanup_socket :: "'t transport_ops \<Rightarrow> 't relay \<Rightarrow> 't relay" where
  "cleanup_socket ops r =
     (let r1 = fail_all_outbound ''Send failed: the relay closed its connection before the message was sent'' r
      in r1\<lparr>r_transport := t_close ops (r_transport r1), r_connected := False, r_pending_requests := []\<rparr>)"

definition open_connection ::
  "'t transport_ops \<Rightarrow> relay_mode \<Rightarrow> string \<Rightarrow> string \<Rightarrow> actor_ptr option \<Rightarrow> 't relay \<Rightarrow> 't relay" where
  "open_connection ops mode endpoint identity sndr r =
     (let r1 = r\<lparr>r_mode := mode, r_endpoint := endpoint, r_transport := t_configure ops (r_options r) (r_transport r)\<rparr>;
          (result, t) = (if mode = Dealer then t_connect ops endpoint identity (r_transport r1)
                         else t_bind ops endpoint (r_transport r1));
          r2 = r1\<lparr>r_transport := t\<rparr>
      in case result of
           None \<Rightarrow>
             tell_out sndr (R_status True endpoint (if mode = Dealer then ''dealer'' else ''router'') 0 0 0 0)
               (r2\<lparr>r_connected := True\<rparr>)
         | Some x \<Rightarrow>
             send_error ((if mode = Dealer then ''Connect failed: '' else ''Bind failed: '') @ te_what x) (te_code x) sndr
               (cleanup_socket ops r2))"

definition on_connect :: "'t transport_ops \<Rightarrow> string \<Rightarrow> string \<Rightarrow> actor_ptr option \<Rightarrow> 't relay \<Rightarrow> 't relay" where
  "on_connect ops endpoint identity sndr r =
     (if r_connected r then send_error (''Already connected to '' @ r_endpoint r) 0 sndr r
      else open_connection ops Dealer endpoint identity sndr r)"

definition on_bind :: "'t transport_ops \<Rightarrow> string \<Rightarrow> actor_ptr option \<Rightarrow> 't relay \<Rightarrow> 't relay" where
  "on_bind ops endpoint sndr r =
     (if r_connected r then send_error (''Already bound to '' @ r_endpoint r) 0 sndr r
      else open_connection ops Router endpoint [] sndr r)"

section \<open>Receiving\<close>

definition on_route :: "string \<Rightarrow> actor_ptr option \<Rightarrow> 't relay \<Rightarrow> 't relay" where
  "on_route mtype target r =
     (if mtype = [] then r\<lparr>r_default_route := target\<rparr>
      else r\<lparr>r_routes := AList.update mtype target (r_routes r)\<rparr>)"

definition recv_of :: "envelope \<Rightarrow> recv_info" where
  "recv_of e = \<lparr>recv_source = env_peer e, recv_correlation_id = env_correlation_id e, recv_data = env_payload e,
     recv_content_type = env_content_type e, recv_message_type = env_message_type e\<rparr>"

definition route_message :: "envelope \<Rightarrow> 't relay \<Rightarrow> 't relay" where
  "route_message e r =
     (let m = recv_of e in
      case (if recv_correlation_id m \<noteq> 0 then map_of (r_pending_requests r) (recv_correlation_id m) else None) of
        Some p \<Rightarrow>
          (tell_out (Some (pr_requester p)) (R_recv m) r)\<lparr>r_pending_requests :=
             AList.delete (recv_correlation_id m) (r_pending_requests r)\<rparr>
      | None \<Rightarrow>
          (case (if recv_message_type m \<noteq> [] then map_of (r_routes r) (recv_message_type m) else None) of
             Some (Some a) \<Rightarrow> tell_out (Some a) (R_recv m) r
           | _ \<Rightarrow> tell_out (r_default_route r) (R_recv m) r))"

definition report_transport_events :: "'t transport_ops \<Rightarrow> 't relay \<Rightarrow> 't relay" where
  "report_transport_events ops r =
     (let (evs, t) = t_drain_events ops (r_transport r)
      in fold (\<lambda>ev. send_error (ev_detail ev) (ev_code ev) None) evs (r\<lparr>r_transport := t\<rparr>))"

definition poll :: "'t transport_ops \<Rightarrow> 't relay \<Rightarrow> nat \<times> 't relay" where
  "poll ops r =
     (let (inbound, t) = t_receive ops k_max_recv_per_poll (r_transport r);
          r1 = report_transport_events ops (r\<lparr>r_transport := t\<rparr>)
      in (length inbound, fold route_message inbound r1))"

definition expire_pending_requests :: "time_point \<Rightarrow> 't relay \<Rightarrow> 't relay" where
  "expire_pending_requests now r =
     r\<lparr>r_pending_requests := filter (\<lambda>(c, p). \<not> pr_deadline p \<le> now) (r_pending_requests r)\<rparr>"

definition on_config :: "'t transport_ops \<Rightarrow> relay_config \<Rightarrow> 't relay \<Rightarrow> 't relay" where
  "on_config ops c r =
     (let opts = \<lparr>opt_send_timeout_ms = rc_send_timeout_ms c, opt_recv_timeout_ms = rc_recv_timeout_ms c,
            opt_max_message_size = rc_max_message_size c, opt_auto_reconnect = rc_auto_reconnect c,
            opt_reconnect_delay_ms = rc_reconnect_delay_ms c, opt_send_hwm = rc_send_hwm c, opt_recv_hwm = rc_recv_hwm c\<rparr>;
          r1 = r\<lparr>r_request_timeout_ms := rc_request_timeout_ms c, r_spin_before_block_us := rc_spin_before_block_us c,
                 r_send_policy := rc_send_policy c,
                 r_max_queued_sends := (if rc_max_queued_sends c > 0 then of_int (rc_max_queued_sends c) else - 1),
                 r_options := opts, r_transport := t_configure ops opts (r_transport r)\<rparr>
      in report_transport_events ops r1)"

definition relay_turn :: "'t transport_ops \<Rightarrow> time_point \<Rightarrow> 't relay \<Rightarrow> 't relay" where
  "relay_turn ops now r =
     (if r_connected r then snd (flush_outbound ops now (snd (poll ops r))) else r)"

section \<open>The well-known name\<close>

text \<open>\<open>g_named_relay\<close>: the relay that holds the registry name; every change of it is a \<open>compare_exchange_strong\<close>.\<close>

definition relay_init :: "'t \<Rightarrow> 't relay" where
  "relay_init t = \<lparr>r_transport = t, r_options = transport_options_init, r_mode = Router, r_connected = False, r_endpoint = [],
     r_request_timeout_ms = 30000, r_spin_before_block_us = 0, r_routes = [], r_pending_requests = [],
     r_outbound = [], r_queued_sends = 0, r_dropped_sends = 0, r_send_policy = Policy_queue, r_max_queued_sends = 10000,
     r_default_route = None, r_out = [], r_sent = []\<rparr>"

definition relay_construct :: "actor_ptr \<Rightarrow> 't \<Rightarrow> actor_ptr option \<Rightarrow> 't relay \<times> actor_ptr option" where
  "relay_construct self t named = (relay_init t, case named of None \<Rightarrow> Some self | Some a \<Rightarrow> Some a)"

definition release_name :: "actor_ptr \<Rightarrow> actor_ptr option \<Rightarrow> actor_ptr option" where
  "release_name self named = (if named = Some self then None else named)"

definition relay_on_start_name :: "actor_ptr \<Rightarrow> actor_ptr option \<Rightarrow> string option" where
  "relay_on_start_name self named = (if named = Some self then Some ''zeromq_relay'' else None)"

definition relay_on_stop ::
  "'t transport_ops \<Rightarrow> actor_ptr \<Rightarrow> actor_ptr option \<Rightarrow> 't relay \<Rightarrow> 't relay \<times> actor_ptr option" where
  "relay_on_stop ops self named r = (cleanup_socket ops r, release_name self named)"

section \<open>Waiting for work\<close>

definition k_idle_backstop :: millis where
  "k_idle_backstop = 100"

definition k_send_retry_interval :: millis where
  "k_send_retry_interval = 1"

text \<open>The first part of \<open>wait_for_work\<close>: whether sends are held, whether it returns at once, and the relay.\<close>

definition wait_prepare :: "'t transport_ops \<Rightarrow> time_point \<Rightarrow> 't relay \<Rightarrow> (bool \<times> bool) \<times> 't relay" where
  "wait_prepare ops now r =
     (let (holding, r1) = (if r_connected r then flush_outbound ops now r else (False, r));
          (n, r2) = (if r_connected r1 then poll ops r1 else (0, r1))
      in if n > 0 then ((holding, True), r2) else ((holding, False), expire_pending_requests now r2))"

text \<open>
  The spin: \<open>ready n\<close> is what the check for a message or a stop request answers at the \<open>n\<close>-th poll, \<open>clk n\<close> the
  time there, in microseconds. The result says whether \<open>wait_for_work\<close> returns.
\<close>

partial_function (option) spin_poll ::
  "'t transport_ops \<Rightarrow> (nat \<Rightarrow> bool) \<Rightarrow> (nat \<Rightarrow> int) \<Rightarrow> int \<Rightarrow> nat \<Rightarrow> 't relay \<Rightarrow> (bool \<times> 't relay) option" where
  "spin_poll ops ready clk until n r =
     (if ready n then Some (True, r)
      else
        (let (received, r1) = (if r_connected r then poll ops r else (0, r))
         in if received > 0 then Some (True, r1)
            else if r_spin_before_block_us r1 > 0 \<and> n mod 64 = 63 \<and> until \<le> clk n then Some (False, r1)
            else if r_spin_before_block_us r1 < 0 \<and> n \<ge> 1024 then Some (True, r1)
            else spin_poll ops ready clk until (Suc n) r1))"

definition spin_before_block ::
  "'t transport_ops \<Rightarrow> (nat \<Rightarrow> bool) \<Rightarrow> (nat \<Rightarrow> int) \<Rightarrow> 't relay \<Rightarrow> (bool \<times> 't relay) option" where
  "spin_before_block ops ready clk r =
     (if r_spin_before_block_us r \<noteq> 0 then spin_poll ops ready clk (clk 0 + r_spin_before_block_us r) 0 r
      else Some (False, r))"

text \<open>Before the blocking wait: whether it waits.\<close>

definition wait_block :: "stop_phase \<Rightarrow> mailbox \<Rightarrow> bool \<times> mailbox" where
  "wait_block phase mb =
     (let (blocked, mb1) = try_block mb
      in if \<not> blocked then (False, mb1)
         else if phase \<noteq> SP_none then (False, snd (try_unblock mb1))
         else (True, mb1))"

text \<open>
  The whole of \<open>wait_for_work\<close>. Other threads act on the mailbox while the relay spins and while it blocks:
  \<open>mb\<close> is the mailbox when it comes to the block, \<open>env\<close> what happens to it during the wait.
\<close>

definition wait_for_work ::
  "'t transport_ops \<Rightarrow> time_point \<Rightarrow> (nat \<Rightarrow> bool) \<Rightarrow> (nat \<Rightarrow> int) \<Rightarrow> stop_phase \<Rightarrow> (mailbox \<Rightarrow> mailbox) \<Rightarrow> mailbox \<Rightarrow> 't relay
     \<Rightarrow> (mailbox \<times> 't relay) option" where
  "wait_for_work ops now ready clk phase env mb r =
     (case wait_prepare ops now r of
        ((holding, True), r1) \<Rightarrow> Some (mb, r1)
      | ((holding, False), r1) \<Rightarrow>
          map_option (\<lambda>(returns, r2).
            if returns then (mb, r2)
            else
              (let (blocks, mb1) = wait_block phase mb
               in if \<not> blocks then (mb1, r2)
                  else
                    (let t = t_wait ops (if holding then k_send_retry_interval else k_idle_backstop) (r_transport r2)
                     in (snd (try_unblock (env mb1)), report_transport_events ops (r2\<lparr>r_transport := t\<rparr>)))))
            (spin_before_block ops ready clk r1))"

definition relay_wake :: "'t transport_ops \<Rightarrow> 't relay \<Rightarrow> 't relay" where
  "relay_wake ops r = r\<lparr>r_transport := t_wake ops (r_transport r)\<rparr>"

section \<open>What an operation leaves alone\<close>

definition sends_same :: "'t relay \<Rightarrow> 't relay \<Rightarrow> bool" where
  "sends_same r r' \<longleftrightarrow> r_outbound r' = r_outbound r \<and> r_queued_sends r' = r_queued_sends r \<and> r_sent r' = r_sent r
     \<and> r_dropped_sends r' = r_dropped_sends r"

lemma sends_same_refl: "sends_same r r"
  by (simp add: sends_same_def)

lemma sends_same_trans: "sends_same r r' \<Longrightarrow> sends_same r' r'' \<Longrightarrow> sends_same r r''"
  by (simp add: sends_same_def)

lemma tell_once_same: "sends_same r (tell_once err refs told r)"
  by (induction err refs told r rule: tell_once.induct) (auto simp: sends_same_def tell_out_def)

lemma send_error_same: "sends_same r (send_error m c to r)"
  by (simp add: send_error_def tell_once_same)

lemmas send_error_fields = send_error_same [unfolded sends_same_def]

lemma track_request_same: "sends_same r (track_request now e to r)"
  by (auto simp: track_request_def sends_same_def split: option.split)

lemmas track_request_fields = track_request_same [unfolded sends_same_def]

lemma route_message_same: "sends_same r (route_message e r)"
  by (auto simp: route_message_def Let_def sends_same_def tell_out_def split: option.split)

lemma fold_same:
  assumes "\<And>x r. sends_same r (f x r)"
  shows "sends_same r (fold f xs r)"
proof (induction xs arbitrary: r)
  case (Cons x xs)
  from sends_same_trans [OF assms Cons.IH] show ?case by simp
qed (simp add: sends_same_def)

lemma with_transport_same: "sends_same (r\<lparr>r_transport := t\<rparr>) r' \<longleftrightarrow> sends_same r r'"
  by (simp add: sends_same_def)

lemma report_events_same: "sends_same r (report_transport_events ops r)"
  unfolding report_transport_events_def case_prod_beta Let_def
  by (rule with_transport_same [THEN iffD1], rule fold_same, rule send_error_same)

lemma poll_same: "sends_same r (snd (poll ops r))"
  unfolding poll_def case_prod_beta Let_def snd_conv
  by (rule sends_same_trans [OF with_transport_same [THEN iffD1, OF report_events_same] fold_same [OF route_message_same]])

lemma on_config_same: "sends_same r (on_config ops c r)"
  by (simp add: sends_same_def on_config_def Let_def report_events_same [unfolded sends_same_def])

section \<open>Held sends\<close>

definition queue_of :: "(string \<times> queued_send list) list \<Rightarrow> string \<Rightarrow> queued_send list" where
  "queue_of out p = (case map_of out p of Some q \<Rightarrow> q | None \<Rightarrow> [])"

definition total_held :: "(string \<times> queued_send list) list \<Rightarrow> nat" where
  "total_held out = sum_list (map (length \<circ> snd) out)"

definition outbound_ok :: "(string \<times> queued_send list) list \<Rightarrow> bool" where
  "outbound_ok out \<longleftrightarrow> distinct (map fst out) \<and> (\<forall>(p, q) \<in> set out. \<forall>h \<in> set q. env_peer (qs_message h) = p)"

definition to_peer :: "string \<Rightarrow> envelope list \<Rightarrow> envelope list" where
  "to_peer p es = filter (\<lambda>e. env_peer e = p) es"

lemma to_peer_append [simp]: "to_peer p (xs @ ys) = to_peer p xs @ to_peer p ys"
  by (simp add: to_peer_def)

lemma held_for_queue_of: "held_for p r = queue_of (r_outbound r) p"
  by (simp add: held_for_def queue_of_def)

definition flushed :: "'t relay \<Rightarrow> queued_send list \<Rightarrow> queued_send list \<Rightarrow> 't relay \<Rightarrow> bool" where
  "flushed r q q' r' \<longleftrightarrow>
     (\<exists>es. r_sent r' = r_sent r @ es \<and> subseq (es @ map qs_message q') (map qs_message q)
        \<and> length q' \<le> length q \<and> set q' \<subseteq> set q
        \<and> r_queued_sends r' = r_queued_sends r - of_nat (length q - length q') \<and> r_outbound r' = r_outbound r)"

lemma flushed_step:
  assumes IH: "flushed rn queue q' r'"
    and rn: "r_sent rn = r_sent r @ out" "subseq out [qs_message front]"
      "r_queued_sends rn = r_queued_sends r - 1" "r_outbound rn = r_outbound r"
  shows "flushed r (front # queue) q' r'"
proof -
  obtain es where es: "r_sent r' = r_sent rn @ es" "subseq (es @ map qs_message q') (map qs_message queue)"
    "length q' \<le> length queue" "set q' \<subseteq> set queue"
    "r_queued_sends r' = r_queued_sends rn - of_nat (length queue - length q')" "r_outbound r' = r_outbound rn"
    using IH by (auto simp: flushed_def)
  have "subseq ((out @ es) @ map qs_message q') (map qs_message (front # queue))"
    using list_emb_append_mono [OF rn(2) es(2)] by simp
  moreover have "r_queued_sends r' = r_queued_sends r - of_nat (length (front # queue) - length q')"
    using es(3,5) rn(3) by (simp add: Suc_diff_le)
  ultimately show ?thesis
    unfolding flushed_def using es rn by (intro exI [of _ "out @ es"]) auto
qed

lemma flush_queue_effect: "flush_queue ops now q r = (q', r') \<Longrightarrow> flushed r q q' r'"
proof (induction ops now q r rule: flush_queue.induct)
  case (1 ops now r)
  then show ?case by (simp add: flushed_def)
next
  case (2 ops now front queue r)
  obtain res t where ts: "t_try_send ops (qs_message front) (r_transport r) = (res, t)"
    by (cases "t_try_send ops (qs_message front) (r_transport r)") auto
  consider (late) "qs_deadline front \<le> now" | (sent) "\<not> qs_deadline front \<le> now" "res = Sent"
    | (full) "\<not> qs_deadline front \<le> now" "res = Peer_full" | (throws) x where "\<not> qs_deadline front \<le> now" "res = Send_throws x"
    by (cases res) auto
  then show ?case
  proof cases
    case late
    with 2 have "flushed ((send_error (''Send failed: timed out after '' @ int_to_string (opt_send_timeout_ms (r_options r))
              @ '' ms waiting for the peer'') ETIMEDOUT (qs_sender front) r)\<lparr>r_queued_sends := r_queued_sends r - 1\<rparr>) queue q' r'"
      by (simp only: flush_queue.simps if_True)
    then show ?thesis by (rule flushed_step [where out = "[]"]) (simp_all add: send_error_fields)
  next
    case sent
    with 2 ts have "flushed ((track_request now (qs_message front) (qs_sender front)
          (r\<lparr>r_transport := t, r_sent := r_sent r @ [qs_message front]\<rparr>))\<lparr>r_queued_sends := r_queued_sends r - 1\<rparr>) queue q' r'"
      by simp
    then show ?thesis by (rule flushed_step [where out = "[qs_message front]"]) (simp_all add: track_request_fields)
  next
    case full
    with 2(4) ts have "q' = front # queue" "r' = r\<lparr>r_transport := t\<rparr>" by auto
    then show ?thesis by (simp add: flushed_def)
  next
    case throws
    with 2 ts have "flushed ((send_error (''Send failed: '' @ te_what x) (te_code x) (qs_sender front)
          (r\<lparr>r_transport := t\<rparr>))\<lparr>r_queued_sends := r_queued_sends r - 1\<rparr>) queue q' r'"
      by simp
    then show ?thesis by (rule flushed_step [where out = "[]"]) (simp_all add: send_error_fields)
  qed
qed

lemma to_peer_all: "\<forall>e \<in> set es. env_peer e = p \<Longrightarrow> to_peer p es = es"
  by (simp add: to_peer_def)

lemma to_peer_none: "\<forall>e \<in> set es. env_peer e \<noteq> p \<Longrightarrow> to_peer p es = []"
  by (simp add: to_peer_def)

lemma subseq_subset: "subseq xs ys \<Longrightarrow> set xs \<subseteq> set ys"
  by (induction rule: list_emb.induct) auto

lemma outbound_ok_Cons:
  "outbound_ok ((p, q) # out) \<longleftrightarrow>
     (p \<notin> fst ` set out \<and> (\<forall>h \<in> set q. env_peer (qs_message h) = p) \<and> outbound_ok out)"
  by (auto simp: outbound_ok_def)

lemma queue_of_Cons: "queue_of ((p, q) # out) x = (if x = p then q else queue_of out x)"
  by (simp add: queue_of_def)

lemma queue_of_absent: "p \<notin> fst ` set out \<Longrightarrow> queue_of out p = []"
  by (simp add: queue_of_def map_of_eq_None_iff [THEN iffD2])

lemma total_held_Cons [simp]: "total_held ((p, q) # out) = length q + total_held out"
  by (simp add: total_held_def)

lemma total_held_Nil [simp]: "total_held [] = 0"
  by (simp add: total_held_def)

text \<open>What flushing every queue does: what it sends and still holds of a peer's messages is in their order.\<close>

definition peers_flushed where
  "peers_flushed r out out' r' \<longleftrightarrow>
     (\<exists>es. r_sent r' = r_sent r @ es
        \<and> (\<forall>p. subseq (to_peer p es @ map qs_message (queue_of out' p)) (map qs_message (queue_of out p)))
        \<and> outbound_ok out' \<and> fst ` set out' \<subseteq> fst ` set out \<and> total_held out' \<le> total_held out
        \<and> r_queued_sends r' = r_queued_sends r - of_nat (total_held out - total_held out')
        \<and> r_outbound r' = r_outbound r)"

lemma peers_flushed_step:
  assumes q: "flushed r queue queue' rn" and rest: "peers_flushed rn out out' r'" and ok: "outbound_ok ((peer, queue) # out)"
  shows "peers_flushed r ((peer, queue) # out) (if queue' = [] then out' else (peer, queue') # out') r'"
proof -
  obtain es where es: "r_sent rn = r_sent r @ es" "subseq (es @ map qs_message queue') (map qs_message queue)"
    "length queue' \<le> length queue" "set queue' \<subseteq> set queue"
    "r_queued_sends rn = r_queued_sends r - of_nat (length queue - length queue')" "r_outbound rn = r_outbound r"
    using q by (auto simp: flushed_def)
  obtain fs where fs: "r_sent r' = r_sent rn @ fs"
    "\<And>p. subseq (to_peer p fs @ map qs_message (queue_of out' p)) (map qs_message (queue_of out p))"
    "outbound_ok out'" "fst ` set out' \<subseteq> fst ` set out" "total_held out' \<le> total_held out"
    "r_queued_sends r' = r_queued_sends rn - of_nat (total_held out - total_held out')" "r_outbound r' = r_outbound rn"
    using rest by (auto simp: peers_flushed_def)
  have new: "peer \<notin> fst ` set out" "peer \<notin> fst ` set out'" and mine: "\<forall>h \<in> set queue. env_peer (qs_message h) = peer"
    using ok fs(4) by (auto simp: outbound_ok_Cons)
  have "set es \<subseteq> qs_message ` set queue" using subseq_subset [OF es(2)] by auto
  then have to_es: "to_peer p es = (if p = peer then es else [])" for p
    using mine by (auto intro!: to_peer_all to_peer_none)
  have "to_peer peer fs = []" using fs(2) [of peer] queue_of_absent [OF new(1)] subseq_subset by fastforce
  then have order: "subseq (to_peer p (es @ fs) @ map qs_message (queue_of (if queue' = [] then out' else (peer, queue') # out') p))
      (map qs_message (queue_of ((peer, queue) # out) p))" for p
    using es(2) fs(2) [of p] queue_of_absent [OF new(2)] by (auto simp: to_es queue_of_Cons)
  have held: "total_held (if queue' = [] then out' else (peer, queue') # out') = length queue' + total_held out'" by simp
  have "(length queue + total_held out) - (length queue' + total_held out')
      = (length queue - length queue') + (total_held out - total_held out')"
    using es(3) fs(5) by linarith
  then have "r_queued_sends r' = r_queued_sends r - of_nat ((length queue + total_held out) - (length queue' + total_held out'))"
    using es(5) fs(6) by (simp only: of_nat_add) (simp add: algebra_simps)
  moreover have "outbound_ok (if queue' = [] then out' else (peer, queue') # out')"
    using fs(3) new(2) mine es(4) by (auto simp: outbound_ok_Cons)
  ultimately show ?thesis
    unfolding peers_flushed_def held total_held_Cons
    using order es(1,3,6) fs(1,4,5,7) by (intro exI [of _ "es @ fs"]) auto
qed

lemma flush_peers_effect: "flush_peers ops now out r = (out', r') \<Longrightarrow> outbound_ok out \<Longrightarrow> peers_flushed r out out' r'"
proof (induction out arbitrary: out' r)
  case Nil
  then show ?case by (simp add: peers_flushed_def to_peer_def)
next
  case (Cons pq out)
  obtain peer queue where pq: "pq = (peer, queue)" by fastforce
  obtain queue' rn where q: "flush_queue ops now queue r = (queue', rn)" by fastforce
  obtain rest' r2 where rest: "flush_peers ops now out rn = (rest', r2)" by fastforce
  have eq: "r2 = r'" and out': "out' = (if queue' = [] then rest' else (peer, queue') # rest')"
    using Cons.prems(1) by (auto simp: pq q rest)
  have "peers_flushed rn out rest' r'"
    using Cons.IH [OF rest [unfolded eq]] Cons.prems(2) by (simp add: pq outbound_ok_Cons)
  with flush_queue_effect [OF q] Cons.prems(2) show ?case
    unfolding pq out' by (intro peers_flushed_step)
qed

section \<open>The relay keeps each peer's order\<close>

text \<open>A state paired with every envelope the relay was asked to send, in the order of the requests.\<close>

inductive relay_step :: "'t transport_ops \<Rightarrow> 't relay \<times> envelope list \<Rightarrow> 't relay \<times> envelope list \<Rightarrow> bool" for ops where
  send: "relay_step ops (r, sub) (on_send ops now m sndr r, sub @ [envelope_of m])"
| connect: "relay_step ops (r, sub) (on_connect ops endpoint identity sndr r, sub)"
| bind: "relay_step ops (r, sub) (on_bind ops endpoint sndr r, sub)"
| route: "relay_step ops (r, sub) (on_route mtype target r, sub)"
| config: "relay_step ops (r, sub) (on_config ops c r, sub)"
| status: "relay_step ops (r, sub) (on_status sndr r, sub)"
| turn: "relay_step ops (r, sub) (relay_turn ops now r, sub)"
| idle: "wait_for_work ops now ready clk phase env mb r = Some (mb', r') \<Longrightarrow> relay_step ops (r, sub) (r', sub)"
| wake: "relay_step ops (r, sub) (relay_wake ops r, sub)"
| stop: "relay_step ops (r, sub) (fst (relay_on_stop ops self named r), sub)"

inductive_cases relay_stepE: "relay_step ops s t"

definition relay_fresh :: "'t relay \<times> envelope list \<Rightarrow> bool" where
  "relay_fresh s \<longleftrightarrow> (case s of (r, sub) \<Rightarrow> r_outbound r = [] \<and> r_queued_sends r = 0 \<and> r_sent r = [] \<and> sub = [])"

definition in_order :: "'t relay \<Rightarrow> envelope list \<Rightarrow> bool" where
  "in_order r sub \<longleftrightarrow>
     (\<forall>p. subseq (to_peer p (r_sent r) @ map qs_message (queue_of (r_outbound r) p)) (to_peer p sub))"

definition held_counted :: "'t relay \<Rightarrow> bool" where
  "held_counted r \<longleftrightarrow> outbound_ok (r_outbound r) \<and> unat (r_queued_sends r) = total_held (r_outbound r)"

definition relay_ok :: "'t relay \<times> envelope list \<Rightarrow> bool" where
  "relay_ok s \<longleftrightarrow> (case s of (r, sub) \<Rightarrow> held_counted r \<and> in_order r sub)"

lemma relay_ok_same: "relay_ok (r, sub) \<Longrightarrow> sends_same r r' \<Longrightarrow> relay_ok (r', sub)"
  by (simp add: relay_ok_def held_counted_def in_order_def sends_same_def)

lemma relay_ok_more: "relay_ok (r, sub) \<Longrightarrow> relay_ok (r, sub @ [e])"
  by (auto simp: relay_ok_def in_order_def intro: subseq_order.trans [OF _ list_emb_append2] subseq_rev_drop_many)

lemma queue_of_update: "queue_of (AList.update p q out) x = (if x = p then q else queue_of out x)"
  by (simp add: queue_of_def update_conv)

lemma total_held_update: "total_held (AList.update p (queue_of out p @ [h]) out) = Suc (total_held out)"
  by (induction out) (auto simp: queue_of_def)

lemma outbound_ok_update:
  assumes "outbound_ok out" and "\<forall>h \<in> set q. env_peer (qs_message h) = p"
  shows "outbound_ok (AList.update p q out)"
  using assms by (induction out) (auto simp: outbound_ok_Cons dom_update outbound_ok_def)

lemma queue_of_peer: "outbound_ok out \<Longrightarrow> h \<in> set (queue_of out p) \<Longrightarrow> env_peer (qs_message h) = p"
  by (auto simp: outbound_ok_def queue_of_def split: option.splits dest!: map_of_SomeD)

lemma unat_succ_below:
  fixes x :: size_t
  assumes "x < y"
  shows "unat (x + 1) = Suc (unat x)"
proof -
  have "unat x + 1 < 2 ^ 64" using assms unsigned_less [where ?'a = nat, of y] by (simp add: word_less_nat_alt)
  then show ?thesis by (simp add: unat_word_ariths(1))
qed

lemma hold_or_report_ok:
  assumes ok: "relay_ok (r, sub)"
  shows "relay_ok (hold_or_report now e sndr r, sub @ [e])"
proof -
  define h where "h = \<lparr>qs_message = e, qs_sender = sndr, qs_deadline = now + opt_send_timeout_ms (r_options r)\<rparr>"
  consider (unheld) "r_outbound (hold_or_report now e sndr r) = r_outbound r" "r_sent (hold_or_report now e sndr r) = r_sent r"
      "r_queued_sends (hold_or_report now e sndr r) = r_queued_sends r"
    | (held) "r_queued_sends r < r_max_queued_sends r" "r_queued_sends (hold_or_report now e sndr r) = r_queued_sends r + 1"
      "r_outbound (hold_or_report now e sndr r) = AList.update (env_peer e) (queue_of (r_outbound r) (env_peer e) @ [h]) (r_outbound r)"
      "r_sent (hold_or_report now e sndr r) = r_sent r"
    by (cases "r_send_policy r"; cases "r_max_queued_sends r \<le> r_queued_sends r")
      (auto simp: hold_or_report_def send_error_fields h_def held_for_queue_of not_le)
  then show ?thesis
  proof cases
    case unheld
    then have "relay_ok (hold_or_report now e sndr r, sub)"
      using ok by (simp add: relay_ok_def held_counted_def in_order_def)
    then show ?thesis by (rule relay_ok_more)
  next
    case held
    have "unat (r_queued_sends r + 1) = Suc (total_held (r_outbound r))"
      using ok unat_succ_below [OF held(1)] by (simp add: relay_ok_def held_counted_def)
    moreover have "outbound_ok (AList.update (env_peer e) (queue_of (r_outbound r) (env_peer e) @ [h]) (r_outbound r))"
      using ok by (intro outbound_ok_update) (auto simp: relay_ok_def held_counted_def h_def dest: queue_of_peer)
    ultimately have "held_counted (hold_or_report now e sndr r)"
      by (simp add: held_counted_def held total_held_update)
    moreover have "in_order (hold_or_report now e sndr r) (sub @ [e])"
      unfolding in_order_def
    proof
      fix p
      have "subseq (to_peer p (r_sent r) @ map qs_message (queue_of (r_outbound r) p)) (to_peer p sub)"
        using ok by (simp add: relay_ok_def in_order_def)
      from list_emb_append_mono [OF this subseq_order.refl [of "to_peer p [e]"]]
      show "subseq (to_peer p (r_sent (hold_or_report now e sndr r))
          @ map qs_message (queue_of (r_outbound (hold_or_report now e sndr r)) p)) (to_peer p (sub @ [e]))"
        by (auto simp: held queue_of_update to_peer_def h_def)
    qed
    ultimately show ?thesis by (simp add: relay_ok_def)
  qed
qed

lemma send_or_hold_ok:
  assumes ok: "relay_ok (r, sub)"
  shows "relay_ok (send_or_hold ops now e sndr r, sub @ [e])"
proof (cases "held_for (env_peer e) r = []")
  case False
  then show ?thesis using ok by (simp add: send_or_hold_def hold_or_report_ok)
next
  case True
  obtain res t where ts: "t_try_send ops e (r_transport r) = (res, t)"
    by (cases "t_try_send ops e (r_transport r)") auto
  have okt: "relay_ok (r\<lparr>r_transport := t\<rparr>, sub)"
    by (rule relay_ok_same [OF ok]) (simp add: sends_same_def)
  show ?thesis
  proof (cases res)
    case Sent
    let ?r = "r\<lparr>r_transport := t, r_sent := r_sent r @ [e]\<rparr>"
    have "subseq (to_peer p (r_sent ?r) @ map qs_message (queue_of (r_outbound ?r) p)) (to_peer p (sub @ [e]))" for p
    proof (cases "p = env_peer e")
      case True
      have "subseq (to_peer p (r_sent r)) (to_peer p sub)"
        using ok True \<open>held_for (env_peer e) r = []\<close> by (auto simp: relay_ok_def in_order_def held_for_queue_of dest: spec [of _ p])
      then show ?thesis
        using True \<open>held_for (env_peer e) r = []\<close> by (simp add: to_peer_def held_for_queue_of)
    next
      case False
      then show ?thesis using ok by (simp add: relay_ok_def in_order_def to_peer_def)
    qed
    then have "relay_ok (?r, sub @ [e])" using ok by (simp add: relay_ok_def in_order_def held_counted_def)
    then show ?thesis
      using Sent True ts relay_ok_same [OF _ track_request_same] by (simp add: send_or_hold_def)
  next
    case Peer_full
    then show ?thesis using True ts hold_or_report_ok [OF okt] by (simp add: send_or_hold_def)
  next
    case (Send_throws x)
    then show ?thesis
      using True ts relay_ok_same [OF relay_ok_more [OF okt] send_error_same] by (simp add: send_or_hold_def)
  qed
qed

lemma on_send_ok:
  assumes "relay_ok (r, sub)"
  shows "relay_ok (on_send ops now m sndr r, sub @ [envelope_of m])"
  using send_or_hold_ok [OF assms] relay_ok_same [OF relay_ok_more [OF assms] send_error_same]
  by (simp add: on_send_def)

lemma report_all_same: "sends_same r (report_all reason hs r)"
proof (induction hs arbitrary: r)
  case (Cons h hs)
  from sends_same_trans [OF send_error_same Cons.IH] show ?case by simp
qed (simp add: sends_same_def)

lemma cleanup_socket_ok:
  assumes "relay_ok (r, sub)"
  shows "relay_ok (cleanup_socket ops r, sub)"
proof -
  let ?r = "report_all ''Send failed: the relay closed its connection before the message was sent''
    (concat (map snd (r_outbound r))) r"
  have "r_sent ?r = r_sent r" by (simp add: report_all_same [unfolded sends_same_def])
  moreover have "subseq (to_peer p (r_sent r)) (to_peer p sub)" for p
    using assms subseq_order.trans [OF list_emb_prefix [OF subseq_order.refl]] by (simp add: relay_ok_def in_order_def) blast
  ultimately show ?thesis
    by (simp add: relay_ok_def held_counted_def in_order_def outbound_ok_def queue_of_def cleanup_socket_def fail_all_outbound_def)
qed

lemma open_connection_ok:
  assumes "relay_ok (r, sub)"
  shows "relay_ok (open_connection ops mode endpoint identity sndr r, sub)"
proof -
  define rn where "rn = r\<lparr>r_mode := mode, r_endpoint := endpoint, r_transport := t_configure ops (r_options r) (r_transport r)\<rparr>"
  obtain result t where res: "(if mode = Dealer then t_connect ops endpoint identity (r_transport rn)
      else t_bind ops endpoint (r_transport rn)) = (result, t)" by fastforce
  define rm where "rm = rn\<lparr>r_transport := t\<rparr>"
  have ok: "relay_ok (rm, sub)" by (rule relay_ok_same [OF assms]) (simp add: sends_same_def rm_def rn_def)
  have "open_connection ops mode endpoint identity sndr r =
      (case result of
         None \<Rightarrow> tell_out sndr (R_status True endpoint (if mode = Dealer then ''dealer'' else ''router'') 0 0 0 0)
               (rm\<lparr>r_connected := True\<rparr>)
       | Some x \<Rightarrow> send_error ((if mode = Dealer then ''Connect failed: '' else ''Bind failed: '') @ te_what x) (te_code x) sndr
             (cleanup_socket ops rm))"
    using res unfolding open_connection_def Let_def rm_def rn_def by (simp only: prod.case)
  moreover have "sends_same rm (tell_out sndr msg (rm\<lparr>r_connected := True\<rparr>))" for msg
    by (simp add: sends_same_def tell_out_def split: option.split)
  ultimately show ?thesis
    using relay_ok_same [OF ok] relay_ok_same [OF cleanup_socket_ok [OF ok] send_error_same]
    by (cases result) simp_all
qed

lemma flush_outbound_ok:
  assumes ok: "relay_ok (r, sub)"
  shows "relay_ok (snd (flush_outbound ops now r), sub)"
proof (cases "r_queued_sends r = 0")
  case True
  then show ?thesis using ok by (simp add: flush_outbound_def)
next
  case False
  obtain out' r' where f: "flush_peers ops now (r_outbound r) r = (out', r')" by fastforce
  have obk: "outbound_ok (r_outbound r)" and n: "unat (r_queued_sends r) = total_held (r_outbound r)" and ord: "in_order r sub"
    using ok by (simp_all add: relay_ok_def held_counted_def)
  obtain es where es: "r_sent r' = r_sent r @ es"
    "\<And>p. subseq (to_peer p es @ map qs_message (queue_of out' p)) (map qs_message (queue_of (r_outbound r) p))"
    "outbound_ok out'" "total_held out' \<le> total_held (r_outbound r)"
    "r_queued_sends r' = r_queued_sends r - of_nat (total_held (r_outbound r) - total_held out')"
    using flush_peers_effect [OF f obk] by (auto simp: peers_flushed_def)
  have "r_queued_sends r = of_nat (total_held (r_outbound r))" by (simp add: n [symmetric])
  then have "r_queued_sends r' = of_nat (total_held out')" using es(4,5) by (simp add: of_nat_diff)
  moreover have "total_held out' < 2 ^ 64"
    using es(4) n unsigned_less [where ?'a = nat, of "r_queued_sends r"] by simp
  ultimately have "unat (r_queued_sends r') = total_held out'" by (simp add: unat_of_nat_64)
  moreover have "in_order (r'\<lparr>r_outbound := out'\<rparr>) sub"
    unfolding in_order_def
  proof
    fix p
    have "subseq (to_peer p (r_sent r) @ (to_peer p es @ map qs_message (queue_of out' p)))
        (to_peer p (r_sent r) @ map qs_message (queue_of (r_outbound r) p))"
      using es(2) by (intro list_emb_append_mono) simp_all
    moreover have "subseq (to_peer p (r_sent r) @ map qs_message (queue_of (r_outbound r) p)) (to_peer p sub)"
      using ord by (simp add: in_order_def)
    ultimately show "subseq (to_peer p (r_sent (r'\<lparr>r_outbound := out'\<rparr>))
        @ map qs_message (queue_of (r_outbound (r'\<lparr>r_outbound := out'\<rparr>)) p)) (to_peer p sub)"
      using subseq_order.trans by (fastforce simp: es(1))
  qed
  ultimately show ?thesis
    using False es(3) by (simp add: flush_outbound_def f relay_ok_def held_counted_def)
qed

lemma wait_prepare_ok: "relay_ok (r, sub) \<Longrightarrow> relay_ok (snd (wait_prepare ops now r), sub)"
proof -
  assume ok: "relay_ok (r, sub)"
  obtain holding rn where f: "(if r_connected r then flush_outbound ops now r else (False, r)) = (holding, rn)" by fastforce
  obtain n rm where p: "(if r_connected rn then poll ops rn else (0, rn)) = (n, rm)" by fastforce
  have "relay_ok (rn, sub)" using f ok flush_outbound_ok [OF ok, of ops now] by (auto split: if_splits)
  moreover have "sends_same rn rm" using p poll_same [of rn ops] by (auto simp: sends_same_def split: if_splits)
  ultimately have "relay_ok (rm, sub)" by (rule relay_ok_same)
  moreover have "sends_same rm (expire_pending_requests now rm)" by (simp add: sends_same_def expire_pending_requests_def)
  ultimately show ?thesis using f p by (simp add: wait_prepare_def relay_ok_same)
qed

text \<open>What every poll does, the spin does.\<close>

lemma spin_poll_relates:
  assumes spin: "spin_poll ops ready clk until n r = Some y"
    and refl: "\<And>r. R r r" and trans: "\<And>r r' r''. R r r' \<Longrightarrow> R r' r'' \<Longrightarrow> R r r''" and poll: "\<And>r. R r (snd (poll ops r))"
  shows "R r (snd y)"
proof -
  let ?P = "\<lambda>ops. \<forall>r. R r (snd (poll ops r))"
  have "?P ops \<longrightarrow> R r (snd y)"
  proof (rule spin_poll.raw_induct [OF _ spin, where P = "\<lambda>ops ready clk until n r y. ?P ops \<longrightarrow> R r (snd y)"])
    fix f :: "'a transport_ops \<Rightarrow> (nat \<Rightarrow> bool) \<Rightarrow> (nat \<Rightarrow> int) \<Rightarrow> int \<Rightarrow> nat \<Rightarrow> 'a relay \<Rightarrow> (bool \<times> 'a relay) option"
    fix ops ready clk until n r y
    assume IH: "\<And>ops ready clk until n r y. f ops ready clk until n r = Some y \<Longrightarrow> ?P ops \<longrightarrow> R r (snd y)"
      and body: "(if ready n then Some (True, r)
        else let (received, r1) = if r_connected r then poll ops r else (0, r)
             in if 0 < received then Some (True, r1)
                else if 0 < r_spin_before_block_us r1 \<and> n mod 64 = 63 \<and> until \<le> clk n then Some (False, r1)
                else if r_spin_before_block_us r1 < 0 \<and> 1024 \<le> n then Some (True, r1)
                else f ops ready clk until (Suc n) r1) = Some y"
    obtain k rn where p: "(if r_connected r then poll ops r else (0, r)) = (k, rn)" by fastforce
    show "?P ops \<longrightarrow> R r (snd y)"
    proof
      assume ops: "?P ops"
      have step: "R r rn" using p ops [rule_format, of r] refl by (auto split: if_splits)
      have "snd y = r \<or> snd y = rn \<or> R rn (snd y)"
        using body ops unfolding p Let_def prod.case by (auto split: if_splits dest: IH)
      then show "R r (snd y)" using step refl trans [OF step] by auto
    qed
  qed
  with poll show ?thesis by blast
qed

lemma spin_before_block_relates:
  assumes "spin_before_block ops ready clk r = Some y"
    and "\<And>r. R r r" "\<And>r r' r''. R r r' \<Longrightarrow> R r' r'' \<Longrightarrow> R r r''" "\<And>r. R r (snd (poll ops r))"
  shows "R r (snd y)"
proof (cases "r_spin_before_block_us r = 0")
  case True
  with assms(1,2) show ?thesis by (auto simp: spin_before_block_def)
next
  case False
  with assms(1) have "spin_poll ops ready clk (clk 0 + r_spin_before_block_us r) 0 r = Some y" by (simp add: spin_before_block_def)
  then show ?thesis by (rule spin_poll_relates [where R = R]) (fact assms(2-4))+
qed

lemma wait_for_work_parts:
  assumes "wait_for_work ops now ready clk phase env mb r = Some (mb', r')"
  obtains "r' = snd (wait_prepare ops now r)"
  | b rm where "spin_before_block ops ready clk (snd (wait_prepare ops now r)) = Some (b, rm)"
      "r' = rm \<or> (\<exists>timeout. r' = report_transport_events ops (rm\<lparr>r_transport := t_wait ops timeout (r_transport rm)\<rparr>))"
proof -
  obtain holding ret rn where p: "wait_prepare ops now r = ((holding, ret), rn)" by (metis surj_pair)
  show ?thesis
  proof (cases ret)
    case True
    with assms p show ?thesis by (intro that(1)) (simp add: wait_for_work_def)
  next
    case False
    then obtain b rm where "spin_before_block ops ready clk rn = Some (b, rm)"
      "r' = rm \<or> (\<exists>timeout. r' = report_transport_events ops (rm\<lparr>r_transport := t_wait ops timeout (r_transport rm)\<rparr>))"
      using assms p by (auto simp: wait_for_work_def Let_def split: if_splits prod.splits)
    with p show ?thesis by (intro that(2)) simp_all
  qed
qed

lemma wait_for_work_ok:
  assumes ok: "relay_ok (r, sub)" and w: "wait_for_work ops now ready clk phase env mb r = Some (mb', r')"
  shows "relay_ok (r', sub)"
  using w
proof (cases rule: wait_for_work_parts)
  case 1
  with wait_prepare_ok [OF ok] show ?thesis by simp
next
  case (2 b rm)
  have "sends_same (snd (wait_prepare ops now r)) rm"
    using spin_before_block_relates [OF 2(1), where R = sends_same] sends_same_refl sends_same_trans poll_same by fastforce
  then have okm: "relay_ok (rm, sub)" by (rule relay_ok_same [OF wait_prepare_ok [OF ok]])
  have "relay_ok (report_transport_events ops (rm\<lparr>r_transport := t\<rparr>), sub)" for t
    by (rule relay_ok_same [OF okm]) (rule with_transport_same [THEN iffD1, OF report_events_same])
  with 2(2) okm show ?thesis by auto
qed

lemma relay_turn_ok: "relay_ok (r, sub) \<Longrightarrow> relay_ok (relay_turn ops now r, sub)"
  by (simp add: relay_turn_def flush_outbound_ok relay_ok_same [OF _ poll_same])

interpretation relay_machine: inductive_invariant relay_fresh "relay_step ops" relay_ok for ops
proof unfold_locales
  show "relay_ok s" if "relay_fresh s" for s :: "'a relay \<times> envelope list"
    using that by (auto simp: relay_fresh_def relay_ok_def held_counted_def in_order_def outbound_ok_def queue_of_def to_peer_def)
  show "relay_ok t" if "relay_ok s" "relay_step ops s t" for s t
    using that(2,1)
  proof cases
    case (connect r sub endpoint identity sndr)
    with that show ?thesis by (simp add: on_connect_def open_connection_ok relay_ok_same [OF _ send_error_same])
  next
    case (bind r sub endpoint sndr)
    with that show ?thesis by (simp add: on_bind_def open_connection_ok relay_ok_same [OF _ send_error_same])
  next
    case (route r sub mtype target)
    with that show ?thesis by (auto simp: on_route_def sends_same_def intro: relay_ok_same)
  next
    case (status r sub sndr)
    with that show ?thesis by (auto simp: on_status_def tell_out_def sends_same_def split: option.split intro: relay_ok_same)
  next
    case (send r sub now m sndr)
    with that show ?thesis by (simp add: on_send_ok)
  next
    case (config r sub c)
    with that show ?thesis by (simp add: relay_ok_same [OF _ on_config_same])
  next
    case (turn r sub now)
    with that show ?thesis by (simp add: relay_turn_ok)
  next
    case (idle now ready clk phase env mb r mb' r' sub)
    with that show ?thesis by (blast intro: wait_for_work_ok)
  next
    case (wake r sub)
    with that show ?thesis by (auto simp: relay_wake_def sends_same_def intro: relay_ok_same)
  next
    case (stop r sub self named)
    with that show ?thesis by (simp add: relay_on_stop_def cleanup_socket_ok)
  qed
qed

section \<open>Errors and replies\<close>

lemma tell_once_out:
  "\<exists>as. r_out (tell_once err refs told r) = r_out r @ map (\<lambda>a. (a, err)) as \<and> distinct as
     \<and> set as = {a. Some a \<in> set refs} - set told"
proof (induction err refs told r rule: tell_once.induct)
  case (3 err a refs told r)
  show ?case
  proof (cases "a \<in> set told")
    case True
    with 3(1) show ?thesis by auto
  next
    case False
    from 3(2) [OF False] obtain as where
      "r_out (tell_once err refs (told @ [a]) (tell_out (Some a) err r)) = (r_out r @ [(a, err)]) @ map (\<lambda>a. (a, err)) as"
      "distinct as" "set as = {b. Some b \<in> set refs} - set (told @ [a])"
      by (auto simp: tell_out_def)
    with False show ?thesis by (intro exI [of _ "a # as"]) auto
  qed
qed auto

text \<open>The sender of \<open>err\<close> and every route are told once each.\<close>

definition reported :: "'t relay \<Rightarrow> actor_ptr option \<Rightarrow> 't relay \<Rightarrow> bool" where
  "reported r sndr r' \<longleftrightarrow>
     (\<exists>m c as. r_out r' = r_out r @ map (\<lambda>a. (a, R_error m (r_endpoint r) c)) as \<and> distinct as
        \<and> set as = {a. sndr = Some a \<or> Some a \<in> snd ` set (r_routes r) \<or> r_default_route r = Some a})"

lemma send_error_reported: "reported r sndr (send_error m c sndr r)"
  using tell_once_out [of "R_error m (r_endpoint r) c" "sndr # map snd (r_routes r) @ [r_default_route r]" "[]" r]
  unfolding reported_def send_error_def
  by (elim exE conjE) (intro exI conjI, assumption+, auto)

definition routed_to :: "'t relay \<Rightarrow> string \<Rightarrow> actor_ptr option" where
  "routed_to r mtype =
     (case map_of (r_routes r) mtype of
        Some (Some a) \<Rightarrow> if mtype = [] then r_default_route r else Some a
      | _ \<Rightarrow> r_default_route r)"

definition delivered :: "'t relay \<Rightarrow> envelope \<Rightarrow> actor_ptr option \<Rightarrow> 't relay \<Rightarrow> bool" where
  "delivered r e to r' \<longleftrightarrow> r_out r' = r_out r @ (case to of None \<Rightarrow> [] | Some a \<Rightarrow> [(a, R_recv (recv_of e))])"

lemma route_message_pending:
  assumes "env_correlation_id e \<noteq> 0" and "map_of (r_pending_requests r) (env_correlation_id e) = Some p"
  shows "delivered r e (Some (pr_requester p)) (route_message e r)"
    and "map_of (r_pending_requests (route_message e r)) (env_correlation_id e) = None"
  using assms by (simp_all add: delivered_def route_message_def Let_def recv_of_def tell_out_def delete_conv')

lemma route_message_unsolicited:
  assumes "map_of (r_pending_requests r) (env_correlation_id e) = None"
  shows "delivered r e (routed_to r (env_message_type e)) (route_message e r)"
  using assms by (auto simp: delivered_def routed_to_def route_message_def Let_def recv_of_def tell_out_def split: option.split)

section \<open>What becomes of a send\<close>

definition send_sent :: "envelope \<Rightarrow> 't relay \<Rightarrow> 't relay \<Rightarrow> bool" where
  "send_sent e r r' \<longleftrightarrow> held_for (env_peer e) r = [] \<and> r_sent r' = r_sent r @ [e] \<and> r_outbound r' = r_outbound r
     \<and> r_dropped_sends r' = r_dropped_sends r \<and> r_out r' = r_out r"

definition send_held :: "time_point \<Rightarrow> envelope \<Rightarrow> actor_ptr option \<Rightarrow> 't relay \<Rightarrow> 't relay \<Rightarrow> bool" where
  "send_held now e sndr r r' \<longleftrightarrow> r_send_policy r = Policy_queue \<and> r_queued_sends r < r_max_queued_sends r
     \<and> held_for (env_peer e) r' = held_for (env_peer e) r
         @ [\<lparr>qs_message = e, qs_sender = sndr, qs_deadline = now + opt_send_timeout_ms (r_options r)\<rparr>]
     \<and> (\<forall>p. p = env_peer e \<or> held_for p r' = held_for p r)
     \<and> r_sent r' = r_sent r \<and> r_dropped_sends r' = r_dropped_sends r \<and> r_out r' = r_out r"

definition send_dropped :: "'t relay \<Rightarrow> 't relay \<Rightarrow> bool" where
  "send_dropped r r' \<longleftrightarrow> r_send_policy r = Policy_drop \<and> r_dropped_sends r' = r_dropped_sends r + 1
     \<and> r_sent r' = r_sent r \<and> r_outbound r' = r_outbound r \<and> r_out r' = r_out r"

definition send_reported :: "actor_ptr option \<Rightarrow> 't relay \<Rightarrow> 't relay \<Rightarrow> bool" where
  "send_reported sndr r r' \<longleftrightarrow> reported r sndr r' \<and> r_sent r' = r_sent r \<and> r_outbound r' = r_outbound r
     \<and> r_dropped_sends r' = r_dropped_sends r"

lemma send_error_outcome: "send_reported sndr r (send_error m c sndr r)"
  by (simp add: send_reported_def send_error_reported send_error_fields)

lemma send_reported_transport: "send_reported sndr (r\<lparr>r_transport := t\<rparr>) r' \<longleftrightarrow> send_reported sndr r r'"
  by (simp add: send_reported_def reported_def)

lemma hold_or_report_outcome:
  "send_held now e sndr r (hold_or_report now e sndr r) \<or> send_dropped r (hold_or_report now e sndr r)
     \<or> send_reported sndr r (hold_or_report now e sndr r)"
proof (cases "r_send_policy r")
  case Policy_queue
  then show ?thesis
    by (cases "r_max_queued_sends r \<le> r_queued_sends r")
      (simp_all add: hold_or_report_def send_error_outcome send_held_def held_for_queue_of queue_of_update not_le)
next
  case Policy_fail
  then show ?thesis by (simp add: hold_or_report_def send_error_outcome)
next
  case Policy_drop
  then show ?thesis by (simp add: hold_or_report_def send_dropped_def)
qed

definition send_accounted :: "time_point \<Rightarrow> envelope \<Rightarrow> actor_ptr option \<Rightarrow> 't relay \<Rightarrow> 't relay \<Rightarrow> bool" where
  "send_accounted now e sndr r r' \<longleftrightarrow>
     send_sent e r r' \<or> send_held now e sndr r r' \<or> send_dropped r r' \<or> send_reported sndr r r'"

lemma send_accounted_transport: "send_accounted now e sndr (r\<lparr>r_transport := t\<rparr>) r' \<longleftrightarrow> send_accounted now e sndr r r'"
  by (simp add: send_accounted_def send_reported_transport send_sent_def send_held_def send_dropped_def held_for_def)

lemma send_error_accounted: "send_accounted now e sndr r (send_error m c sndr r)"
  by (simp add: send_accounted_def send_error_outcome)

lemma send_or_hold_outcome: "send_accounted now e sndr r (send_or_hold ops now e sndr r)"
proof (cases "held_for (env_peer e) r = []")
  case False
  then show ?thesis using hold_or_report_outcome by (auto simp: send_or_hold_def send_accounted_def)
next
  case True
  obtain res t where ts: "t_try_send ops e (r_transport r) = (res, t)"
    by (cases "t_try_send ops e (r_transport r)") auto
  show ?thesis
  proof (cases res)
    case Sent
    have "r_out (track_request now e sndr rn) = r_out rn" for rn :: "'a relay"
      by (simp add: track_request_def split: option.split)
    with Sent True ts show ?thesis
      by (simp add: send_or_hold_def send_accounted_def send_sent_def track_request_fields)
  next
    case Peer_full
    with True ts hold_or_report_outcome [of now e sndr "r\<lparr>r_transport := t\<rparr>"] show ?thesis
      by (subst send_accounted_transport [symmetric, where t = t]) (auto simp: send_or_hold_def send_accounted_def)
  next
    case (Send_throws x)
    with True ts show ?thesis
      by (subst send_accounted_transport [symmetric, where t = t]) (simp add: send_or_hold_def send_accounted_def send_error_outcome)
  qed
qed

lemma track_request_pending:
  "env_correlation_id e \<noteq> 0 \<Longrightarrow>
   r_pending_requests (track_request now e (Some a) r) = AList.update (env_correlation_id e)
     \<lparr>pr_requester = a, pr_deadline = now + r_request_timeout_ms r\<rparr> (r_pending_requests r)"
  by (simp add: track_request_def)

text \<open>A send the transport accepted leaves its request pending.\<close>

lemma accepted_request_pending:
  assumes sent: "r_sent (on_send ops now m (Some a) r) \<noteq> r_sent r" and cid: "sr_correlation_id m \<noteq> 0"
  shows "r_pending_requests (on_send ops now m (Some a) r) = AList.update (sr_correlation_id m)
     \<lparr>pr_requester = a, pr_deadline = now + r_request_timeout_ms r\<rparr> (r_pending_requests r)"
proof -
  have hr: "r_sent (hold_or_report now e (Some a) rn) = r_sent rn" for e and rn :: "'a relay"
    by (simp add: hold_or_report_def send_error_fields split: send_policy.split)
  obtain res t where ts: "t_try_send ops (envelope_of m) (r_transport r) = (res, t)"
    by (cases "t_try_send ops (envelope_of m) (r_transport r)") auto
  have "res = Sent" "on_send ops now m (Some a) r
      = track_request now (envelope_of m) (Some a) (r\<lparr>r_transport := t, r_sent := r_sent r @ [envelope_of m]\<rparr>)"
    using sent ts by (auto simp: on_send_def send_or_hold_def hr send_error_fields split: if_splits send_result.splits)
  with cid show ?thesis by (simp add: track_request_pending envelope_of_def)
qed

lemma expire_drops:
  assumes "distinct (map fst (r_pending_requests r))" and "map_of (r_pending_requests r) c = Some p" and "pr_deadline p \<le> now"
  shows "map_of (r_pending_requests (expire_pending_requests now r)) c = None"
proof -
  have "q = p" if "(c, q) \<in> set (r_pending_requests r)" for q
    using assms(1,2) map_of_is_SomeI [OF assms(1) that] by simp
  with assms(3) show ?thesis by (auto simp: expire_pending_requests_def map_of_eq_None_iff)
qed

section \<open>Waiting ends\<close>

lemma tell_once_spin: "r_spin_before_block_us (tell_once err refs told r) = r_spin_before_block_us r"
  by (induction err refs told r rule: tell_once.induct) (auto simp: tell_out_def)

lemma fold_spin:
  assumes "\<And>x r. r_spin_before_block_us (f x r) = r_spin_before_block_us r"
  shows "r_spin_before_block_us (fold f xs r) = r_spin_before_block_us r"
  by (induction xs arbitrary: r) (simp_all add: assms)

lemma route_message_spin: "r_spin_before_block_us (route_message e r) = r_spin_before_block_us r"
  by (auto simp: route_message_def Let_def tell_out_def split: option.split)

lemma report_events_spin: "r_spin_before_block_us (report_transport_events ops r) = r_spin_before_block_us r"
  by (simp add: report_transport_events_def case_prod_beta Let_def fold_spin send_error_def tell_once_spin)

lemma poll_spin: "r_spin_before_block_us (snd (poll ops r)) = r_spin_before_block_us r"
  by (simp add: poll_def case_prod_beta Let_def fold_spin route_message_spin report_events_spin)

text \<open>The spin ends at the latest at a poll \<open>final\<close> whose number is 63 modulo 64 and where the time is up.\<close>

lemma spin_poll_returns:
  assumes final: "until \<le> clk final" "1024 \<le> final" "final mod 64 = 63"
  shows "n \<le> final \<Longrightarrow> r_spin_before_block_us r \<noteq> 0 \<Longrightarrow> spin_poll ops ready clk until n r \<noteq> None"
proof (induction "final - n" arbitrary: n r)
  case 0
  obtain received rn where p: "(if r_connected r then poll ops r else (0, r)) = (received, rn)" by fastforce
  have "r_spin_before_block_us rn \<noteq> 0" "n = final"
    using 0 p poll_spin [of ops r] by (auto split: if_splits)
  with final show ?case by (subst spin_poll.simps) (auto simp: p simp del: not_None_eq)
next
  case (Suc d)
  obtain received rn where p: "(if r_connected r then poll ops r else (0, r)) = (received, rn)" by fastforce
  have "r_spin_before_block_us rn \<noteq> 0" "d = final - Suc n" "Suc n \<le> final"
    using Suc p poll_spin [of ops r] by (auto split: if_splits)
  from Suc.hyps(1) [OF this(2,3,1)] show ?case by (subst spin_poll.simps) (simp add: p del: not_None_eq)
qed

lemma wait_block_cases:
  "fst (wait_block phase mb) \<longleftrightarrow> phase = SP_none \<and> m_calls mb = [] \<and> m_others mb = [] \<and> m_stack mb = Empty_tag"
  "fst (wait_block phase mb) \<Longrightarrow> fst (mailbox_push m (snd (wait_block phase mb))) = PR_unblocked"
  "\<not> fst (wait_block phase mb) \<Longrightarrow> snd (wait_block phase mb) = mb"
  by (auto simp: wait_block_def try_block_def try_unblock_def Let_def mailbox_push_def count_fetch_add_def split: if_splits)

section \<open>Properties\<close>

text \<open>
  Property C9. Whatever the transport answers, and in every state a relay reaches: the messages handed to the transport
  for a peer, followed by those held for it, are in the order in which the actors asked for them (some
  may be missing: refused, dropped, timed out or lost with the connection, but none overtakes another and
  none is sent twice), and \<open>m_queued_sends\<close> is the number of messages held.
\<close>

theorem relay_order:
  assumes "reachable relay_fresh (relay_step ops) (r, requested)"
  shows "subseq (to_peer p (r_sent r) @ map qs_message (held_for p r)) (to_peer p requested)
    \<and> unat (r_queued_sends r) = total_held (r_outbound r)"
  using relay_machine.reachable_inv [OF assms]
  by (simp add: relay_ok_def in_order_def held_counted_def held_for_queue_of)

text \<open>
  Property C25. Every send request is accounted for: it is handed to the transport (only when nothing was held
  for its peer), held behind what its peer already has, dropped and counted (only under the drop
  policy), or reported as an error to the asking actor and to every route, once each. Nothing leaves a
  relay that is not connected, nor a message over the size limit, nor one without a target from a server.
\<close>

theorem relay_send_outcome:
  "send_accounted now (envelope_of m) sndr r (on_send ops now m sndr r)
   \<and> (r_sent (on_send ops now m sndr r) \<noteq> r_sent r \<or> r_outbound (on_send ops now m sndr r) \<noteq> r_outbound r
      \<longrightarrow> r_connected r \<and> length (sr_data m) \<le> nat (opt_max_message_size (r_options r) mod 2 ^ 64)
          \<and> (r_mode r = Dealer \<or> sr_target m \<noteq> []))"
  by (cases "r_mode r") (simp_all add: on_send_def send_or_hold_outcome send_error_accounted send_error_fields del: append_Cons)


text \<open>
  Property C26. An idle relay neither spins for ever nor sleeps through work: as long as the clock advances, \<open>wait_for_work\<close>
  returns, whatever the transport does and whatever other threads do to the mailbox; it blocks only
  with an empty mailbox and no stop requested, marked so that the next message of any thread is answered
  with \<open>unblocked\<close> (whereupon the sender wakes the relay); and if it does not block the mailbox is as before.
\<close>

theorem relay_wait_returns:
  assumes "\<And>d. \<exists>k. \<forall>n \<ge> k. d \<le> clk n"
  shows "(\<exists>mb' r'. wait_for_work ops now ready clk phase env mb r = Some (mb', r'))
    \<and> (fst (wait_block phase mb) \<longrightarrow> phase = SP_none \<and> queued mb = []
         \<and> fst (mailbox_push m (snd (wait_block phase mb))) = PR_unblocked)
    \<and> (\<not> fst (wait_block phase mb) \<longrightarrow> snd (wait_block phase mb) = mb)"
proof -
  obtain holding ret rn where p: "wait_prepare ops now r = ((holding, ret), rn)" by (metis surj_pair)
  obtain k where k: "\<forall>n \<ge> k. clk 0 + r_spin_before_block_us rn \<le> clk n" using assms by blast
  have "spin_before_block ops ready clk rn \<noteq> None"
    using k spin_poll_returns [where final = "64 * (k + 16) + 63" and n = 0 and clk = clk and r = rn]
    by (simp add: spin_before_block_def del: not_None_eq)
  then obtain returns rm where "spin_before_block ops ready clk rn = Some (returns, rm)" by auto
  then have "\<exists>mb' r'. wait_for_work ops now ready clk phase env mb r = Some (mb', r')"
    using p by (cases ret) (auto simp: wait_for_work_def)
  with wait_block_cases [of phase mb] show ?thesis
    by (simp add: queued_def call_lane_def other_lane_of_def)
qed

section \<open>Witnesses\<close>

text \<open>A transport with room for as many messages as its state says.\<close>

definition room_ops :: "nat transport_ops" where
  "room_ops = \<lparr>t_bind = (\<lambda>_ n. (None, n)), t_connect = (\<lambda>_ _ n. (None, n)), t_configure = (\<lambda>_ n. n),
     t_try_send = (\<lambda>_ n. if n = 0 then (Peer_full, n) else (Sent, n - 1)), t_receive = (\<lambda>_ n. ([], n)),
     t_drain_events = (\<lambda>n. ([], n)),
     t_wait = (\<lambda>_ n. n), t_wake = (\<lambda>n. n), t_local_endpoint = (\<lambda>_. ''e''), t_close = (\<lambda>n. n)\<rparr>"

definition sample_relay :: "nat relay" where
  "sample_relay = \<lparr>r_transport = 1, r_options = transport_options_init, r_mode = Dealer, r_connected = True, r_endpoint = ''e'',
     r_request_timeout_ms = 5000, r_spin_before_block_us = 0, r_routes = [(''t'', Some 4)], r_pending_requests = [],
     r_outbound = [], r_queued_sends = 0, r_dropped_sends = 0, r_send_policy = Policy_queue, r_max_queued_sends = 10,
     r_default_route = Some 5, r_out = [], r_sent = []\<rparr>"

definition sample_send :: "string \<Rightarrow> send_request" where
  "sample_send d = \<lparr>sr_target = ''p'', sr_correlation_id = 7, sr_data = d, sr_content_type = [], sr_message_type = ''t''\<rparr>"

lemmas relay_eval = room_ops_def sample_relay_def sample_send_def transport_options_init_def on_send_def send_or_hold_def
  hold_or_report_def held_for_def track_request_def envelope_of_def

theorem relay_send_outcome_witness:
  "send_accounted 0 (envelope_of (sample_send ''x'')) (Some 3) sample_relay (on_send room_ops 0 (sample_send ''x'') (Some 3) sample_relay)
   \<and> r_sent (on_send room_ops 0 (sample_send ''x'') (Some 3) sample_relay) \<noteq> r_sent sample_relay
   \<and> r_connected sample_relay"
  using relay_send_outcome [of 0 "sample_send ''x''" "Some 3" sample_relay room_ops]
  by (simp add: relay_eval)

theorem relay_order_witness:
  "\<exists>r. reachable relay_fresh (relay_step room_ops) (r, [envelope_of (sample_send ''x''), envelope_of (sample_send ''y'')])
     \<and> r_sent r = [envelope_of (sample_send ''x'')] \<and> map qs_message (held_for ''p'' r) = [envelope_of (sample_send ''y'')]
     \<and> subseq (to_peer ''p'' (r_sent r) @ map qs_message (held_for ''p'' r))
         (to_peer ''p'' [envelope_of (sample_send ''x''), envelope_of (sample_send ''y'')])
     \<and> unat (r_queued_sends r) = total_held (r_outbound r)"
proof -
  let ?r1 = "on_send room_ops 0 (sample_send ''x'') (Some 3) sample_relay"
  let ?r2 = "on_send room_ops 0 (sample_send ''y'') (Some 3) ?r1"
  have i: "reachable relay_fresh (relay_step room_ops) (sample_relay, [])"
    by (rule reachable_init) (simp add: relay_fresh_def sample_relay_def)
  have s1: "reachable relay_fresh (relay_step room_ops) (?r1, [] @ [envelope_of (sample_send ''x'')])"
    by (rule reachable_step [OF i]) (rule relay_step.send)
  have s2: "reachable relay_fresh (relay_step room_ops)
      (?r2, ([] @ [envelope_of (sample_send ''x'')]) @ [envelope_of (sample_send ''y'')])"
    by (rule reachable_step [OF s1]) (rule relay_step.send)
  have "r_sent ?r2 = [envelope_of (sample_send ''x'')]" "map qs_message (held_for ''p'' ?r2) = [envelope_of (sample_send ''y'')]"
    by (simp_all add: relay_eval)
  with s2 relay_order [OF s2, of "''p''"] show ?thesis by (intro exI [of _ ?r2]) simp
qed


theorem relay_wait_returns_witness:
  "(\<exists>mb' r'. wait_for_work room_ops 0 (\<lambda>_. False) int SP_none (\<lambda>mb. mb) mailbox_init (sample_relay\<lparr>r_spin_before_block_us := 70\<rparr>) = Some (mb', r'))
   \<and> fst (mailbox_push (sample_user 0) (snd (wait_block SP_none mailbox_init))) = PR_unblocked"
proof -
  have clk: "\<exists>k. \<forall>n \<ge> k. d \<le> int n" for d by (intro exI [of _ "nat d"]) linarith
  have "fst (wait_block SP_none mailbox_init)" by (simp add: wait_block_cases mailbox_init_def)
  with relay_wait_returns [where clk = int, OF clk] show ?thesis by blast
qed

end
