(* ===== verification/Relay_Network.thy ===== *)
theory Relay_Network
  imports Relay
begin

text \<open>
  Relays of several processes joined by ZeroMQ: one server (ROUTER) and any number of clients (DEALER), each the relay of
  \<open>Relay\<close> over the transport of \<open>Transport\<close>. Shown: what a relay hands to its local actors is what the relay at the other end was asked to
  send, unaltered, in order and without repetition.

  \<^item> The library stays the parameter \<open>zmq\<close>. A \<open>zmq_view\<close> reads off its state the multipart messages accepted so far, the
    frames of an unfinished one, the messages read so far and those that can be read. \<open>zmq_ok\<close> states what the
    manual of ZeroMQ promises: a message is accepted whole or not at all, receiving takes the oldest, and
    no other call adds or removes any.
  \<^item> The network takes messages of a client in order and puts the identity of the client in front (ROUTER); in the other
    direction it takes the messages for a client in order and removes the identity.
  \<^item> A step of a node is any step of its relay that leaves it connected.
\<close>

section \<open>The network\<close>

record 'z zmq_view =
  zv_out :: "'z \<Rightarrow> frame list list"
  zv_part :: "'z \<Rightarrow> frame list"
  zv_got :: "'z \<Rightarrow> frame list list"
  zv_in :: "'z \<Rightarrow> frame list list"
  zv_deliver :: "frame list \<Rightarrow> 'z \<Rightarrow> 'z"

definition same_view :: "'z zmq_view \<Rightarrow> 'z \<Rightarrow> 'z \<Rightarrow> bool" where
  "same_view v z z' \<longleftrightarrow> zv_out v z' = zv_out v z \<and> zv_part v z' = zv_part v z \<and> zv_got v z' = zv_got v z \<and> zv_in v z' = zv_in v z"

definition send_ok :: "'z zmq_library \<Rightarrow> 'z zmq_view \<Rightarrow> bool" where
  "send_ok zmq v \<longleftrightarrow> (\<forall>f sndmore dontwait z. case zmq_send zmq f sndmore dontwait z of (result, z') \<Rightarrow>
     zv_got v z' = zv_got v z \<and> zv_in v z' = zv_in v z
     \<and> (if result \<noteq> Inr True then zv_part v z = [] \<and> same_view v z z'
        else if sndmore then zv_part v z' = zv_part v z @ [f] \<and> zv_out v z' = zv_out v z
        else zv_part v z' = [] \<and> zv_out v z' = zv_out v z @ [zv_part v z @ [f]]))"

definition recv_ok :: "'z zmq_library \<Rightarrow> 'z zmq_view \<Rightarrow> bool" where
  "recv_ok zmq v \<longleftrightarrow> (\<forall>z. case zmq_recv zmq z of
     (Inr (Some fs), z') \<Rightarrow> zv_in v z = fs # zv_in v z' \<and> zv_got v z' = zv_got v z @ [fs]
       \<and> zv_out v z' = zv_out v z \<and> zv_part v z' = zv_part v z
   | (_, z') \<Rightarrow> same_view v z z')"

definition zmq_ok :: "'z zmq_library \<Rightarrow> 'z zmq_view \<Rightarrow> bool" where
  "zmq_ok zmq v \<longleftrightarrow> send_ok zmq v \<and> recv_ok zmq v
     \<and> (\<forall>opt z. same_view v z (snd (zmq_set zmq opt z)))
     \<and> (\<forall>connected timeout wakes z. same_view v z (snd (zmq_poll zmq connected timeout wakes z)))
     \<and> (\<forall>fs z. zv_in v (zv_deliver v fs z) = zv_in v z @ [fs] \<and> zv_out v (zv_deliver v fs z) = zv_out v z
          \<and> zv_part v (zv_deliver v fs z) = zv_part v z \<and> zv_got v (zv_deliver v fs z) = zv_got v z)"

type_synonym 'z zrelay = "'z zeromq_transport relay"

abbreviation zmq_of :: "'z zrelay \<Rightarrow> 'z" where
  "zmq_of r \<equiv> zt_zmq (r_transport r)"

definition deliver_to :: "'z zmq_view \<Rightarrow> frame list \<Rightarrow> 'z zrelay \<Rightarrow> 'z zrelay" where
  "deliver_to v fs r = r\<lparr>r_transport := (r_transport r)\<lparr>zt_zmq := zv_deliver v fs (zmq_of r)\<rparr>\<rparr>"

text \<open>A node is a relay and the envelopes it was asked to send; a network counts the messages taken from each client and for each client.\<close>

type_synonym 'z node = "'z zrelay \<times> envelope list"

record 'z net =
  nt_server :: "'z node"
  nt_client :: "string \<Rightarrow> 'z node"
  nt_up :: "string \<Rightarrow> nat"
  nt_down :: "string \<Rightarrow> nat"

definition for_client :: "string \<Rightarrow> frame list list \<Rightarrow> frame list list" where
  "for_client p fss = map tl (filter (\<lambda>fs. hd fs = p) fss)"

inductive net_step :: "'z zmq_library \<Rightarrow> 'z zmq_view \<Rightarrow> 'z net \<Rightarrow> 'z net \<Rightarrow> bool" for zmq v where
  net_server: "relay_step (zeromq_ops zmq) (nt_server n) s \<Longrightarrow> r_connected (fst (nt_server n)) \<Longrightarrow> r_connected (fst s) \<Longrightarrow>
    net_step zmq v n (n\<lparr>nt_server := s\<rparr>)"
| net_client: "relay_step (zeromq_ops zmq) (nt_client n p) s \<Longrightarrow> r_connected (fst (nt_client n p)) \<Longrightarrow> r_connected (fst s) \<Longrightarrow>
    net_step zmq v n (n\<lparr>nt_client := (nt_client n)(p := s)\<rparr>)"
| net_up: "out = zv_out v (zmq_of (fst (nt_client n p))) \<Longrightarrow> nt_up n p < length out \<Longrightarrow>
    net_step zmq v n (n\<lparr>nt_server := apfst (deliver_to v (p # out ! nt_up n p)) (nt_server n), nt_up := (nt_up n)(p := Suc (nt_up n p))\<rparr>)"
| net_down: "out = for_client p (zv_out v (zmq_of (fst (nt_server n)))) \<Longrightarrow> nt_down n p < length out \<Longrightarrow>
    net_step zmq v n (n\<lparr>nt_client := (nt_client n)(p := apfst (deliver_to v (out ! nt_down n p)) (nt_client n p)),
      nt_down := (nt_down n)(p := Suc (nt_down n p))\<rparr>)"

definition node_init :: "'z zmq_view \<Rightarrow> bool \<Rightarrow> 'z node \<Rightarrow> bool" where
  "node_init v server s \<longleftrightarrow> relay_fresh s \<and> r_connected (fst s) \<and> r_out (fst s) = []
     \<and> zt_socket (r_transport (fst s)) \<and> zt_server (r_transport (fst s)) = server
     \<and> zv_out v (zmq_of (fst s)) = [] \<and> zv_part v (zmq_of (fst s)) = [] \<and> zv_got v (zmq_of (fst s)) = [] \<and> zv_in v (zmq_of (fst s)) = []"

definition net_init :: "'z zmq_view \<Rightarrow> 'z net \<Rightarrow> bool" where
  "net_init v n \<longleftrightarrow> node_init v True (nt_server n) \<and> (\<forall>p. node_init v False (nt_client n p) \<and> nt_up n p = 0 \<and> nt_down n p = 0)"

section \<open>What an operation of a relay does to the network\<close>

text \<open>The messages among what a relay told its actors, and the envelopes among multipart messages.\<close>

definition recvs :: "(actor_ptr \<times> relay_msg) list \<Rightarrow> recv_info list" where
  "recvs ts = concat (map (\<lambda>t. case snd t of R_recv i \<Rightarrow> [i] | _ \<Rightarrow> []) ts)"

definition envelopes :: "bool \<Rightarrow> frame list list \<Rightarrow> envelope list" where
  "envelopes server fss = concat (map (\<lambda>fs. case parse_frames server fs of Inr e \<Rightarrow> [e] | Inl _ \<Rightarrow> []) fss)"

lemma recvs_append [simp]: "recvs (xs @ ys) = recvs xs @ recvs ys"
  by (simp add: recvs_def)

lemma recvs_Nil [simp]: "recvs [] = []"
  by (simp add: recvs_def)

lemma envelopes_append [simp]: "envelopes server (xs @ ys) = envelopes server xs @ envelopes server ys"
  by (simp add: envelopes_def)

lemma envelopes_Nil [simp]: "envelopes server [] = []"
  by (simp add: envelopes_def)

definition node_ok :: "'z zmq_view \<Rightarrow> 'z zrelay \<Rightarrow> bool" where
  "node_ok v r \<longleftrightarrow> zt_socket (r_transport r) \<and> zv_part v (zmq_of r) = []"

definition effect :: "'z zmq_view \<Rightarrow> 'z zrelay \<Rightarrow> 'z zrelay \<Rightarrow> bool" where
  "effect v r r' \<longleftrightarrow> (node_ok v r \<longrightarrow> node_ok v r' \<and> zt_server (r_transport r') = zt_server (r_transport r)
     \<and> (\<exists>es gs ts. r_sent r' = r_sent r @ es
          \<and> zv_out v (zmq_of r') = zv_out v (zmq_of r) @ map (frames_of (zt_server (r_transport r))) es
          \<and> zv_in v (zmq_of r) = gs @ zv_in v (zmq_of r') \<and> zv_got v (zmq_of r') = zv_got v (zmq_of r) @ gs
          \<and> r_out r' = r_out r @ ts \<and> subseq (recvs ts) (map recv_of (envelopes (zt_server (r_transport r)) gs))))"

text \<open>An operation that only adds statuses and errors.\<close>

definition undelivering :: "'t relay \<Rightarrow> 't relay \<Rightarrow> bool" where
  "undelivering r r' \<longleftrightarrow> r_transport r' = r_transport r \<and> r_sent r' = r_sent r \<and> (\<exists>ts. r_out r' = r_out r @ ts \<and> recvs ts = [])"

lemma undeliveringI: "r_transport r' = r_transport r \<Longrightarrow> r_sent r' = r_sent r \<Longrightarrow> r_out r' = r_out r \<Longrightarrow> undelivering r r'"
  by (simp add: undelivering_def)

lemma undelivering_trans: "undelivering r r' \<Longrightarrow> undelivering r' r'' \<Longrightarrow> undelivering r r''"
  by (auto simp: undelivering_def)

lemma undelivering_effect:
  assumes "undelivering r r'"
  shows "effect v r r'"
proof -
  obtain ts where "r_out r' = r_out r @ ts" "recvs ts = []" using assms by (auto simp: undelivering_def)
  with assms show ?thesis
    unfolding effect_def by (intro impI conjI exI [of _ "[]"] exI [of _ ts]) (simp_all add: undelivering_def node_ok_def)
qed

lemma effect_trans:
  assumes "effect v r r'" "effect v r' r''"
  shows "effect v r r''"
  unfolding effect_def
proof
  assume ok: "node_ok v r"
  let ?srv = "zt_server (r_transport r)"
  from assms(1) ok obtain es gs ts where 1: "node_ok v r'" "zt_server (r_transport r') = ?srv" "r_sent r' = r_sent r @ es"
    "zv_out v (zmq_of r') = zv_out v (zmq_of r) @ map (frames_of ?srv) es" "zv_in v (zmq_of r) = gs @ zv_in v (zmq_of r')"
    "zv_got v (zmq_of r') = zv_got v (zmq_of r) @ gs" "r_out r' = r_out r @ ts" "subseq (recvs ts) (map recv_of (envelopes ?srv gs))"
    unfolding effect_def by blast
  from assms(2) 1(1,2) obtain es' gs' ts' where 2: "node_ok v r''" "zt_server (r_transport r'') = ?srv" "r_sent r'' = r_sent r' @ es'"
    "zv_out v (zmq_of r'') = zv_out v (zmq_of r') @ map (frames_of ?srv) es'" "zv_in v (zmq_of r') = gs' @ zv_in v (zmq_of r'')"
    "zv_got v (zmq_of r'') = zv_got v (zmq_of r') @ gs'" "r_out r'' = r_out r' @ ts'" "subseq (recvs ts') (map recv_of (envelopes ?srv gs'))"
    unfolding effect_def 1(2) by blast
  have "subseq (recvs (ts @ ts')) (map recv_of (envelopes ?srv (gs @ gs')))"
    using list_emb_append_mono [OF 1(8) 2(8)] by simp
  with 1 2 show "node_ok v r'' \<and> zt_server (r_transport r'') = ?srv \<and> (\<exists>es gs ts. r_sent r'' = r_sent r @ es
          \<and> zv_out v (zmq_of r'') = zv_out v (zmq_of r) @ map (frames_of ?srv) es
          \<and> zv_in v (zmq_of r) = gs @ zv_in v (zmq_of r'') \<and> zv_got v (zmq_of r'') = zv_got v (zmq_of r) @ gs
          \<and> r_out r'' = r_out r @ ts \<and> subseq (recvs ts) (map recv_of (envelopes ?srv gs)))"
    by (intro conjI exI [of _ "es @ es'"] exI [of _ "gs @ gs'"] exI [of _ "ts @ ts'"]) simp_all
qed

lemma effect_refl: "effect v r r"
  by (simp add: undelivering_effect undeliveringI)

lemma effect_undelivering: "effect v r r' \<Longrightarrow> undelivering r' r'' \<Longrightarrow> effect v r r''"
  by (blast intro: effect_trans undelivering_effect)

text \<open>A change of the transport that the view of the library does not show.\<close>

definition same_transport :: "'z zmq_view \<Rightarrow> 'z zeromq_transport \<Rightarrow> 'z zeromq_transport \<Rightarrow> bool" where
  "same_transport v t t' \<longleftrightarrow> zt_socket t' = zt_socket t \<and> zt_server t' = zt_server t \<and> same_view v (zt_zmq t) (zt_zmq t')"

lemma same_transport_effect:
  assumes "same_transport v (r_transport r) t" "r_transport r' = t" "r_sent r' = r_sent r" "r_out r' = r_out r"
  shows "effect v r r'"
  using assms by (auto simp: effect_def same_transport_def same_view_def node_ok_def intro!: exI [of _ "[]"])

section \<open>The operations without network traffic\<close>

lemma tell_once_quiet: "(\<nexists>i. err = R_recv i) \<Longrightarrow> undelivering r (tell_once err refs told r)"
proof (induction err refs told r rule: tell_once.induct)
  case (3 err a refs told r)
  have "undelivering r (tell_out (Some a) err r)"
    using 3(3) by (cases err) (auto simp: undelivering_def tell_out_def recvs_def)
  with 3 show ?case by (auto intro: undelivering_trans)
qed (simp_all add: undeliveringI)

lemma send_error_quiet: "undelivering r (send_error m c to r)"
  by (simp add: send_error_def tell_once_quiet)

lemma track_request_quiet: "undelivering r (track_request now e to r)"
  by (rule undeliveringI) (simp_all add: track_request_def split: option.split)

lemma hold_or_report_quiet: "undelivering r (hold_or_report now e sndr r)"
  by (auto simp: hold_or_report_def send_error_quiet intro: undeliveringI split: send_policy.split)

lemma on_status_quiet: "undelivering r (on_status sndr r)"
  by (auto simp: on_status_def tell_out_def status_of_def undelivering_def recvs_def split: option.split)

lemma expire_quiet: "undelivering r (expire_pending_requests now r)"
  by (rule undeliveringI) (simp_all add: expire_pending_requests_def)

lemma on_route_quiet: "undelivering r (on_route mtype target r)"
  by (rule undeliveringI) (simp_all add: on_route_def)

lemma events_quiet: "undelivering r (fold (\<lambda>ev. send_error (ev_detail ev) (ev_code ev) None) evs r)"
proof (induction evs arbitrary: r)
  case (Cons ev evs)
  from undelivering_trans [OF send_error_quiet Cons.IH] show ?case by simp
qed (simp add: undeliveringI)

lemma report_events_fields:
  "undelivering (r\<lparr>r_transport := (r_transport r)\<lparr>zt_events := []\<rparr>\<rparr>) (report_transport_events (zeromq_ops zmq) r)"
  using events_quiet [of "r\<lparr>r_transport := (r_transport r)\<lparr>zt_events := []\<rparr>\<rparr>" "zt_events (r_transport r)"]
  by (simp add: report_transport_events_def zeromq_ops_def zt_drain_events_def)

lemma report_events_effect: "effect v r (report_transport_events (zeromq_ops zmq) r)"
proof -
  let ?t = "(r_transport r)\<lparr>zt_events := []\<rparr>"
  have "effect v r (r\<lparr>r_transport := ?t\<rparr>)"
    by (rule same_transport_effect [of _ _ ?t]) (simp_all add: same_transport_def same_view_def)
  with report_events_fields show ?thesis by (rule effect_undelivering [rotated])
qed

section \<open>The transport on the network\<close>

lemma set_options_same:
  assumes "zmq_ok zmq v"
  shows "same_view v z (snd (set_options zmq opts z))"
proof (induction opts arbitrary: z)
  case (Cons opt opts)
  have "same_view v z (snd (zmq_set zmq opt z))" using assms by (simp add: zmq_ok_def)
  with Cons.IH [of "snd (zmq_set zmq opt z)"] show ?case
    by (auto simp: same_view_def split: prod.split option.split)
qed (simp add: same_view_def)

lemma configure_same:
  assumes "zmq_ok zmq v"
  shows "same_transport v t (zt_configure zmq options t)"
proof -
  let ?t = "t\<lparr>zt_options := options\<rparr>"
  have "same_transport v t (snd (apply_options zmq ?t))"
    using set_options_same [OF assms, of "zt_zmq t" "socket_options (zt_server t) options"]
    by (auto simp: apply_options_def same_transport_def same_view_def split: prod.split)
  then show ?thesis
    by (auto simp: zt_configure_def same_transport_def record_error_def split: prod.split option.split)
qed

lemma wait_same:
  assumes "zmq_ok zmq v"
  shows "same_transport v t (zt_wait zmq timeout t)"
proof -
  have "same_view v (zt_zmq t) (snd (zmq_poll zmq (zt_socket t) timeout (zt_wakes t) (zt_zmq t)))"
    using assms by (simp add: zmq_ok_def)
  then show ?thesis
    by (auto simp: zt_wait_def same_transport_def record_error_def split: prod.split sum.split)
qed

lemma send_okD:
  assumes "zmq_ok zmq v" "zmq_send zmq f sndmore dontwait z = (result, z')"
  shows "zv_got v z' = zv_got v z" "zv_in v z' = zv_in v z"
    "result \<noteq> Inr True \<Longrightarrow> zv_part v z = [] \<and> same_view v z z'"
    "result = Inr True \<Longrightarrow> sndmore \<Longrightarrow> zv_part v z' = zv_part v z @ [f] \<and> zv_out v z' = zv_out v z"
    "result = Inr True \<Longrightarrow> \<not> sndmore \<Longrightarrow> zv_part v z' = [] \<and> zv_out v z' = zv_out v z @ [zv_part v z @ [f]]"
proof -
  have "send_ok zmq v" using assms(1) by (simp add: zmq_ok_def)
  from this [unfolded send_ok_def, THEN spec [of _ f], THEN spec [of _ sndmore], THEN spec [of _ dontwait], THEN spec [of _ z]] assms(2)
  show "zv_got v z' = zv_got v z" "zv_in v z' = zv_in v z"
    "result \<noteq> Inr True \<Longrightarrow> zv_part v z = [] \<and> same_view v z z'"
    "result = Inr True \<Longrightarrow> sndmore \<Longrightarrow> zv_part v z' = zv_part v z @ [f] \<and> zv_out v z' = zv_out v z"
    "result = Inr True \<Longrightarrow> \<not> sndmore \<Longrightarrow> zv_part v z' = [] \<and> zv_out v z' = zv_out v z @ [zv_part v z @ [f]]"
    by (auto split: if_splits)
qed

lemma send_rest_out:
  assumes ok: "zmq_ok zmq v"
  shows "fs \<noteq> [] \<Longrightarrow> zv_part v z \<noteq> [] \<Longrightarrow> \<exists>z'. send_rest zmq fs z = (None, z') \<and> zv_part v z' = []
    \<and> zv_out v z' = zv_out v z @ [zv_part v z @ fs] \<and> zv_got v z' = zv_got v z \<and> zv_in v z' = zv_in v z"
proof (induction fs arbitrary: z)
  case (Cons f fs)
  obtain result z1 where s: "zmq_send zmq f (fs \<noteq> []) False z = (result, z1)" by fastforce
  note d = send_okD [OF ok s]
  have res: "result = Inr True" using d(3) Cons.prems(2) by blast
  show ?case
  proof (cases "fs = []")
    case True
    with s res d show ?thesis by simp
  next
    case False
    with d(4) res have z1: "zv_part v z1 = zv_part v z @ [f]" "zv_out v z1 = zv_out v z" by simp_all
    from Cons.IH [OF False, of z1] z1(1) obtain z' where "send_rest zmq fs z1 = (None, z')" "zv_part v z' = []"
      "zv_out v z' = zv_out v z1 @ [zv_part v z1 @ fs]" "zv_got v z' = zv_got v z1" "zv_in v z' = zv_in v z1" by auto
    with s res d(1,2) z1 False show ?thesis by simp
  qed
qed simp

lemma try_send_out:
  assumes ok: "zmq_ok zmq v" and t: "zt_socket t" "zv_part v (zt_zmq t) = []" and send: "zt_try_send zmq e t = (result, t')"
  shows "zt_socket t' \<and> zt_server t' = zt_server t \<and> zv_part v (zt_zmq t') = []
    \<and> zv_got v (zt_zmq t') = zv_got v (zt_zmq t) \<and> zv_in v (zt_zmq t') = zv_in v (zt_zmq t)
    \<and> zv_out v (zt_zmq t') = zv_out v (zt_zmq t) @ (if result = Sent then [frames_of (zt_server t) e] else [])"
proof -
  let ?fs = "frames_of (zt_server t) e"
  have fs: "?fs = hd ?fs # tl ?fs" "tl ?fs \<noteq> []" by (simp_all add: frames_of_def text_frames_def)
  obtain answer z where s: "zmq_send zmq (hd ?fs) True True (zt_zmq t) = (answer, z)" by fastforce
  note d = send_okD [OF ok s]
  show ?thesis
  proof (cases "zt_server t \<and> env_peer e = []")
    case True
    with send t show ?thesis by (auto simp: zt_try_send_def)
  next
    case False
    show ?thesis
    proof (cases "answer = Inr True")
      case True
      with d(4) t(2) have z: "zv_part v z = [hd ?fs]" "zv_out v z = zv_out v (zt_zmq t)" by simp_all
      then obtain z' where "send_rest zmq (tl ?fs) z = (None, z')" "zv_part v z' = []"
        "zv_out v z' = zv_out v z @ [[hd ?fs] @ tl ?fs]" "zv_got v z' = zv_got v z" "zv_in v z' = zv_in v z"
        using send_rest_out [OF ok fs(2), of z] by auto
      moreover from this(1) have "(result, t') = (Sent, t\<lparr>zt_zmq := z'\<rparr>)"
        using send True False t(1) s by (simp add: zt_try_send_def)
      ultimately show ?thesis using d(1,2) z t(1) fs(1) by simp
    next
      case other: False
      then have "result \<noteq> Sent \<and> t' = t\<lparr>zt_zmq := z\<rparr>"
        using False send t(1) s by (auto simp: zt_try_send_def split: sum.splits bool.splits)
      with d(3) [OF other] t show ?thesis by (simp add: same_view_def)
    qed
  qed
qed

definition reads :: "'z zmq_view \<Rightarrow> 'z zeromq_transport \<Rightarrow> frame list list \<Rightarrow> 'z zeromq_transport \<Rightarrow> bool" where
  "reads v t gs t' \<longleftrightarrow> zt_socket t' = zt_socket t \<and> zt_server t' = zt_server t \<and> zv_part v (zt_zmq t') = zv_part v (zt_zmq t)
    \<and> zv_out v (zt_zmq t') = zv_out v (zt_zmq t) \<and> zv_in v (zt_zmq t) = gs @ zv_in v (zt_zmq t')
    \<and> zv_got v (zt_zmq t') = zv_got v (zt_zmq t) @ gs"

lemma reads_trans: "reads v t gs t' \<Longrightarrow> reads v t' gs' t'' \<Longrightarrow> reads v t (gs @ gs') t''"
  by (simp add: reads_def)

lemma recv_okD:
  assumes "zmq_ok zmq v" "zmq_recv zmq z = (answer, z')"
  shows "answer = Inr (Some fs) \<Longrightarrow> zv_in v z = fs # zv_in v z' \<and> zv_got v z' = zv_got v z @ [fs]
       \<and> zv_out v z' = zv_out v z \<and> zv_part v z' = zv_part v z"
    "(\<And>fs. answer \<noteq> Inr (Some fs)) \<Longrightarrow> same_view v z z'"
proof -
  have "recv_ok zmq v" using assms(1) by (simp add: zmq_ok_def)
  from this [unfolded recv_ok_def, THEN spec [of _ z]] assms(2)
  show "answer = Inr (Some fs) \<Longrightarrow> zv_in v z = fs # zv_in v z' \<and> zv_got v z' = zv_got v z @ [fs]
       \<and> zv_out v z' = zv_out v z \<and> zv_part v z' = zv_part v z"
    "(\<And>fs. answer \<noteq> Inr (Some fs)) \<Longrightarrow> same_view v z z'"
    by (auto split: sum.splits option.splits)
qed

lemma receive_one_in:
  assumes ok: "zmq_ok zmq v" and r: "receive_one zmq t = ((go_on, es), t')"
  shows "\<exists>gs. reads v t gs t' \<and> es = envelopes (zt_server t) gs"
proof -
  obtain answer z where s: "zmq_recv zmq (zt_zmq t) = (answer, z)" by fastforce
  note d = recv_okD [OF ok s]
  show ?thesis
  proof (cases "\<exists>fs. answer = Inr (Some fs)")
    case True
    then obtain fs where a: "answer = Inr (Some fs)" ..
    have "es = envelopes (zt_server t) [fs] \<and> zt_socket t' = zt_socket t \<and> zt_server t' = zt_server t \<and> zt_zmq t' = z"
      using r by (auto simp: receive_one_def s a envelopes_def record_error_def split: sum.splits)
    with d(1) [OF a] show ?thesis by (intro exI [of _ "[fs]"]) (simp add: reads_def)
  next
    case False
    then have "es = [] \<and> zt_socket t' = zt_socket t \<and> zt_server t' = zt_server t \<and> zt_zmq t' = z"
      using r by (auto simp: receive_one_def s record_error_def split: sum.splits option.splits if_splits)
    moreover have "same_view v (zt_zmq t) z" using d(2) False by blast
    ultimately show ?thesis by (intro exI [of _ "[]"]) (simp add: reads_def same_view_def)
  qed
qed

lemma receive_in:
  assumes ok: "zmq_ok zmq v"
  shows "zt_receive_loop zmq k t = (es, t') \<Longrightarrow> \<exists>gs. reads v t gs t' \<and> es = envelopes (zt_server t) gs"
proof (induction k arbitrary: t t' es)
  case 0
  then show ?case by (intro exI [of _ "[]"]) (auto simp: reads_def)
next
  case (Suc k)
  obtain go_on es1 t1 where one: "receive_one zmq t = ((go_on, es1), t1)" by (metis surj_pair)
  from receive_one_in [OF ok one] obtain gs1 where 1: "reads v t gs1 t1" "es1 = envelopes (zt_server t) gs1" by blast
  show ?case
  proof (cases go_on)
    case False
    with Suc.prems one 1 show ?thesis by auto
  next
    case True
    obtain es2 t2 where rest: "zt_receive_loop zmq k t1 = (es2, t2)" by fastforce
    from Suc.IH [OF rest] obtain gs2 where 2: "reads v t1 gs2 t2" "es2 = envelopes (zt_server t1) gs2" by blast
    have "zt_server t1 = zt_server t" using 1(1) by (simp add: reads_def)
    with Suc.prems one rest 1(2) 2(2) True reads_trans [OF 1(1) 2(1)] show ?thesis
      by (intro exI [of _ "gs1 @ gs2"]) simp
  qed
qed

section \<open>The operations with network traffic\<close>

lemma route_message_tells:
  "\<exists>ts. r_out (route_message e r) = r_out r @ ts \<and> subseq (recvs ts) [recv_of e]
     \<and> r_transport (route_message e r) = r_transport r \<and> r_sent (route_message e r) = r_sent r"
  by (auto simp: route_message_def Let_def tell_out_def recvs_def split: option.split)

lemma route_messages_tells:
  "\<exists>ts. r_out (fold route_message es r) = r_out r @ ts \<and> subseq (recvs ts) (map recv_of es)
     \<and> r_transport (fold route_message es r) = r_transport r \<and> r_sent (fold route_message es r) = r_sent r"
proof (induction es arbitrary: r)
  case (Cons e es)
  from route_message_tells obtain ts where 1: "r_out (route_message e r) = r_out r @ ts" "subseq (recvs ts) [recv_of e]"
    "r_transport (route_message e r) = r_transport r" "r_sent (route_message e r) = r_sent r" by blast
  from Cons.IH [of "route_message e r"] obtain ts' where
    2: "r_out (fold route_message es (route_message e r)) = r_out (route_message e r) @ ts'" "subseq (recvs ts') (map recv_of es)"
    "r_transport (fold route_message es (route_message e r)) = r_transport (route_message e r)"
    "r_sent (fold route_message es (route_message e r)) = r_sent (route_message e r)" by blast
  have "subseq (recvs (ts @ ts')) (map recv_of (e # es))" using list_emb_append_mono [OF 1(2) 2(2)] by simp
  with 1 2 show ?case by (intro exI [of _ "ts @ ts'"]) simp
qed simp

lemma poll_effect:
  assumes ok: "zmq_ok zmq v"
  shows "effect v r (snd (poll (zeromq_ops zmq) r))"
  unfolding effect_def
proof
  assume node: "node_ok v r"
  let ?srv = "zt_server (r_transport r)" and ?p = "snd (poll (zeromq_ops zmq) r)"
  obtain inbound t where rec: "zt_receive_loop zmq k_max_recv_per_poll (r_transport r) = (inbound, t)" by fastforce
  from receive_in [OF ok rec] obtain gs where gs: "reads v (r_transport r) gs t" "inbound = envelopes ?srv gs" by blast
  let ?r0 = "r\<lparr>r_transport := t\<rparr>"
  let ?r1 = "report_transport_events (zeromq_ops zmq) ?r0"
  from report_events_fields [of ?r0 zmq] obtain ts1 where
    1: "r_transport ?r1 = t\<lparr>zt_events := []\<rparr>" "r_sent ?r1 = r_sent r" "r_out ?r1 = r_out r @ ts1" "recvs ts1 = []"
    by (auto simp: undelivering_def)
  from route_messages_tells [of inbound ?r1] obtain ts2 where
    2: "r_out (fold route_message inbound ?r1) = r_out ?r1 @ ts2" "subseq (recvs ts2) (map recv_of inbound)"
    "r_transport (fold route_message inbound ?r1) = r_transport ?r1" "r_sent (fold route_message inbound ?r1) = r_sent ?r1" by blast
  have p: "?p = fold route_message inbound ?r1"
    using node rec by (simp add: poll_def zeromq_ops_def zt_receive_def node_ok_def)
  show "node_ok v ?p \<and> zt_server (r_transport ?p) = ?srv \<and> (\<exists>es gs ts. r_sent ?p = r_sent r @ es
          \<and> zv_out v (zmq_of ?p) = zv_out v (zmq_of r) @ map (frames_of ?srv) es
          \<and> zv_in v (zmq_of r) = gs @ zv_in v (zmq_of ?p) \<and> zv_got v (zmq_of ?p) = zv_got v (zmq_of r) @ gs
          \<and> r_out ?p = r_out r @ ts \<and> subseq (recvs ts) (map recv_of (envelopes ?srv gs)))"
    unfolding p using 1 2 gs node
    by (intro conjI exI [of _ "[]"] exI [of _ gs] exI [of _ "ts1 @ ts2"]) (simp_all add: reads_def node_ok_def)
qed

lemma try_send_effect:
  assumes ok: "zmq_ok zmq v" and send: "t_try_send (zeromq_ops zmq) e (r_transport r) = (result, t)"
    and r': "r_transport r' = t" "r_sent r' = r_sent r @ (if result = Sent then [e] else [])" "r_out r' = r_out r"
  shows "effect v r r'"
  unfolding effect_def
proof
  assume node: "node_ok v r"
  have "zt_try_send zmq e (r_transport r) = (result, t)" using send by (simp add: zeromq_ops_def)
  from try_send_out [OF ok _ _ this] node r' show "node_ok v r' \<and> zt_server (r_transport r') = zt_server (r_transport r)
     \<and> (\<exists>es gs ts. r_sent r' = r_sent r @ es
          \<and> zv_out v (zmq_of r') = zv_out v (zmq_of r) @ map (frames_of (zt_server (r_transport r))) es
          \<and> zv_in v (zmq_of r) = gs @ zv_in v (zmq_of r') \<and> zv_got v (zmq_of r') = zv_got v (zmq_of r) @ gs
          \<and> r_out r' = r_out r @ ts \<and> subseq (recvs ts) (map recv_of (envelopes (zt_server (r_transport r)) gs)))"
    by (intro conjI exI [of _ "if result = Sent then [e] else []"] exI [of _ "[]"]) (simp_all add: node_ok_def)
qed

lemma send_or_hold_effect:
  assumes ok: "zmq_ok zmq v"
  shows "effect v r (send_or_hold (zeromq_ops zmq) now e sndr r)"
proof (cases "held_for (env_peer e) r = []")
  case False
  then show ?thesis by (simp add: send_or_hold_def undelivering_effect [OF hold_or_report_quiet])
next
  case True
  obtain result t where s: "t_try_send (zeromq_ops zmq) e (r_transport r) = (result, t)" by fastforce
  note sent = try_send_effect [OF ok s]
  show ?thesis
  proof (cases result)
    case Sent
    with sent have "effect v r (r\<lparr>r_transport := t, r_sent := r_sent r @ [e]\<rparr>)" by simp
    with True s Sent show ?thesis by (simp add: send_or_hold_def effect_undelivering [OF _ track_request_quiet])
  next
    case Peer_full
    with sent have "effect v r (r\<lparr>r_transport := t\<rparr>)" by simp
    with True s Peer_full show ?thesis by (simp add: send_or_hold_def effect_undelivering [OF _ hold_or_report_quiet])
  next
    case (Send_throws x)
    with sent have "effect v r (r\<lparr>r_transport := t\<rparr>)" by simp
    with True s Send_throws show ?thesis by (simp add: send_or_hold_def effect_undelivering [OF _ send_error_quiet])
  qed
qed

lemma on_send_effect:
  assumes "zmq_ok zmq v"
  shows "effect v r (on_send (zeromq_ops zmq) now m sndr r)"
  by (simp add: on_send_def send_or_hold_effect [OF assms] undelivering_effect [OF send_error_quiet])

lemma count_quiet: "undelivering r r' \<Longrightarrow> undelivering r (r'\<lparr>r_queued_sends := k\<rparr>)"
  by (simp add: undelivering_def)

lemma flush_queue_traffic:
  assumes ok: "zmq_ok zmq v"
  shows "flush_queue (zeromq_ops zmq) now q r = (q', r') \<Longrightarrow> effect v r r'"
proof (induction q arbitrary: r)
  case (Cons front q)
  show ?case
  proof (cases "qs_deadline front \<le> now")
    case True
    with Cons show ?thesis by (auto intro: effect_trans [OF undelivering_effect [OF count_quiet [OF send_error_quiet]]])
  next
    case False
    obtain result t where s: "t_try_send (zeromq_ops zmq) (qs_message front) (r_transport r) = (result, t)" by fastforce
    note sent = try_send_effect [OF ok s]
    show ?thesis
    proof (cases result)
      case Sent
      with sent have "effect v r (r\<lparr>r_transport := t, r_sent := r_sent r @ [qs_message front]\<rparr>)" by simp
      note step = effect_undelivering [OF this count_quiet [OF track_request_quiet]]
      from Cons.prems False s Sent show ?thesis by (auto intro: effect_trans [OF step Cons.IH])
    next
      case Peer_full
      with sent [of r'] Cons.prems False s show ?thesis by auto
    next
      case (Send_throws x)
      with sent have "effect v r (r\<lparr>r_transport := t\<rparr>)" by simp
      note step = effect_undelivering [OF this count_quiet [OF send_error_quiet]]
      from Cons.prems False s Send_throws show ?thesis by (auto intro: effect_trans [OF step Cons.IH])
    qed
  qed
qed (simp add: effect_refl)

lemma flush_peers_traffic:
  assumes ok: "zmq_ok zmq v"
  shows "flush_peers (zeromq_ops zmq) now out r = (out', r') \<Longrightarrow> effect v r r'"
proof (induction out arbitrary: r out' r')
  case (Cons pq out)
  obtain p q where pq: "pq = (p, q)" by fastforce
  obtain q' r1 where 1: "flush_queue (zeromq_ops zmq) now q r = (q', r1)" by fastforce
  obtain out2 r2 where 2: "flush_peers (zeromq_ops zmq) now out r1 = (out2, r2)" by fastforce
  from Cons.prems pq 1 2 have "r' = r2" by simp
  with effect_trans [OF flush_queue_traffic [OF ok 1] Cons.IH [OF 2]] show ?case by simp
qed (simp add: effect_refl)

lemma flush_outbound_effect:
  assumes ok: "zmq_ok zmq v"
  shows "effect v r (snd (flush_outbound (zeromq_ops zmq) now r))"
proof -
  obtain out r1 where f: "flush_peers (zeromq_ops zmq) now (r_outbound r) r = (out, r1)" by fastforce
  have "undelivering r1 (r1\<lparr>r_outbound := out\<rparr>)" by (simp add: undelivering_def)
  from effect_undelivering [OF flush_peers_traffic [OF ok f] this] show ?thesis
    by (simp add: flush_outbound_def f effect_refl Let_def)
qed

lemma relay_turn_effect:
  assumes "zmq_ok zmq v"
  shows "effect v r (relay_turn (zeromq_ops zmq) now r)"
  by (simp add: relay_turn_def effect_refl effect_trans [OF poll_effect [OF assms] flush_outbound_effect [OF assms]])

lemma on_config_effect:
  assumes "zmq_ok zmq v"
  shows "effect v r (on_config (zeromq_ops zmq) c r)"
  unfolding on_config_def Let_def
  by (rule effect_trans [OF same_transport_effect [OF configure_same [OF assms]] report_events_effect])
    (simp_all add: zeromq_ops_def)

lemma wait_prepare_effect:
  assumes "zmq_ok zmq v"
  shows "effect v r (snd (wait_prepare (zeromq_ops zmq) now r))"
proof -
  obtain holding r1 where 1: "(if r_connected r then flush_outbound (zeromq_ops zmq) now r else (False, r)) = (holding, r1)" by fastforce
  obtain k r2 where 2: "(if r_connected r1 then poll (zeromq_ops zmq) r1 else (0, r1)) = (k, r2)" by fastforce
  have "effect v r r1" using 1 flush_outbound_effect [OF assms, of r now] by (auto simp: effect_refl split: if_splits)
  moreover have "effect v r1 r2" using 2 poll_effect [OF assms, of r1] by (auto simp: effect_refl split: if_splits)
  ultimately have "effect v r r2" by (rule effect_trans)
  with effect_undelivering [OF this expire_quiet] 1 2 show ?thesis by (simp add: wait_prepare_def)
qed

lemma wait_for_work_effect:
  assumes ok: "zmq_ok zmq v" and w: "wait_for_work (zeromq_ops zmq) now ready clk phase env mb r = Some (mb', r')"
  shows "effect v r r'"
  using w
proof (cases rule: wait_for_work_parts)
  case 1
  with wait_prepare_effect [OF ok] show ?thesis by simp
next
  case (2 b rm)
  have "effect v (snd (wait_prepare (zeromq_ops zmq) now r)) rm"
    using spin_before_block_relates [OF 2(1), where R = "effect v"] effect_refl effect_trans poll_effect [OF ok] by fastforce
  then have rm: "effect v r rm" by (rule effect_trans [OF wait_prepare_effect [OF ok]])
  have "effect v rm (report_transport_events (zeromq_ops zmq) (rm\<lparr>r_transport := t_wait (zeromq_ops zmq) timeout (r_transport rm)\<rparr>))"
    for timeout
    by (rule effect_trans [OF same_transport_effect [OF wait_same [OF ok]] report_events_effect]) (simp_all add: zeromq_ops_def)
  with 2(2) rm show ?thesis by (auto intro: effect_trans)
qed

lemma wake_effect: "effect v r (relay_wake (zeromq_ops zmq) r)"
  by (rule same_transport_effect [of _ _ "zt_wake (r_transport r)"])
    (simp_all add: relay_wake_def zeromq_ops_def zt_wake_def same_transport_def same_view_def)

text \<open>A step of a connected relay that leaves it connected: opening a connection is refused, closing it is excluded.\<close>

lemma relay_step_effect:
  assumes ok: "zmq_ok zmq v" and step: "relay_step (zeromq_ops zmq) s t" and conn: "r_connected (fst s)" "r_connected (fst t)"
  shows "effect v (fst s) (fst t)"
  using step
proof cases
  case (send r sub now m sndr)
  then show ?thesis by (simp add: on_send_effect [OF ok])
next
  case (connect r sub endpoint identity sndr)
  with conn show ?thesis by (simp add: on_connect_def undelivering_effect [OF send_error_quiet])
next
  case (bind r sub endpoint sndr)
  with conn show ?thesis by (simp add: on_bind_def undelivering_effect [OF send_error_quiet])
next
  case (route r sub mtype target)
  then show ?thesis by (simp add: undelivering_effect [OF on_route_quiet])
next
  case (config r sub c)
  then show ?thesis by (simp add: on_config_effect [OF ok])
next
  case (status r sub sndr)
  then show ?thesis by (simp add: undelivering_effect [OF on_status_quiet])
next
  case (turn r sub now)
  then show ?thesis by (simp add: relay_turn_effect [OF ok])
next
  case (idle now ready clk phase env mb r mb' r' sub)
  then show ?thesis using wait_for_work_effect [OF ok] by simp
next
  case (wake r sub)
  then show ?thesis by (simp add: wake_effect)
next
  case (stop r sub self named)
  with conn show ?thesis by (simp add: relay_on_stop_def cleanup_socket_def Let_def)
qed

section \<open>The invariant\<close>

text \<open>
  One node: its relay keeps the order of the requests, the network has got exactly what the relay sent, and what the relay told its
  actors is among what it read.
\<close>

definition node_inv :: "'z zmq_view \<Rightarrow> bool \<Rightarrow> 'z node \<Rightarrow> bool" where
  "node_inv v server s \<longleftrightarrow> relay_ok s \<and> node_ok v (fst s) \<and> zt_server (r_transport (fst s)) = server
     \<and> zv_out v (zmq_of (fst s)) = map (frames_of server) (r_sent (fst s))
     \<and> subseq (recvs (r_out (fst s))) (map recv_of (envelopes server (zv_got v (zmq_of (fst s)))))"

definition arrived :: "'z zmq_view \<Rightarrow> 'z node \<Rightarrow> frame list list" where
  "arrived v s = zv_got v (zmq_of (fst s)) @ zv_in v (zmq_of (fst s))"

definition from_client :: "string \<Rightarrow> frame list list \<Rightarrow> frame list list" where
  "from_client p fss = filter (\<lambda>fs. hd fs = p) fss"

definition net_inv :: "'z zmq_view \<Rightarrow> 'z net \<Rightarrow> bool" where
  "net_inv v n \<longleftrightarrow> node_inv v True (nt_server n)
     \<and> (\<forall>p. node_inv v False (nt_client n p)
          \<and> from_client p (arrived v (nt_server n)) = map ((#) p) (take (nt_up n p) (zv_out v (zmq_of (fst (nt_client n p)))))
          \<and> arrived v (nt_client n p) = take (nt_down n p) (for_client p (zv_out v (zmq_of (fst (nt_server n)))))
          \<and> nt_up n p \<le> length (zv_out v (zmq_of (fst (nt_client n p))))
          \<and> nt_down n p \<le> length (for_client p (zv_out v (zmq_of (fst (nt_server n))))))"

lemma node_init_inv: "node_init v server s \<Longrightarrow> node_inv v server s \<and> arrived v s = []"
  by (cases s) (auto simp: node_init_def node_inv_def arrived_def node_ok_def relay_fresh_def relay_ok_def held_counted_def
      in_order_def outbound_ok_def queue_of_def)

lemma node_step_inv:
  assumes ok: "zmq_ok zmq v" and inv: "node_inv v server s" and step: "relay_step (zeromq_ops zmq) s t"
    and conn: "r_connected (fst s)" "r_connected (fst t)"
  shows "node_inv v server t" "arrived v t = arrived v s"
    "\<exists>es. zv_out v (zmq_of (fst t)) = zv_out v (zmq_of (fst s)) @ map (frames_of server) es"
proof -
  have "relay_ok t" using relay_machine.inv_step [OF _ step] inv by (simp add: node_inv_def)
  moreover from relay_step_effect [OF ok step conn] inv obtain es gs ts where e: "node_ok v (fst t)"
    "zt_server (r_transport (fst t)) = server" "r_sent (fst t) = r_sent (fst s) @ es"
    "zv_out v (zmq_of (fst t)) = zv_out v (zmq_of (fst s)) @ map (frames_of server) es"
    "zv_in v (zmq_of (fst s)) = gs @ zv_in v (zmq_of (fst t))" "zv_got v (zmq_of (fst t)) = zv_got v (zmq_of (fst s)) @ gs"
    "r_out (fst t) = r_out (fst s) @ ts" "subseq (recvs ts) (map recv_of (envelopes server gs))"
    unfolding effect_def node_inv_def by blast
  ultimately show "node_inv v server t" "arrived v t = arrived v s"
    "\<exists>es. zv_out v (zmq_of (fst t)) = zv_out v (zmq_of (fst s)) @ map (frames_of server) es"
    using inv list_emb_append_mono [of "(=)" "recvs (r_out (fst s))" _ "recvs ts"]
    by (auto simp: node_inv_def arrived_def)
qed

lemma for_client_append [simp]: "for_client p (xs @ ys) = for_client p xs @ for_client p ys"
  by (simp add: for_client_def)

lemma from_client_append [simp]: "from_client p (xs @ ys) = from_client p xs @ from_client p ys"
  by (simp add: from_client_def)

lemma deliver_inv:
  assumes "zmq_ok zmq v" "node_inv v server s"
  shows "node_inv v server (apfst (deliver_to v fs) s)" "arrived v (apfst (deliver_to v fs) s) = arrived v s @ [fs]"
    "zv_out v (zmq_of (fst (apfst (deliver_to v fs) s))) = zv_out v (zmq_of (fst s))"
proof -
  have "relay_ok (apfst (deliver_to v fs) s)"
    using assms(2) relay_ok_same [of "fst s" "snd s" "deliver_to v fs (fst s)"]
    by (cases s) (simp add: node_inv_def deliver_to_def sends_same_def)
  with assms show "node_inv v server (apfst (deliver_to v fs) s)" "arrived v (apfst (deliver_to v fs) s) = arrived v s @ [fs]"
    "zv_out v (zmq_of (fst (apfst (deliver_to v fs) s))) = zv_out v (zmq_of (fst s))"
    by (simp_all add: node_inv_def arrived_def deliver_to_def node_ok_def zmq_ok_def)
qed

lemma net_step_inv:
  assumes ok: "zmq_ok zmq v" and inv: "net_inv v n" and step: "net_step zmq v n n'"
  shows "net_inv v n'"
  using step
proof cases
  case (net_server s)
  have "node_inv v True (nt_server n)" using inv by (simp add: net_inv_def)
  from node_step_inv [OF ok this net_server(2-4)] obtain es where "node_inv v True s" "arrived v s = arrived v (nt_server n)"
    "zv_out v (zmq_of (fst s)) = zv_out v (zmq_of (fst (nt_server n))) @ map (frames_of True) es" by blast
  with inv show ?thesis by (auto simp: net_inv_def net_server(1) trans_le_add1)
next
  case (net_client p s)
  have "node_inv v False (nt_client n p)" using inv by (simp add: net_inv_def)
  from node_step_inv [OF ok this net_client(2-4)] obtain es where "node_inv v False s" "arrived v s = arrived v (nt_client n p)"
    "zv_out v (zmq_of (fst s)) = zv_out v (zmq_of (fst (nt_client n p))) @ map (frames_of False) es" by blast
  with inv show ?thesis by (auto simp: net_inv_def net_client(1) trans_le_add1)
next
  case (net_up out p)
  have "node_inv v True (nt_server n)" using inv by (simp add: net_inv_def)
  note d = deliver_inv [OF ok this, of "p # out ! nt_up n p"]
  have "from_client q [p # out ! nt_up n p] = (if q = p then [p # out ! nt_up n p] else [])" for q
    by (simp add: from_client_def)
  with inv d net_up(2,3) show ?thesis by (auto simp: net_inv_def net_up(1) take_Suc_conv_app_nth)
next
  case (net_down out p)
  have "node_inv v False (nt_client n p)" using inv by (simp add: net_inv_def)
  note d = deliver_inv [OF ok this, of "out ! nt_down n p"]
  with inv net_down(2,3) show ?thesis by (auto simp: net_inv_def net_down(1) take_Suc_conv_app_nth)
qed

lemma net_init_inv: "net_init v n \<Longrightarrow> net_inv v n"
  using node_init_inv [of v True "nt_server n"] node_init_inv [of v False "nt_client n p" for p]
  by (simp add: net_init_def net_inv_def from_client_def)

lemma reachable_net_inv:
  assumes "zmq_ok zmq v" "reachable (net_init v) (net_step zmq v) n"
  shows "net_inv v n"
  using assms(2) by (induction rule: reachable.induct) (auto intro: net_init_inv net_step_inv [OF assms(1)])

section \<open>Reading what the other end sent\<close>

lemma server_reads: "parse_frames True (p # frames_of False e) = Inr (e\<lparr>env_peer := p\<rparr>)"
  by (simp add: parse_frames_def frames_of_def text_frames_def stoull_to_string)

lemma client_reads: "parse_frames False (tl (frames_of True e)) = Inr (e\<lparr>env_peer := []\<rparr>)"
  by (simp add: parse_frames_def frames_of_def text_frames_def stoull_to_string)

lemma envelopes_up: "envelopes True (map ((#) p) (map (frames_of False) es)) = map (\<lambda>e. e\<lparr>env_peer := p\<rparr>) es"
  by (induction es) (simp_all add: envelopes_def server_reads)

lemma for_client_down: "for_client p (map (frames_of True) es) = map (\<lambda>e. tl (frames_of True e)) (to_peer p es)"
  by (induction es) (simp_all add: for_client_def to_peer_def frames_of_def)

lemma envelopes_down: "envelopes False (map (\<lambda>e. tl (frames_of True e)) es) = map (\<lambda>e. e\<lparr>env_peer := []\<rparr>) es"
  by (induction es) (simp_all add: envelopes_def client_reads)

lemma parse_peer: "parse_frames True fs = Inr e \<Longrightarrow> env_peer e = hd fs"
  by (cases fs) (auto simp: parse_frames_def Let_def split: if_splits)

lemma envelopes_from_client: "filter (\<lambda>e. env_peer e = p) (envelopes True fss) = envelopes True (from_client p fss)"
  by (induction fss) (auto simp: envelopes_def from_client_def parse_peer split: sum.split)

lemma recv_source_filter: "filter (\<lambda>i. recv_source i = p) (map recv_of es) = map recv_of (filter (\<lambda>e. env_peer e = p) es)"
  by (induction es) (simp_all add: recv_of_def)

lemma subseq_append_left: "subseq xs ys \<Longrightarrow> subseq xs (ys @ zs)"
  by (rule subseq_rev_drop_many)

lemma subseq_take: "subseq xs (map f (take k ys)) \<Longrightarrow> subseq xs (map f ys)"
  by (metis append_take_drop_id map_append subseq_append_left)

lemma one_target:
  assumes "relay_ok (r, requested)" "\<forall>e \<in> set requested. env_peer e = q"
  shows "subseq (r_sent r) requested"
proof -
  have order: "subseq (to_peer x (r_sent r)) (to_peer x requested)" for x
    using assms(1) by (auto simp: relay_ok_def in_order_def dest: subseq_order.trans [OF subseq_append_left [OF subseq_order.refl]])
  have "env_peer e = q" if "e \<in> set (r_sent r)" for e
  proof (rule ccontr)
    assume "env_peer e \<noteq> q"
    with assms(2) have "to_peer (env_peer e) requested = []" by (auto simp: to_peer_def filter_empty_conv)
    with order [of "env_peer e"] have "to_peer (env_peer e) (r_sent r) = []" using list_emb_Nil2 by fastforce
    with that show False by (auto simp: to_peer_def filter_empty_conv)
  qed
  with order [of q] assms(2) show ?thesis by (simp add: to_peer_def filter_id_conv [THEN iffD2])
qed

section \<open>Property\<close>


section \<open>Witness\<close>

text \<open>A library with unbounded queues: the messages accepted, the frames of an unfinished one, those read and those readable.\<close>

type_synonym queues = "frame list list \<times> frame list \<times> frame list list \<times> frame list list"

definition queue_zmq :: "queues zmq_library" where
  "queue_zmq = \<lparr>zmq_socket = (\<lambda>_ z. (None, z)), zmq_set = (\<lambda>_ z. (None, z)), zmq_bind = (\<lambda>_ z. (None, z)), zmq_connect = (\<lambda>_ z. (None, z)),
     zmq_send = (\<lambda>f sndmore _ (out, part, got, inn).
       (Inr True, if sndmore then (out, part @ [f], got, inn) else (out @ [part @ [f]], [], got, inn))),
     zmq_recv = (\<lambda>(out, part, got, inn). case inn of [] \<Rightarrow> (Inr None, (out, part, got, inn))
       | fs # rest \<Rightarrow> (Inr (Some fs), (out, part, got @ [fs], rest))),
     zmq_poll = (\<lambda>_ _ wakes z. (Inr (wakes > 0), z)), zmq_last_endpoint = (\<lambda>_. []), zmq_close = (\<lambda>z. z)\<rparr>"

definition queue_view :: "queues zmq_view" where
  "queue_view = \<lparr>zv_out = (\<lambda>(out, part, got, inn). out), zv_part = (\<lambda>(out, part, got, inn). part),
     zv_got = (\<lambda>(out, part, got, inn). got), zv_in = (\<lambda>(out, part, got, inn). inn),
     zv_deliver = (\<lambda>fs (out, part, got, inn). (out, part, got, inn @ [fs]))\<rparr>"

lemma queue_zmq_ok: "zmq_ok queue_zmq queue_view"
  by (auto simp: zmq_ok_def send_ok_def recv_ok_def same_view_def queue_zmq_def queue_view_def split: list.splits)

definition queue_relay :: "bool \<Rightarrow> queues zrelay" where
  "queue_relay server = (relay_init \<lparr>zt_socket = True, zt_server = server, zt_options = transport_options_init, zt_events = [],
     zt_wakes = 0, zt_zmq = ([], [], [], [])\<rparr>)\<lparr>r_connected := True, r_mode := (if server then Router else Dealer), r_default_route := Some 9\<rparr>"

definition quote_request :: send_request where
  "quote_request = \<lparr>sr_target = [], sr_correlation_id = 7, sr_data = ''price?'', sr_content_type = ''text'', sr_message_type = ''quote''\<rparr>"

definition net0 :: "queues net" where
  "net0 = \<lparr>nt_server = (queue_relay True, []), nt_client = (\<lambda>p. (queue_relay False, [])), nt_up = (\<lambda>_. 0), nt_down = (\<lambda>_. 0)\<rparr>"

definition net1 :: "queues net" where
  "net1 = net0\<lparr>nt_client := (nt_client net0)(''c'' :=
     (on_send (zeromq_ops queue_zmq) 0 quote_request (Some 4) (queue_relay False), [envelope_of quote_request]))\<rparr>"

definition net2 :: "queues net" where
  "net2 = net1\<lparr>nt_server := (deliver_to queue_view (''c'' # frames_of False (envelope_of quote_request)) (queue_relay True), []),
     nt_up := (nt_up net1)(''c'' := 1)\<rparr>"

definition net3 :: "queues net" where
  "net3 = net2\<lparr>nt_server := (relay_turn (zeromq_ops queue_zmq) 5 (fst (nt_server net2)), [])\<rparr>"

lemma client_sends:
  "on_send (zeromq_ops queue_zmq) 0 quote_request (Some 4) (queue_relay False) =
     (queue_relay False)\<lparr>r_transport := (r_transport (queue_relay False))\<lparr>zt_zmq := ([frames_of False (envelope_of quote_request)], [], [], [])\<rparr>,
       r_sent := [envelope_of quote_request], r_pending_requests := [(7, \<lparr>pr_requester = 4, pr_deadline = 30000\<rparr>)]\<rparr>"
  by (simp add: on_send_def queue_relay_def relay_init_def quote_request_def transport_options_init_def send_or_hold_def held_for_def
      zeromq_ops_def zt_try_send_def queue_zmq_def frames_of_def text_frames_def envelope_of_def track_request_def)

lemma server_receives:
  assumes "zt_zmq t = ([], [], [], [''c'' # frames_of False e])" "zt_server t"
  shows "zt_receive_loop queue_zmq k_max_recv_per_poll t =
    ([e\<lparr>env_peer := ''c''\<rparr>], t\<lparr>zt_zmq := ([], [], [''c'' # frames_of False e], [])\<rparr>)"
proof -
  have "zt_receive_loop queue_zmq (Suc (Suc k)) t =
    ([e\<lparr>env_peer := ''c''\<rparr>], t\<lparr>zt_zmq := ([], [], [''c'' # frames_of False e], [])\<rparr>)" for k
    using assms by (simp add: receive_one_def queue_zmq_def server_reads)
  moreover have "k_max_recv_per_poll = Suc (Suc 254)" by (simp add: k_max_recv_per_poll_def)
  ultimately show ?thesis by metis
qed

lemma server_turn:
  "recvs (r_out (fst (nt_server net3))) = [recv_of ((envelope_of quote_request)\<lparr>env_peer := ''c''\<rparr>)]"
  "r_connected (fst (nt_server net3))"
  by (simp_all add: net3_def net2_def relay_turn_def poll_def zeromq_ops_def zt_receive_def server_receives deliver_to_def
      queue_view_def queue_relay_def relay_init_def report_transport_events_def zt_drain_events_def route_message_def
      flush_outbound_def tell_out_def recvs_def recv_of_def envelope_of_def quote_request_def)

lemma net3_reachable: "reachable (net_init queue_view) (net_step queue_zmq queue_view) net3"
proof -
  have "net_init queue_view net0"
    by (simp add: net_init_def net0_def node_init_def relay_fresh_def queue_relay_def relay_init_def queue_view_def)
  note r0 = reachable_init [where init = "net_init queue_view" and step = "net_step queue_zmq queue_view", OF this]
  have c1: "r_connected (fst (on_send (zeromq_ops queue_zmq) 0 quote_request (Some 4) (queue_relay False), [envelope_of quote_request]))"
    unfolding client_sends by (simp add: queue_relay_def)
  have "net_step queue_zmq queue_view net0 net1" unfolding net1_def
    by (rule net_client [OF _ _ c1])
      (use relay_step.send [of "zeromq_ops queue_zmq" "queue_relay False" "[]" 0 quote_request "Some 4"] in
        \<open>simp_all add: net0_def queue_relay_def\<close>)
  note r1 = reachable_step [OF r0 this]
  have out: "zv_out queue_view (zmq_of (fst (nt_client net1 ''c''))) = [frames_of False (envelope_of quote_request)]"
    by (simp add: net1_def client_sends queue_view_def)
  have "net_step queue_zmq queue_view net1 net2"
    using net_up [OF refl, of net1 "''c''" queue_view queue_zmq] out by (simp add: net1_def net0_def net2_def)
  note r2 = reachable_step [OF r1 this]
  have "relay_step (zeromq_ops queue_zmq) (nt_server net2) (relay_turn (zeromq_ops queue_zmq) 5 (fst (nt_server net2)), [])"
    using relay_step.turn [of "zeromq_ops queue_zmq" "fst (nt_server net2)" "[]" 5] by (simp add: net2_def)
  moreover have "r_connected (fst (nt_server net2))" by (simp add: net2_def deliver_to_def queue_relay_def)
  ultimately have "net_step queue_zmq queue_view net2 net3"
    using server_turn(2) unfolding net3_def by (intro net_server) simp_all
  then show ?thesis by (rule reachable_step [OF r2])
qed


end
