(* ===== verification/Relay_Actor.thy ===== *)
theory Relay_Actor
  imports Relay Actor_Api
begin

text \<open>
  The relay as an actor (source/zeromq_relay_actor.cpp: \<open>on_start\<close>): it takes the well-known name if it is the named relay, and registers its six
  handlers. \<open>types i\<close> is the type of the i-th message the relay handles: connect, bind, send, route, config, status.

  Shown: whatever was registered before, exactly the six types lead to the six handlers, and of all relays of a process
  only the named one claims the name.
\<close>

definition relay_handlers :: "(nat \<Rightarrow> type_index) \<Rightarrow> actor \<Rightarrow> actor" where
  "relay_handlers types A =
     handler (types 5) 5 (handler (types 4) 4 (handler (types 3) 3 (handler (types 2) 2 (handler (types 1) 1 (handler (types 0) 0 A)))))"

definition relay_on_start :: "(nat \<Rightarrow> type_index) \<Rightarrow> actor_ptr option \<Rightarrow> actor_ptr \<Rightarrow> sys \<Rightarrow> sys" where
  "relay_on_start types named self s =
     (let s1 = (case relay_on_start_name self named of Some n \<Rightarrow> set_name self n s | None \<Rightarrow> s)
      in upd_actor self (relay_handlers types) s1)"

lemma relay_handlers_table:
  assumes "inj_on types {0..<6}"
  shows "i < 6 \<Longrightarrow> m_handlers (relay_handlers types A) (types i) = Some i"
    "t \<notin> types ` {0..<6} \<Longrightarrow> m_handlers (relay_handlers types A) t = m_handlers A t"
proof -
  have six: "{0..<6} = {0, 1, 2, 3, 4, 5 :: nat}" by auto
  have diff: "types i = types j \<longleftrightarrow> i = j" if "i < 6" "j < 6" for i j
    using assms that by (auto simp: inj_on_def)
  show "m_handlers (relay_handlers types A) (types i) = Some i" if "i < 6"
  proof -
    have "i \<in> {0, 1, 2, 3, 4, 5}" using that six by auto
    then show ?thesis by (auto simp: relay_handlers_def handler_def diff)
  qed
  show "m_handlers (relay_handlers types A) t = m_handlers A t" if "t \<notin> types ` {0..<6}"
    using that unfolding six by (auto simp: relay_handlers_def handler_def)
qed

lemma set_name_keeps_handlers: "m_handlers (s_actors (set_name a n s) b) = m_handlers (s_actors s b)"
  by (auto simp: set_name_def publish_name_def upd_actor_def Let_def split: option.split)

text \<open>
  Fact. After \<open>on_start\<close> the relay's table leads each of the six message types to its handler and is otherwise as
  before; no other actor's table changes; and two relays never both claim the well-known name.
\<close>

theorem relay_starts:
  assumes "inj_on types {0..<6}"
  shows "(i < 6 \<longrightarrow> m_handlers (s_actors (relay_on_start types named self s) self) (types i) = Some i)
    \<and> (t \<notin> types ` {0..<6} \<longrightarrow> m_handlers (s_actors (relay_on_start types named self s) self) t = m_handlers (s_actors s self) t)
    \<and> (a \<noteq> self \<longrightarrow> m_handlers (s_actors (relay_on_start types named self s) a) = m_handlers (s_actors s a))
    \<and> (relay_on_start_name self named \<noteq> None \<and> relay_on_start_name other named \<noteq> None \<longrightarrow> other = self)"
  using relay_handlers_table [OF assms]
  by (auto simp: relay_on_start_def Let_def upd_actor_def set_name_keeps_handlers relay_on_start_name_def split: option.split if_splits)

theorem relay_starts_witness:
  "m_handlers (s_actors (relay_on_start TI (Some 3) 3 sys_with_handlers) 3) (TI 2) = Some 2"
proof -
  have "inj_on TI {0..<6}" by (simp add: inj_on_def)
  from relay_starts [OF this, of 2 "Some 3" 3 sys_with_handlers] show ?thesis by simp
qed

end
