(* ===== verification/Exchange_Session.thy ===== *)
theory Exchange_Session
  imports Actor_Api
begin

text \<open>
  A program written against the library: the exchange session of tutorials/17_stateful_actor.cpp. It is a stateful actor that
  must not send orders before it is logged in, and relies on selective receive for that: in each state it accepts only some message types.
  Here its handlers run over the models of the mailbox, the stash and the handler table, and what the tutorial claims is shown for
  every sequence of messages: the session follows its protocol, and orders go out in the order they were given, none lost and none twice.

  The standard output of the handlers is not modelled. \<open>w_told\<close> and \<open>w_handled\<close> are histories, not data of the program: the orders
  clients have told it, and the types of the messages its handlers ran for.
\<close>

section \<open>The class\<close>

definition connect_type :: type_index where "connect_type = TI 1"
definition login_ack_type :: type_index where "login_ack_type = TI 2"
definition disconnect_type :: type_index where "disconnect_type = TI 3"
definition new_order_type :: type_index where "new_order_type = TI 4"
definition backlog_query_type :: type_index where "backlog_query_type = TI 5"

lemmas session_types = connect_type_def login_ack_type_def disconnect_type_def new_order_type_def backlog_query_type_def

record session =
  sn_actor :: actor
  s_orders_sent :: "nat list"
  s_disconnect_count :: "32 word"
  w_told :: "nat list"
  w_handled :: "type_index list"

definition send_order :: "nat \<Rightarrow> message \<Rightarrow> message" where
  "send_order i m = m\<lparr>body := User_body new_order_type i\<rparr>"

definition enter_disconnected :: "actor \<Rightarrow> actor" where
  "enter_disconnected A = accept_message_type connect_type (reject_all_message_types A)"

definition enter_logging_in :: "actor \<Rightarrow> actor" where
  "enter_logging_in A = accept_message_type login_ack_type (reject_all_message_types A)"

definition enter_logged_in :: "actor \<Rightarrow> actor" where
  "enter_logged_in A = accept_message_type disconnect_type (accept_message_type new_order_type (reject_all_message_types A))"

text \<open>The numbers stand for the methods; \<open>size_t_type\<close> and \<open>no_args_type\<close> are what the compiler makes of the call handler's signature.\<close>

definition session_on_start :: "type_index \<Rightarrow> type_index \<Rightarrow> actor \<Rightarrow> actor" where
  "session_on_start size_t_type no_args_type A =
     enter_disconnected (call_handler size_t_type backlog_query_type no_args_type 4
       (handler_method new_order_type 3 (handler_method disconnect_type 2
         (handler_method login_ack_type 1 (handler_method connect_type 0 A)))))"

definition session_on_connect :: "session \<Rightarrow> session" where
  "session_on_connect s = s\<lparr>sn_actor := enter_logging_in (sn_actor s)\<rparr>"

definition session_on_login_ack :: "session \<Rightarrow> session" where
  "session_on_login_ack s = s\<lparr>sn_actor := enter_logged_in (sn_actor s)\<rparr>"

definition session_on_disconnect :: "session \<Rightarrow> session" where
  "session_on_disconnect s = s\<lparr>sn_actor := enter_disconnected (sn_actor s), s_disconnect_count := s_disconnect_count s + 1\<rparr>"

definition session_on_new_order :: "nat \<Rightarrow> session \<Rightarrow> session" where
  "session_on_new_order order_id s = s\<lparr>s_orders_sent := s_orders_sent s @ [order_id]\<rparr>"

definition session_on_backlog :: "session \<Rightarrow> size_t" where
  "session_on_backlog s = queue_size (sn_actor s)"

definition session_method :: "nat \<Rightarrow> message \<Rightarrow> session \<Rightarrow> session" where
  "session_method h m s =
     (if h = 0 then session_on_connect s else if h = 1 then session_on_login_ack s else if h = 2 then session_on_disconnect s
      else (case body m of User_body t i \<Rightarrow> session_on_new_order i s | _ \<Rightarrow> s))"

section \<open>What happens to it\<close>

definition session_dispatch :: "message \<Rightarrow> session \<Rightarrow> session" where
  "session_dispatch m s =
     (if \<not> is_user m then s
      else (case m_handlers (sn_actor s) (message_type_of m) of
              None \<Rightarrow> s
            | Some h \<Rightarrow> (session_method h m s)\<lparr>w_handled := w_handled s @ [message_type_of m]\<rparr>))"

definition order_ids :: "message list \<Rightarrow> nat list" where
  "order_ids ms = concat (map (\<lambda>m. case body m of User_body t i \<Rightarrow> (if t = new_order_type then [i] else []) | _ \<Rightarrow> []) ms)"

inductive session_step :: "session \<Rightarrow> session \<Rightarrow> bool" where
  ss_tell: "mailbox_accepts 1 (m_mailbox (sn_actor s)) \<Longrightarrow>
    session_step s (s\<lparr>sn_actor := (sn_actor s)\<lparr>m_mailbox := snd (mailbox_push m (m_mailbox (sn_actor s)))\<rparr>, w_told := w_told s @ order_ids [m]\<rparr>)"
| ss_process: "stash_next (m_stash (sn_actor s)) (m_mailbox (sn_actor s)) = Some (r, st, mb) \<Longrightarrow>
    s1 = s\<lparr>sn_actor := (sn_actor s)\<lparr>m_stash := st, m_mailbox := mb\<rparr>\<rparr> \<Longrightarrow>
    session_step s (case r of None \<Rightarrow> s1 | Some m \<Rightarrow> session_dispatch m s1)"

definition session_created :: "session \<Rightarrow> bool" where
  "session_created s \<longleftrightarrow> (\<exists>tname sz na. sn_actor s = session_on_start sz na (actor_init Stateful tname) \<or> sn_actor s = session_on_start sz na (actor_init Stateful_fast tname))
     \<and> s_orders_sent s = [] \<and> s_disconnect_count s = 0 \<and> w_told s = [] \<and> w_handled s = []"

section \<open>The protocol it should follow\<close>

datatype session_phase = Disconnected | Logging_in | Logged_in

fun phase_accepts :: "session_phase \<Rightarrow> type_index set" where
  "phase_accepts Disconnected = {connect_type}"
| "phase_accepts Logging_in = {login_ack_type}"
| "phase_accepts Logged_in = {new_order_type, disconnect_type}"

fun phase_after :: "session_phase \<Rightarrow> type_index \<Rightarrow> session_phase" where
  "phase_after p t = (if t = connect_type then Logging_in else if t = login_ack_type then Logged_in
     else if t = disconnect_type then Disconnected else p)"

fun protocol :: "session_phase \<Rightarrow> type_index list \<Rightarrow> session_phase option" where
  "protocol p [] = Some p"
| "protocol p (t # ts) = (if t \<in> phase_accepts p then protocol (phase_after p t) ts else None)"

lemma protocol_snoc: "protocol p (ts @ [t]) = (case protocol p ts of Some q \<Rightarrow> if t \<in> phase_accepts q then Some (phase_after q t) else None | None \<Rightarrow> None)"
  by (induction ts arbitrary: p) auto

lemma order_ids_simps [simp]: "order_ids [] = []" "order_ids (xs @ ys) = order_ids xs @ order_ids ys"
  by (simp_all add: order_ids_def)

section \<open>Processing a message\<close>

lemma fold_hold_filter:
  "st_accept_all (fold stash_hold ms st) = st_accept_all st" "st_accepted (fold stash_hold ms st) = st_accepted st"
  by (induction ms arbitrary: st) (simp_all add: stash_hold_def)

lemma select_takes:
  "st_accept_all (snd (stash_select st)) = st_accept_all st \<and> st_accepted (snd (stash_select st)) = st_accepted st
   \<and> (case fst (stash_select st) of None \<Rightarrow> st_held (snd (stash_select st)) = st_held st
      | Some m \<Rightarrow> \<exists>xs ys. st_held st = xs @ m # ys \<and> st_held (snd (stash_select st)) = xs @ ys \<and> accepts st m \<and> (\<forall>x \<in> set xs. \<not> accepts st x))"
proof (cases "take_first (accepts st) (st_held st)")
  case (Some p)
  then obtain m rest where p: "take_first (accepts st) (st_held st) = Some (m, rest)" by (cases p) auto
  from take_first_Some [OF this] p show ?thesis by (auto simp: stash_select_def)
qed (simp add: stash_select_def)

text \<open>
  Whatever is there, one call of \<open>process_next()\<close> takes at most one message out of the line of held and queued ones, and an ordinary
  message only if the filter accepts it and nothing before it.
\<close>

lemma stash_next_takes:
  assumes mb: "mailbox_inv mb" and st: "stash_inv st"
  shows "\<exists>r st' mb'. stash_next st mb = Some (r, st', mb') \<and> mailbox_inv mb' \<and> stash_inv st'
     \<and> st_accept_all st' = st_accept_all st \<and> st_accepted st' = st_accepted st
     \<and> (case r of None \<Rightarrow> st_held st' @ queued mb' = st_held st @ queued mb
        | Some m \<Rightarrow> \<exists>xs ys. st_held st @ queued mb = xs @ m # ys \<and> st_held st' @ queued mb' = xs @ ys
            \<and> (is_user m \<longrightarrow> accepts st m \<and> (\<forall>x \<in> set xs. \<not> accepts st x)))"
proof (cases "find (\<lambda>m. \<not> is_user m) (queued mb)")
  case None
  let ?st = "fold stash_hold (queued mb) st"
  have "list_all is_user (queued mb)" using None by (simp add: find_None_iff list_all_iff)
  then have "stash_inv (snd (stash_select ?st))" by (intro stash_select_inv fold_hold_inv st)
  moreover obtain mb' where "stash_next st mb = Some (fst (stash_select ?st), snd (stash_select ?st), mb')" "mailbox_inv mb'" "queued mb' = []"
    using stash_next_ordinary [OF mb None] by blast
  ultimately show ?thesis
    using select_takes [of ?st] by (cases "fst (stash_select ?st)") (auto simp: fold_hold_filter)
next
  case (Some f)
  let ?st = "fold stash_hold (takeWhile is_user (queued mb)) st"
  obtain mb' where n: "stash_next st mb = Some (Some f, ?st, mb')" "mailbox_inv mb'" "queued mb' = tl (dropWhile is_user (queued mb))"
    using stash_next_framework [OF mb Some] by blast
  have "\<not> is_user f" using Some by (auto simp: find_Some_iff)
  moreover have "st_held st @ queued mb = (st_held st @ takeWhile is_user (queued mb)) @ f # queued mb'"
    using find_Some_split [OF Some] n(3) by simp
  moreover have "st_held ?st @ queued mb' = (st_held st @ takeWhile is_user (queued mb)) @ queued mb'" by simp
  ultimately have "\<exists>xs ys. st_held st @ queued mb = xs @ f # ys \<and> st_held ?st @ queued mb' = xs @ ys
      \<and> (is_user f \<longrightarrow> accepts st f \<and> (\<forall>x \<in> set xs. \<not> accepts st x))" by blast
  moreover have "stash_inv ?st" by (intro fold_hold_inv list_all_takeWhile st)
  ultimately show ?thesis using n by (intro exI [of _ "Some f"] exI [of _ ?st] exI [of _ mb']) (simp add: fold_hold_filter del: fold_hold_held)
qed

section \<open>Invariant\<close>

definition in_phase :: "session_phase \<Rightarrow> actor \<Rightarrow> bool" where
  "in_phase p A \<longleftrightarrow> \<not> st_accept_all (m_stash A) \<and> st_accepted (m_stash A) = phase_accepts p"

definition session_inv :: "session \<Rightarrow> bool" where
  "session_inv s \<longleftrightarrow> mailbox_inv (m_mailbox (sn_actor s)) \<and> stash_inv (m_stash (sn_actor s)) \<and> is_stateful (sn_actor s)
     \<and> m_handlers (sn_actor s) = [connect_type \<mapsto> 0, login_ack_type \<mapsto> 1, disconnect_type \<mapsto> 2, new_order_type \<mapsto> 3]
     \<and> w_told s = s_orders_sent s @ order_ids (st_held (m_stash (sn_actor s)) @ queued (m_mailbox (sn_actor s)))
     \<and> (\<exists>p. protocol Disconnected (w_handled s) = Some p \<and> in_phase p (sn_actor s))"

lemma entered:
  assumes "stash_inv (m_stash A)"
  shows "in_phase Disconnected (enter_disconnected A)" "in_phase Logging_in (enter_logging_in A)" "in_phase Logged_in (enter_logged_in A)"
  by (auto simp: in_phase_def enter_disconnected_def enter_logging_in_def enter_logged_in_def accept_message_type_def reject_all_message_types_def
      stash_accept_def stash_reject_all_def recount_acceptable_def)

lemma enter_keeps:
  assumes "enter \<in> {enter_disconnected, enter_logging_in, enter_logged_in}"
  shows "m_mailbox (enter A) = m_mailbox A" "m_handlers (enter A) = m_handlers A" "is_stateful (enter A) = is_stateful A"
    "st_held (m_stash (enter A)) = st_held (m_stash A)" "stash_inv (m_stash A) \<Longrightarrow> stash_inv (m_stash (enter A))"
  using assms
  by (auto simp: enter_disconnected_def enter_logging_in_def enter_logged_in_def accept_message_type_def reject_all_message_types_def is_stateful_def
      stash_filter_inv) (auto simp: stash_accept_def stash_reject_all_def recount_acceptable_def)

lemma order_ids_single: "order_ids [m] = (case body m of User_body t i \<Rightarrow> (if t = new_order_type then [i] else []) | _ \<Rightarrow> [])"
  by (simp add: order_ids_def)

lemma order_ids_framework: "\<not> is_user m \<Longrightarrow> order_ids [m] = []"
  by (auto simp: order_ids_single is_user_def cas_framework_kind_def split: message_body.split)

lemma order_ids_other: "message_type_of m \<noteq> new_order_type \<Longrightarrow> order_ids [m] = []"
  by (auto simp: order_ids_single message_type_of_def split: message_body.split)

lemma no_orders: "(\<And>x. x \<in> set xs \<Longrightarrow> message_type_of x \<noteq> new_order_type) \<Longrightarrow> order_ids xs = []"
proof (induction xs)
  case (Cons x xs)
  with order_ids_other [of x] show ?case using order_ids_simps(2) [of "[x]" xs] by simp
qed simp

lemma order_message: "message_type_of m = new_order_type \<Longrightarrow> \<exists>i. body m = User_body new_order_type i"
  by (cases "body m") (auto simp: message_type_of_def new_order_type_def)

text \<open>What the handler of an accepted message does, by its type.\<close>

lemma handler_effect:
  assumes h: "m_handlers (sn_actor s) = [connect_type \<mapsto> 0, login_ack_type \<mapsto> 1, disconnect_type \<mapsto> 2, new_order_type \<mapsto> 3]" and m: "is_user m"
  shows "message_type_of m \<in> {connect_type, login_ack_type, disconnect_type} \<Longrightarrow>
      \<exists>enter \<in> {enter_disconnected, enter_logging_in, enter_logged_in}. \<exists>n. session_dispatch m s =
        s\<lparr>sn_actor := enter (sn_actor s), s_disconnect_count := n, w_handled := w_handled s @ [message_type_of m]\<rparr>
        \<and> (stash_inv (m_stash (sn_actor s)) \<longrightarrow> in_phase (phase_after p (message_type_of m)) (enter (sn_actor s)))"
    "body m = User_body new_order_type i \<Longrightarrow> session_dispatch m s = s\<lparr>s_orders_sent := s_orders_sent s @ [i], w_handled := w_handled s @ [new_order_type]\<rparr>"
proof -
  note d = session_dispatch_def session_method_def session_on_connect_def session_on_login_ack_def session_on_disconnect_def session_on_new_order_def m h
  show "\<exists>enter \<in> {enter_disconnected, enter_logging_in, enter_logged_in}. \<exists>n. session_dispatch m s =
        s\<lparr>sn_actor := enter (sn_actor s), s_disconnect_count := n, w_handled := w_handled s @ [message_type_of m]\<rparr>
        \<and> (stash_inv (m_stash (sn_actor s)) \<longrightarrow> in_phase (phase_after p (message_type_of m)) (enter (sn_actor s)))"
    if "message_type_of m \<in> {connect_type, login_ack_type, disconnect_type}"
  proof -
    consider (c) "message_type_of m = connect_type" | (l) "message_type_of m = login_ack_type" | (x) "message_type_of m = disconnect_type"
      using \<open>message_type_of m \<in> _\<close> by blast
    then show ?thesis
    proof cases
      case c
      then show ?thesis
        using entered(2) by (intro bexI [of _ enter_logging_in] exI [of _ "s_disconnect_count s"]) (simp_all add: d session_types)
    next
      case l
      then show ?thesis
        using entered(3) by (intro bexI [of _ enter_logged_in] exI [of _ "s_disconnect_count s"]) (simp_all add: d session_types)
    next
      case x
      then show ?thesis
        using entered(1) by (intro bexI [of _ enter_disconnected] exI [of _ "s_disconnect_count s + 1"]) (simp_all add: d session_types)
    qed
  qed
  show "session_dispatch m s = s\<lparr>s_orders_sent := s_orders_sent s @ [i], w_handled := w_handled s @ [new_order_type]\<rparr>" if "body m = User_body new_order_type i"
    using that by (simp add: d message_type_of_def session_types)
qed

lemma accepted_types: "t \<in> phase_accepts p \<Longrightarrow> t \<in> {connect_type, login_ack_type, disconnect_type} \<or> t = new_order_type \<and> p = Logged_in"
  by (cases p) auto

text \<open>One handled message: the session takes it out of the line, and its handler does what the protocol says.\<close>

lemma dispatch_inv:
  assumes inv: "mailbox_inv (m_mailbox (sn_actor s))" "stash_inv (m_stash (sn_actor s))" "is_stateful (sn_actor s)"
      "m_handlers (sn_actor s) = [connect_type \<mapsto> 0, login_ack_type \<mapsto> 1, disconnect_type \<mapsto> 2, new_order_type \<mapsto> 3]"
      "protocol Disconnected (w_handled s) = Some p" "in_phase p (sn_actor s)"
    and line: "w_told s = s_orders_sent s @ order_ids (xs @ m # ys)" "st_held (m_stash (sn_actor s)) @ queued (m_mailbox (sn_actor s)) = xs @ ys"
    and sel: "is_user m \<Longrightarrow> accepts (m_stash (sn_actor s)) m \<and> (\<forall>x \<in> set xs. \<not> accepts (m_stash (sn_actor s)) x)"
  shows "session_inv (session_dispatch m s) \<and> (s_orders_sent (session_dispatch m s) \<noteq> s_orders_sent s \<longrightarrow> p = Logged_in)"
proof (cases "is_user m")
  case False
  have "order_ids (xs @ m # ys) = order_ids (xs @ ys)"
    using order_ids_framework [OF False] order_ids_simps(2) [of xs "m # ys"] order_ids_simps(2) [of "[m]" ys] by simp
  with False inv line show ?thesis by (auto simp: session_inv_def session_dispatch_def)
next
  case True
  have told: "w_told s = s_orders_sent s @ order_ids xs @ order_ids [m] @ order_ids ys"
    using line(1) order_ids_simps(2) [of xs "m # ys"] order_ids_simps(2) [of "[m]" ys] by simp
  have acc: "message_type_of m \<in> phase_accepts p" "x \<in> set xs \<Longrightarrow> message_type_of x \<notin> phase_accepts p" for x
    using sel [OF True] inv(6) by (auto simp: accepts_def in_phase_def)
  from accepted_types [OF acc(1)] show ?thesis
  proof
    assume t: "message_type_of m \<in> {connect_type, login_ack_type, disconnect_type}"
    then obtain enter n where e: "enter \<in> {enter_disconnected, enter_logging_in, enter_logged_in}" "in_phase (phase_after p (message_type_of m)) (enter (sn_actor s))"
      "session_dispatch m s = s\<lparr>sn_actor := enter (sn_actor s), s_disconnect_count := n, w_handled := w_handled s @ [message_type_of m]\<rparr>"
      using handler_effect(1) [OF inv(4) True t, of p] inv(2) by blast
    have "order_ids [m] = []" by (rule order_ids_other) (use t in \<open>auto simp: session_types\<close>)
    moreover have "protocol Disconnected (w_handled s @ [message_type_of m]) = Some (phase_after p (message_type_of m))"
      using inv(5) acc(1) by (simp add: protocol_snoc del: phase_after.simps)
    ultimately show ?thesis
      using inv e(2) told line(2) enter_keeps [OF e(1)] unfolding session_inv_def e(3) by (auto simp del: phase_after.simps)
  next
    assume t: "message_type_of m = new_order_type \<and> p = Logged_in"
    then obtain i where i: "body m = User_body new_order_type i" using order_message by blast
    have "order_ids xs = []" by (rule no_orders) (use acc(2) t in auto)
    moreover have "order_ids [m] = [i]" by (simp add: order_ids_single i)
    moreover have "protocol Disconnected (w_handled s @ [new_order_type]) = Some Logged_in"
      using inv(5) t by (simp add: protocol_snoc session_types)
    ultimately show ?thesis
      using inv t told line(2) unfolding session_inv_def handler_effect(2) [OF inv(4) True i] by auto
  qed
qed

lemma created_inv: "session_created s \<Longrightarrow> session_inv s"
proof -
  assume "session_created s"
  then obtain A sz na where A: "sn_actor s = session_on_start sz na A" "m_stash A = stash_init" "m_mailbox A = mailbox_init" "m_handlers A = (\<lambda>_. None)" "is_stateful A"
    "s_orders_sent s = []" "w_told s = []" "w_handled s = []"
    by (auto simp: session_created_def actor_init_def is_stateful_def)
  define B where "B = call_handler sz backlog_query_type na 4 (handler_method new_order_type 3 (handler_method disconnect_type 2
         (handler_method login_ack_type 1 (handler_method connect_type 0 A))))"
  have B: "m_stash B = stash_init" "m_mailbox B = mailbox_init" "is_stateful B"
    "m_handlers B = [connect_type \<mapsto> 0, login_ack_type \<mapsto> 1, disconnect_type \<mapsto> 2, new_order_type \<mapsto> 3]"
    using A(2-5) by (simp_all add: B_def call_handler_def handler_method_def is_stateful_def)
  have "sn_actor s = enter_disconnected B" by (simp add: A(1) session_on_start_def B_def)
  with B A(6-8) enter_keeps [of enter_disconnected B] entered(1) [of B] stash_init_inv show ?thesis
    by (simp add: session_inv_def) (simp add: stash_init_def mailbox_init_def lane_defs)
qed

lemma push_order_ids:
  assumes "\<not> mailbox_closed mb"
  shows "order_ids (queued (snd (mailbox_push m mb))) = order_ids (queued mb) @ order_ids [m]"
  using mailbox_push_lanes [OF assms, of m] order_ids_framework [of m]
  by (auto simp: queued_def is_user_def is_call_def cas_framework_kind_def split: message_body.splits)

lemma process_inv:
  assumes inv: "session_inv s" and n: "stash_next (m_stash (sn_actor s)) (m_mailbox (sn_actor s)) = Some (r, st, mb)"
    and s1: "s1 = s\<lparr>sn_actor := (sn_actor s)\<lparr>m_stash := st, m_mailbox := mb\<rparr>\<rparr>" and t: "t = (case r of None \<Rightarrow> s1 | Some m \<Rightarrow> session_dispatch m s1)"
  shows "session_inv t" "s_orders_sent t \<noteq> s_orders_sent s \<Longrightarrow> in_phase Logged_in (sn_actor s)"
proof -
  let ?line = "st_held (m_stash (sn_actor s)) @ queued (m_mailbox (sn_actor s))"
  obtain p where p: "protocol Disconnected (w_handled s) = Some p" "in_phase p (sn_actor s)" using inv by (auto simp: session_inv_def)
  have k: "mailbox_inv mb" "stash_inv st" "st_accept_all st = st_accept_all (m_stash (sn_actor s))" "st_accepted st = st_accepted (m_stash (sn_actor s))"
    "case r of None \<Rightarrow> st_held st @ queued mb = ?line
     | Some m \<Rightarrow> \<exists>xs ys. ?line = xs @ m # ys \<and> st_held st @ queued mb = xs @ ys
         \<and> (is_user m \<longrightarrow> accepts (m_stash (sn_actor s)) m \<and> (\<forall>x \<in> set xs. \<not> accepts (m_stash (sn_actor s)) x))"
    using stash_next_takes [of "m_mailbox (sn_actor s)" "m_stash (sn_actor s)"] inv n unfolding session_inv_def by auto
  have a: "accepts st = accepts (m_stash (sn_actor s))" using k(3,4) by (simp add: accepts_def fun_eq_iff)
  have p1: "in_phase p (sn_actor s1)" using p(2) k(3,4) by (simp add: s1 in_phase_def)
  have s1f: "is_stateful (sn_actor s1)" "m_handlers (sn_actor s1) = m_handlers (sn_actor s)" "w_told s1 = w_told s" "s_orders_sent s1 = s_orders_sent s"
    "w_handled s1 = w_handled s" "m_stash (sn_actor s1) = st" "m_mailbox (sn_actor s1) = mb"
    using inv by (simp_all add: s1 session_inv_def is_stateful_def)
  have "session_inv t \<and> (s_orders_sent t \<noteq> s_orders_sent s \<longrightarrow> p = Logged_in)"
  proof (cases r)
    case None
    with k inv p p1 s1f t show ?thesis by (auto simp: session_inv_def)
  next
    case (Some m)
    then obtain xs ys where l: "?line = xs @ m # ys" "st_held st @ queued mb = xs @ ys"
      "is_user m \<longrightarrow> accepts st m \<and> (\<forall>x \<in> set xs. \<not> accepts st x)" using k(5) a by auto
    have "w_told s1 = s_orders_sent s1 @ order_ids (xs @ m # ys)" using inv l(1) s1f by (simp add: session_inv_def)
    from dispatch_inv [OF _ _ s1f(1) _ _ p1 this] k(1,2) p(1) l(2,3) s1f inv Some t show ?thesis by (simp add: session_inv_def)
  qed
  with p(2) show "session_inv t" "s_orders_sent t \<noteq> s_orders_sent s \<Longrightarrow> in_phase Logged_in (sn_actor s)" by auto
qed

interpretation session: inductive_invariant session_created session_step session_inv
proof unfold_locales
  show "session_inv s" if "session_created s" for s using created_inv [OF that] .
  show "session_inv t" if inv: "session_inv s" and "session_step s t" for s t
    using \<open>session_step s t\<close>
  proof cases
    case (ss_tell m)
    have "\<not> mailbox_closed (m_mailbox (sn_actor s))" "Suc (length (queued (m_mailbox (sn_actor s)))) < 2 ^ 64"
      using ss_tell(2) by (simp_all add: mailbox_accepts_def)
    with ss_tell(1) inv push_order_ids [of "m_mailbox (sn_actor s)" m] mailbox_push_inv [of "m_mailbox (sn_actor s)" m] show ?thesis
      by (auto simp: session_inv_def in_phase_def is_stateful_def)
  next
    case (ss_process r st mb s1)
    from process_inv(1) [OF inv ss_process(2,3) ss_process(1)] show ?thesis .
  qed
qed

section \<open>Property\<close>

text \<open>
  Property C37. The exchange session keeps what its tutorial promises, whatever messages it is told and however they interleave with the turns of its
  worker. The messages its handlers run for follow the protocol (connect, then login, then orders until a disconnect), although clients may
  send anything at any time. An order goes out only while the session is logged in. The orders told to it are those it has sent, followed
  by those still held or queued, in the order in which they were told: none is lost, sent twice or overtaken. The backlog it reports
  is the number of messages held and queued.
\<close>

theorem session_orders_in_sequence:
  assumes "reachable session_created session_step s"
  shows "(\<exists>p. protocol Disconnected (w_handled s) = Some p)
    \<and> (session_step s t \<and> s_orders_sent t \<noteq> s_orders_sent s \<longrightarrow> protocol Disconnected (w_handled s) = Some Logged_in)
    \<and> w_told s = s_orders_sent s @ order_ids (st_held (m_stash (sn_actor s)) @ queued (m_mailbox (sn_actor s)))
    \<and> session_on_backlog s = of_nat (length (st_held (m_stash (sn_actor s)) @ queued (m_mailbox (sn_actor s))))"
proof -
  have inv: "session_inv s" by (rule session.reachable_inv [OF assms])
  then obtain p where p: "protocol Disconnected (w_handled s) = Some p" "in_phase p (sn_actor s)" by (auto simp: session_inv_def)
  have "p = Logged_in" if "session_step s t" "s_orders_sent t \<noteq> s_orders_sent s"
    using that(1)
  proof cases
    case (ss_process r st mb s1)
    from process_inv(2) [OF inv ss_process(2,3,1) that(2)] p(2) show ?thesis
      by (cases p) (auto simp: in_phase_def session_types)
  qed (use that(2) in simp)
  moreover have "session_on_backlog s = of_nat (length (st_held (m_stash (sn_actor s)) @ queued (m_mailbox (sn_actor s))))"
    using inv by (simp add: session_inv_def session_on_backlog_def queue_size_def stash_queued_def stash_inv_def mailbox_inv_def mailbox_size_def
        call_size_def other_size_def queued_def)
  ultimately show ?thesis using inv p(1) by (auto simp: session_inv_def)
qed

text \<open>A session just created is told an order: it holds the order back and reports a backlog of one.\<close>

definition session_started :: session where
  "session_started = \<lparr>sn_actor = session_on_start (TI 6) (TI 7) (actor_init Stateful ''session''), s_orders_sent = [], s_disconnect_count = 0,
     w_told = [], w_handled = []\<rparr>"

definition session_told :: session where
  "session_told = session_started\<lparr>sn_actor := (sn_actor session_started)\<lparr>m_mailbox :=
     snd (mailbox_push (send_order 1 (sample_user 1)) (m_mailbox (sn_actor session_started)))\<rparr>, w_told := [1]\<rparr>"

lemma session_started_fields: "m_mailbox (sn_actor session_started) = mailbox_init" "w_told session_started = []"
  by (simp_all add: session_started_def session_on_start_def enter_keeps(1) call_handler_def handler_method_def actor_init_def)

lemma session_told_reachable: "reachable session_created session_step session_told"
proof -
  have "session_created session_started" by (auto simp: session_created_def session_started_def)
  then have "reachable session_created session_step session_started" by (rule reachable_init)
  moreover have "session_step session_started session_told"
    using ss_tell [of session_started "send_order 1 (sample_user 1)"]
    by (simp add: session_told_def session_started_fields order_ids_single send_order_def mailbox_accepts_def mailbox_init_def mailbox_closed_def lane_defs)
  ultimately show ?thesis by (rule reachable_step)
qed

theorem session_orders_in_sequence_witness:
  "reachable session_created session_step session_told \<and> w_told session_told = [1]
   \<and> order_ids (st_held (m_stash (sn_actor session_told)) @ queued (m_mailbox (sn_actor session_told))) = [1]"
  using session_told_reachable session_orders_in_sequence [OF session_told_reachable, of session_told]
  by (simp add: session_told_def session_started_def)

end
