(* ===== verification/Spec2Isabelle.thy ===== *)
theory Spec2Isabelle
  imports Mailbox_Concurrent Message_Alloc Fixed_String Fast_Actor System_Reachable Worker_Turn Worker_Fairness Dispatch_Guard Transport_Context Relay_Network Relay_Actor
  Exchange_Session
begin

text \<open>
  A verification of the cygnus actor system (C++, include/cas and source).

  \<^bold>\<open>The program.\<close> Actors own a mailbox and run their handlers one message at a time. The singleton \<open>system\<close> creates
  them, pins pooled actors to worker threads, wakes workers, stops actors and shuts down; a timer thread sends
  delayed messages; messages are allocated from a pool with per-thread caches; inline actors run on the
  sender's thread, fast actors on a thread of their own, stateful actors choose which messages to accept;
  a relay actor connects actors of different processes over a transport. Components meet in few places: a push
  into a blocked mailbox makes the sender schedule the actor, a worker pops the ready queue and drains the mailbox, a
  stop is requested by any thread and carried out by the executing one.

  \<^bold>\<open>The theories\<close>, each after those it uses:

  \<^item> \<open>Prelude\<close>: machine types, messages (message_base.h, call_message.h), reachability, the locale
    \<open>inductive_invariant\<close> that carries the safety proofs over step relations, the queue locales
    \<open>delivery_queue\<close>, \<open>fifo_queue\<close> and \<open>two_lane_queue\<close>, and the drain loop over them.
  \<^item> \<open>Mailbox\<close> (detail/mailbox.h, mailbox.cpp): every operation; it interprets \<open>two_lane_queue\<close>. A burst drains completely and
    in order, close hands back everything.
  \<^item> \<open>Mailbox_Concurrent\<close>: the same code at the grain of its atomic accesses, any number of producers: delivery order, no
    loss, exact counters, calls overtake, close is final; and an operation that runs alone does what \<open>Mailbox\<close> says.
  \<^item> \<open>Ready_Queue\<close> (ready_queue.cpp): lists, and linked actor objects that refine them.
  \<^item> \<open>Actor_Registry\<close> (actor_registry.cpp), \<open>Selective_Stash\<close> (selective_stash.cpp), \<open>Timer_Manager\<close> (timer_manager.cpp),
    \<open>Message_Pool\<close> (message_pool.cpp, pooled operator new and delete of messages), \<open>Message_Alloc\<close> (the over-aligned ones beside them:
    every message is aligned, none overlaps another), \<open>Fixed_String\<close> (fixed_string.h).
  \<^item> \<open>Actor_System\<close> (actor.h, actor.cpp, system.h, system.cpp): the state of actors and of the system; sending, reporting,
    names, timers, watches. \<open>Actor_Services\<close> has their properties: every send is queued or becomes one dead letter, the
    two watch tables are inverse, cancelling reaches every timer.
  \<^item> \<open>Actor_Dispatch\<close> (actor.cpp, system.cpp, inline_actor.h, stateful_actor.cpp, actor_ref_impl.h): dispatch, calls, hooks, inline turns,
    the stop protocol. \<open>Actor_Execution\<close> has their properties: exceptions stay inside, calls are answered, a call that would
    deadlock is refused, inline turns do not nest, a stop leaves nothing behind.
  \<^item> \<open>Actor_Ref\<close> (actor_ref.h, actor_ref_impl.h, actor_ref.cpp): handles, and calls to the end. A call through mailbox, dispatch and
    promise comes back with the handler's result, and a call with a timeout always returns.
  \<^item> \<open>Actor_Views\<close>: the locales \<open>report_view\<close> and \<open>bookkeeping_view\<close>, which show once for every view of the system that does not show
    the books that the operations that only keep books leave it alone. \<open>Actor_Api\<close> (actor.h, actor.cpp, stateful_actor.h, system.h): handler
    registration, accessors, \<open>create\<close> and the end of the system; a told message runs the handler registered last for its type.
  \<^item> \<open>Actor_Lifecycle\<close> (system.cpp): configure, register, start, shutdown, wait, reset. Shutdown returns, a failed creation
    leaves nothing, worker threads have their queues; two defects are shown as theorems.
  \<^item> \<open>Fast_Actor\<close> (fast_actor.cpp): the loop of a dedicated thread, and that it obeys a stop.
  \<^item> \<open>Scheduler\<close> (schedule, activate_after_start, wake_worker, spin_for_work, park_worker, run_actor, worker_thread of system.cpp): client and worker
    threads as a step relation. One executor at a time, and no work is lost. \<open>Worker\<close> models \<open>run_actor\<close> over the whole state and shows that it
    implements those steps, \<open>Worker_Turn\<close> that a turn returns, \<open>Worker_Fairness\<close> that no actor starves; \<open>Dispatch_Guard\<close> (actor.cpp: \<open>dispatch_guard\<close>) that the debug guard never fires.
  \<^item> \<open>System_Invariants\<close>: the locale \<open>framework_invariant\<close>, which shows for any property of mailboxes, stashes, timers and watches that sending,
    dispatch, stops, turns and threads keep it. \<open>System_Reachable\<close>: \<open>system_invariant\<close> extends it to the life cycle; the invariants of
    the components interpret it, so that they hold in every state a program reaches by the operations of the library (\<open>api_step\<close>).
  \<^item> \<open>Transport\<close> (detail/transport.h, zeromq_transport.cpp): the interface, the wire format and its round trip, the ZeroMQ
    transport call by call. \<open>Transport_Context\<close>: construction and destruction, and the context all transports share.
  \<^item> \<open>Relay\<close> (zeromq_relay_actor.h, zeromq_relay_actor.cpp): the relay over any transport. Order per peer, what becomes of a send, replies
    reach their requester, waiting ends. \<open>Relay_Actor\<close>: its \<open>on_start\<close>. \<open>Relay_Network\<close>: a server and its clients over a network, and that what is
    delivered at one end is what was asked for at the other.
  \<^item> \<open>Exchange_Session\<close> (tutorials/17_stateful_actor.cpp): a program over the library, the session that holds orders back until it is logged
    in. Its handlers over the models of the mailbox and the stash follow the protocol and send every order once and in sequence.

  \<^bold>\<open>Conventions.\<close> A class is a record with the data members of the source under their names; a member function is a
  function on that record; \<open>size_t\<close> and \<open>uint64_t\<close> are 64-bit words that wrap. A call that may throw returns \<open>exn option\<close> or a
  sum beside the state. A time read from a clock is an argument, and so is the function that says what other
  threads do while a call waits. User code (handlers, hooks, callbacks) is a parameter: any functions on the
  whole state; a property that needs user code to leave something alone says so in a hypothesis. The vendored
  queue, \<open>::operator new\<close> and the ZeroMQ library are parameters too.

  \<^bold>\<open>Bounds and loops.\<close> A loop that may not end is a partial function with \<open>None\<close> for no return (\<open>drain\<close>, \<open>stash_pull\<close>, \<open>stop_loop\<close>,
  \<open>monitor_drain\<close>, \<open>await\<close>, \<open>spin_poll\<close>, \<open>run_actor_loop\<close>, \<open>run_dedicated_thread_started\<close>), and that it returns is proved where it is claimed. The
  framework calls itself through inline watchers; \<open>framework_of\<close> bounds the depth of that nesting, and the
  theorems on stops hold from depth one on, since they exclude inline actors.

  \<^bold>\<open>Concurrency.\<close> \<open>Mailbox_Concurrent\<close>, \<open>Timer_Manager\<close>, \<open>Message_Pool\<close>, \<open>Message_Alloc\<close>, \<open>Scheduler\<close>, \<open>Dispatch_Guard\<close>, \<open>Transport_Context\<close>, \<open>Relay\<close>
  and \<open>Relay_Network\<close> have step relations, and their properties hold
  in every reachable state. Memory is sequentially consistent there; weaker orders are not modelled. The
  other theories run one call of one thread to its end.

  \<^bold>\<open>Not modelled.\<close> The vendored concurrentqueue.h, which is third-party code; cas.h and ask_message.h, which have
  no code of their own; stream output and \<open>std::format\<close> of fixed strings; overloads that only forward to a modelled one; access to the singletons;
  reference counts of actors; \<open>system::notify_worker\<close>, which nothing calls; the
  other tutorials, the benchmarks and the tests, whose logic is the calls they make of the library.
\<close>

end
